(* ===== verification/Prelude.thy ===== *)
theory Prelude
  imports Main "HOL-Library.Word"
begin

text \<open>
  Shared vocabulary of the development: names for the machine types of the C sources, the
  generic array scan behind every \<^verbatim>\<open>for (i = 0; i < N; ++i) if (P(i)) return ...\<close> loop, the
  error numbers of \<^verbatim>\<open>include/mgcore/errno.h\<close>, and the interfaces (locales) that several
  components provide: allocation of table slots, bump allocation of storage, bounded queues and
  state machines with an invariant.
\<close>

unbundle bit_operations_syntax

type_synonym u8 = "8 word"
type_synonym u16 = "16 word"
type_synonym u32 = "32 word"
type_synonym u64 = "64 word"

named_theorems invariants "preservation of component invariants"
named_theorems c_simps "rewrite rules for the C level vocabulary"

subsection \<open>Error numbers\<close>

definition EPERM :: int where "EPERM = 1"
definition ENOENT :: int where "ENOENT = 2"
definition EIO :: int where "EIO = 5"
definition ENOEXEC :: int where "ENOEXEC = 8"
definition EBADF :: int where "EBADF = 9"
definition ECHILD :: int where "ECHILD = 10"
definition ENOMEM :: int where "ENOMEM = 12"
definition EFAULT :: int where "EFAULT = 14"
definition ENOTDIR :: int where "ENOTDIR = 20"
definition EISDIR :: int where "EISDIR = 21"
definition EINVAL :: int where "EINVAL = 22"
definition ENFILE :: int where "ENFILE = 23"
definition EMFILE :: int where "EMFILE = 24"
definition ENOSPC :: int where "ENOSPC = 28"
definition ENOSYS :: int where "ENOSYS = 38"
definition ENOTEMPTY :: int where "ENOTEMPTY = 39"

lemmas errno_defs = EPERM_def ENOENT_def EIO_def ENOEXEC_def EBADF_def ECHILD_def ENOMEM_def
  EFAULT_def ENOTDIR_def EISDIR_def EINVAL_def ENFILE_def EMFILE_def ENOSPC_def ENOSYS_def
  ENOTEMPTY_def

subsection \<open>Alignment masks and single bits\<close>

lemma and_not_mask_word: "w AND NOT (mask n) = push_bit n (drop_bit n w)" for w :: "'a::len word"
  by (rule bit_eqI) (auto simp: bit_simps)

lemma unat_and_not_mask:
  "unat (w AND NOT (mask n)) = unat w div 2 ^ n * 2 ^ n" for w :: "'a::len word"
proof -
  have "unat w div 2 ^ n * 2 ^ n \<le> unat w" by simp
  then have "unat w div 2 ^ n * 2 ^ n < 2 ^ LENGTH('a)" using unsigned_less [of w] by (rule le_less_trans)
  moreover have "unat (w AND NOT (mask n)) = take_bit LENGTH('a) (push_bit n (drop_bit n (unat w)))"
    by (simp only: and_not_mask_word unsigned_push_bit_eq unsigned_drop_bit_eq)
      (simp only: unsigned_take_bit_eq [symmetric] take_bit_length_eq)
  ultimately show ?thesis
    by (simp add: push_bit_eq_mult drop_bit_eq_div take_bit_eq_mod)
qed

lemma unat_and_low32:
  "unat (w AND (mask 32 AND NOT (mask n))) = unat w mod 2 ^ 32 div 2 ^ n * 2 ^ n" for w :: u64
proof -
  have "w AND (mask 32 AND NOT (mask n)) = take_bit 32 w AND NOT (mask n)"
    by (simp add: take_bit_eq_mask and.assoc)
  moreover have "unat (take_bit 32 w) = unat w mod 2 ^ 32"
    by (simp only: unsigned_take_bit_eq) (simp only: take_bit_eq_mod)
  ultimately show ?thesis by (simp only: unat_and_not_mask)
qed

lemma bit_test_word: "(w AND push_bit n 1 \<noteq> 0) = bit w n" for w :: "'a::len word"
  by (simp add: bit_iff_and_push_bit_not_eq_0)

subsection \<open>Linear scan for the first index with a property\<close>

function scan_from :: "(nat \<Rightarrow> bool) \<Rightarrow> nat \<Rightarrow> nat \<Rightarrow> nat option" where
  "scan_from p i n = (if i < n then (if p i then Some i else scan_from p (Suc i) n) else None)"
  by pat_completeness auto
termination
  by (relation "measure (\<lambda>(p, i, n). n - i)") auto

declare scan_from.simps [simp del]

lemma scan_from_find: "scan_from p i n = find p [i..<n]"
proof (induction p i n rule: scan_from.induct)
  case (1 p i n)
  then show ?case
    by (subst scan_from.simps) (simp add: upt_conv_Cons)
qed

lemma scan_from_None_iff: "scan_from p i n = None \<longleftrightarrow> (\<forall>j. i \<le> j \<and> j < n \<longrightarrow> \<not> p j)"
  by (auto simp: scan_from_find find_None_iff)

lemma scan_from_Some_iff:
  "scan_from p i n = Some k \<longleftrightarrow> i \<le> k \<and> k < n \<and> p k \<and> (\<forall>j. i \<le> j \<and> j < k \<longrightarrow> \<not> p j)"
proof
  assume "scan_from p i n = Some k"
  then obtain m where m: "m < n - i" "p (i + m)" "k = i + m" "\<forall>j<m. \<not> p (i + j)"
    by (auto simp: scan_from_find find_Some_iff)
  have "\<not> p j" if "i \<le> j" "j < k" for j
    using m(3,4) that by (metis le_Suc_ex nat_add_left_cancel_less)
  then show "i \<le> k \<and> k < n \<and> p k \<and> (\<forall>j. i \<le> j \<and> j < k \<longrightarrow> \<not> p j)"
    using m by auto
next
  assume "i \<le> k \<and> k < n \<and> p k \<and> (\<forall>j. i \<le> j \<and> j < k \<longrightarrow> \<not> p j)"
  then show "scan_from p i n = Some k"
    by (auto simp: scan_from_find find_Some_iff intro!: exI [of _ "k - i"])
qed

lemma scan_from_SomeD:
  assumes "scan_from p i n = Some k"
  shows "i \<le> k" and "k < n" and "p k" and "\<And>j. i \<le> j \<Longrightarrow> j < k \<Longrightarrow> \<not> p j"
  using assms by (auto simp: scan_from_Some_iff)

subsection \<open>Reachable states and invariants\<close>

inductive reach :: "('s \<Rightarrow> bool) \<Rightarrow> ('s \<Rightarrow> 's \<Rightarrow> bool) \<Rightarrow> 's \<Rightarrow> bool"
  for I :: "'s \<Rightarrow> bool" and R :: "'s \<Rightarrow> 's \<Rightarrow> bool" where
  start: "I s \<Longrightarrow> reach I R s"
| step: "reach I R s \<Longrightarrow> R s t \<Longrightarrow> reach I R t"

locale state_machine =
  fixes init :: "'s \<Rightarrow> bool"
    and step :: "'s \<Rightarrow> 's \<Rightarrow> bool"
    and inv :: "'s \<Rightarrow> bool"
  assumes inv_init: "init s \<Longrightarrow> inv s"
    and inv_step: "inv s \<Longrightarrow> step s t \<Longrightarrow> inv t"
begin

lemma reach_inv: "reach init step s \<Longrightarrow> inv s"
  by (induction rule: reach.induct) (auto intro: inv_init inv_step)

lemma steps_inv: "step\<^sup>*\<^sup>* s t \<Longrightarrow> inv s \<Longrightarrow> inv t"
  by (induction rule: rtranclp_induct) (auto intro: inv_step)

end

subsection \<open>Tables of slots, allocated first free slot first\<close>

text \<open>
  The contract of the fixed tables of the kernel (tasks, open files, tmpfs nodes, physical
  pages): \<open>alloc p s\<close> takes the least free slot and marks it taken, and nothing else; it fails
  only when no slot below the capacity is free.
\<close>

locale slot_allocator =
  fixes slot_free :: "'s \<Rightarrow> nat \<Rightarrow> bool"
    and cap :: nat
    and inv :: "'s \<Rightarrow> bool"
    and alloc :: "'p \<Rightarrow> 's \<Rightarrow> (nat \<times> 's) option"
  assumes alloc_None_iff: "inv s \<Longrightarrow> alloc p s = None \<longleftrightarrow> (\<forall>i<cap. \<not> slot_free s i)"
    and alloc_slot: "inv s \<Longrightarrow> alloc p s = Some (i, s') \<Longrightarrow> i < cap \<and> slot_free s i"
    and alloc_least: "inv s \<Longrightarrow> alloc p s = Some (i, s') \<Longrightarrow> j < i \<Longrightarrow> \<not> slot_free s j"
    and alloc_taken: "inv s \<Longrightarrow> alloc p s = Some (i, s') \<Longrightarrow> \<not> slot_free s' i"
    and alloc_frame: "inv s \<Longrightarrow> alloc p s = Some (i, s') \<Longrightarrow> j \<noteq> i \<Longrightarrow> slot_free s' j = slot_free s j"
    and alloc_inv: "inv s \<Longrightarrow> alloc p s = Some (i, s') \<Longrightarrow> inv s'"
begin

definition free_count :: "'s \<Rightarrow> nat" where
  "free_count s = card {i. i < cap \<and> slot_free s i}"

lemma alloc_count:
  assumes "inv s" and "alloc p s = Some (i, s')"
  shows "Suc (free_count s') = free_count s"
proof -
  have "{j. j < cap \<and> slot_free s j} = insert i {j. j < cap \<and> slot_free s' j}"
    using alloc_slot [OF assms] alloc_frame [OF assms] alloc_taken [OF assms]
    by (auto, metis+)
  moreover have "i \<notin> {j. j < cap \<and> slot_free s' j}"
    using alloc_taken [OF assms] by simp
  ultimately show ?thesis
    by (simp add: free_count_def)
qed

fun alloc_all :: "'p list \<Rightarrow> 's \<Rightarrow> (nat list \<times> 's) option" where
  "alloc_all [] s = Some ([], s)"
| "alloc_all (p # ps) s =
     (case alloc p s of None \<Rightarrow> None
      | Some (i, s') \<Rightarrow> (case alloc_all ps s' of None \<Rightarrow> None | Some (is, t) \<Rightarrow> Some (i # is, t)))"

lemma alloc_all_slots:
  "inv s \<Longrightarrow> alloc_all ps s = Some (is, t) \<Longrightarrow>
    distinct is \<and> set is \<subseteq> {i. i < cap \<and> slot_free s i} \<and> inv t"
proof (induction ps arbitrary: s "is")
  case Nil
  then show ?case by simp
next
  case (Cons p ps)
  then obtain i s' js where a: "alloc p s = Some (i, s')" and r: "alloc_all ps s' = Some (js, t)"
    and "is": "is = i # js"
    by (auto split: option.splits)
  have js: "distinct js" "set js \<subseteq> {j. j < cap \<and> slot_free s' j}" "inv t"
    using Cons.IH [OF alloc_inv [OF Cons.prems(1) a] r] by auto
  have "i \<notin> set js" using js(2) alloc_taken [OF Cons.prems(1) a] by auto
  moreover have "set js \<subseteq> {j. j < cap \<and> slot_free s j}"
  proof
    fix j assume "j \<in> set js"
    then have "j \<noteq> i" "j < cap" "slot_free s' j" using js(2) \<open>i \<notin> set js\<close> by auto
    then show "j \<in> {j. j < cap \<and> slot_free s j}"
      using alloc_frame [OF Cons.prems(1) a, of j] by simp
  qed
  ultimately show ?case
    using js(1,3) alloc_slot [OF Cons.prems(1) a] by (simp add: "is")
qed

lemma alloc_all_total:
  "inv s \<Longrightarrow> length ps \<le> free_count s \<Longrightarrow> \<exists>is t. alloc_all ps s = Some (is, t)"
proof (induction ps arbitrary: s)
  case Nil
  then show ?case by simp
next
  case (Cons p ps)
  then have "{i. i < cap \<and> slot_free s i} \<noteq> {}"
    by (auto simp: free_count_def simp del: Collect_empty_eq)
  then obtain i s' where a: "alloc p s = Some (i, s')"
    using alloc_None_iff [OF Cons.prems(1), of p] by (cases "alloc p s") auto
  have "length ps \<le> free_count s'"
    using alloc_count [OF Cons.prems(1) a] Cons.prems(2) by simp
  then obtain "is" t where "alloc_all ps s' = Some (is, t)"
    using Cons.IH [OF alloc_inv [OF Cons.prems(1) a]] by blast
  then show ?case using a by simp
qed

end

subsection \<open>Bump allocation\<close>

text \<open>
  The contract of the two storage arenas (\<^verbatim>\<open>kalloc\<close> and \<^verbatim>\<open>alloc_storage\<close>): a request the
  arithmetic can represent (\<open>sane\<close>) is served at the current offset, which then moves past the
  block. Blocks handed out at different times never overlap.
\<close>

locale bump_allocator =
  fixes off :: "'s \<Rightarrow> nat"
    and limit :: nat
    and sane :: "nat \<Rightarrow> bool"
    and inv :: "'s \<Rightarrow> bool"
    and alloc :: "nat \<Rightarrow> 's \<Rightarrow> (nat \<times> 's) option"
  assumes off_limit: "inv s \<Longrightarrow> off s \<le> limit"
    and alloc_at: "inv s \<Longrightarrow> sane n \<Longrightarrow> alloc n s = Some (a, s') \<Longrightarrow> a = off s \<and> a + n \<le> off s'"
    and alloc_inv: "inv s \<Longrightarrow> sane n \<Longrightarrow> alloc n s = Some (a, s') \<Longrightarrow> inv s'"
begin

inductive grows :: "'s \<Rightarrow> 's \<Rightarrow> bool" where
  refl: "grows s s"
| alloc: "grows s t \<Longrightarrow> inv t \<Longrightarrow> sane n \<Longrightarrow> alloc n t = Some (a, u) \<Longrightarrow> grows s u"

lemma grows_off: "grows s t \<Longrightarrow> off s \<le> off t"
  by (induction rule: grows.induct) (auto dest: alloc_at)

lemma block_in_arena:
  assumes "inv s" and "sane n" and "alloc n s = Some (a, s')"
  shows "off s \<le> a" and "a + n \<le> limit"
  using alloc_at [OF assms] off_limit [OF alloc_inv [OF assms]] by auto

lemma blocks_disjoint:
  assumes "inv s" and "sane n" and "alloc n s = Some (a, s')"
    and "grows s' t" and "inv t" and "sane m" and "alloc m t = Some (b, t')"
  shows "{a ..< a + n} \<inter> {b ..< b + m} = {}"
  using alloc_at [OF assms(1-3)] alloc_at [OF assms(5-7)] grows_off [OF assms(4)] by auto

end

subsection \<open>Bounded queues\<close>

text \<open>
  The contract of the console input ring: a queue that silently drops what does not fit.
\<close>

locale bounded_queue =
  fixes enq :: "'a \<Rightarrow> 'q \<Rightarrow> 'q"
    and deq :: "'q \<Rightarrow> ('a \<times> 'q) option"
    and contents :: "'q \<Rightarrow> 'a list"
    and cap :: nat
    and inv :: "'q \<Rightarrow> bool"
  assumes contents_cap: "inv q \<Longrightarrow> length (contents q) \<le> cap"
    and contents_enq: "inv q \<Longrightarrow>
      contents (enq x q) = (if length (contents q) < cap then contents q @ [x] else contents q)"
    and deq_None_iff: "inv q \<Longrightarrow> deq q = None \<longleftrightarrow> contents q = []"
    and deq_Some: "inv q \<Longrightarrow> deq q = Some (x, q') \<Longrightarrow> contents q = x # contents q'"
    and enq_inv: "inv q \<Longrightarrow> inv (enq x q)"
    and deq_inv: "inv q \<Longrightarrow> deq q = Some (x, q') \<Longrightarrow> inv q'"
begin

fun drain :: "nat \<Rightarrow> 'q \<Rightarrow> 'a list \<times> 'q" where
  "drain 0 q = ([], q)"
| "drain (Suc n) q =
     (case deq q of None \<Rightarrow> ([], q)
      | Some (x, q') \<Rightarrow> (case drain n q' of (xs, q'') \<Rightarrow> (x # xs, q'')))"

lemma fold_enq:
  "inv q \<Longrightarrow> inv (fold enq xs q) \<and> contents (fold enq xs q) = take cap (contents q @ xs)"
proof (induction xs arbitrary: q)
  case Nil
  then show ?case using contents_cap by simp
next
  case (Cons x xs)
  have "take cap (contents (enq x q) @ xs) = take cap (contents q @ x # xs)"
    using contents_cap [OF Cons.prems] contents_enq [OF Cons.prems, of x]
    by (auto simp: take_Cons')
  then show ?case using Cons.IH [OF enq_inv [OF Cons.prems]] by simp
qed

lemma drain_contents:
  "inv q \<Longrightarrow> fst (drain n q) = take n (contents q) \<and>
    contents (snd (drain n q)) = drop n (contents q) \<and> inv (snd (drain n q))"
proof (induction n arbitrary: q)
  case 0
  then show ?case by simp
next
  case (Suc n)
  show ?case
  proof (cases "deq q")
    case None
    then have "contents q = []" using deq_None_iff [OF Suc.prems] by simp
    then show ?thesis using None Suc.prems by simp
  next
    case (Some p)
    obtain x q' where p: "p = (x, q')" by (cases p)
    then show ?thesis
      using Some Suc.IH [OF deq_inv] deq_Some [OF Suc.prems] Suc.prems
      by (auto simp: split_beta)
  qed
qed

end

end
