(* ===== verification/Kstring.thy ===== *)
theory Kstring
  imports Prelude
begin

text \<open>
  Model of \<^verbatim>\<open>src/kernel/string.c\<close>. A \<^verbatim>\<open>const char *\<close> argument is the list of its characters; the
  byte after the list is the terminator, and a \<^verbatim>\<open>NUL\<close> inside the list ends the string as it does
  in C. A destination array is a list of its cells; an operation that would write outside the array
  returns \<open>None\<close>. The memory operations \<^verbatim>\<open>kmemcpy\<close>, \<^verbatim>\<open>kmemmove\<close> and \<^verbatim>\<open>kmemset\<close> work on a flat memory,
  a function from addresses to bytes, so that overlapping operands are visible. A \<^verbatim>\<open>va_list\<close> is the
  list of the values passed; reading more arguments than were passed, or reading one at the wrong
  type, is \<open>None\<close>.
\<close>

abbreviation NUL :: char where "NUL \<equiv> CHR 0x00"

subsection \<open>Strings\<close>

fun kstrlen :: "string \<Rightarrow> nat" where
  "kstrlen [] = 0"
| "kstrlen (c # s) = (if c = NUL then 0 else Suc (kstrlen s))"

definition char_at :: "string \<Rightarrow> char" where
  "char_at s = (case s of [] \<Rightarrow> NUL | c # _ \<Rightarrow> c)"

definition uchar :: "char \<Rightarrow> int" where
  "uchar c = int (of_char c :: nat)"

function kstrcmp :: "string \<Rightarrow> string \<Rightarrow> int" where
  "kstrcmp lhs rhs =
     (if char_at lhs \<noteq> NUL \<and> char_at lhs = char_at rhs then kstrcmp (tl lhs) (tl rhs)
      else uchar (char_at lhs) - uchar (char_at rhs))"
  by pat_completeness auto
termination
  by (relation "measure (length \<circ> fst)") (auto simp: char_at_def split: list.splits)

declare kstrcmp.simps [simp del]

fun kstrncmp :: "string \<Rightarrow> string \<Rightarrow> nat \<Rightarrow> int" where
  "kstrncmp lhs rhs 0 = 0"
| "kstrncmp lhs rhs (Suc count) =
     (let a = char_at lhs; b = char_at rhs
      in if a \<noteq> b \<or> a = NUL \<or> b = NUL then uchar a - uchar b
         else kstrncmp (tl lhs) (tl rhs) count)"

fun kstrcpy :: "char list \<Rightarrow> string \<Rightarrow> char list option" where
  "kstrcpy [] src = None"
| "kstrcpy (d # dst) src =
     (if char_at src = NUL then Some (NUL # dst)
      else map_option ((#) (char_at src)) (kstrcpy dst (tl src)))"

fun kstrncpy_fill :: "char list \<Rightarrow> nat \<Rightarrow> char list option" where
  "kstrncpy_fill dst 0 = Some dst"
| "kstrncpy_fill [] (Suc count) = None"
| "kstrncpy_fill (d # dst) (Suc count) = map_option ((#) NUL) (kstrncpy_fill dst count)"

fun kstrncpy :: "char list \<Rightarrow> string \<Rightarrow> nat \<Rightarrow> char list option" where
  "kstrncpy dst src 0 = Some dst"
| "kstrncpy [] src (Suc count) = None"
| "kstrncpy (d # dst) src (Suc count) =
     (if char_at src = NUL then kstrncpy_fill (d # dst) (Suc count)
      else map_option ((#) (char_at src)) (kstrncpy dst (tl src) count))"

text \<open>The characters an array holds up to its terminator.\<close>

definition cstr :: "char list \<Rightarrow> string" where
  "cstr buf = takeWhile (\<lambda>c. c \<noteq> NUL) buf"

subsection \<open>Memory\<close>

type_synonym memory = "nat \<Rightarrow> u8"

fun copy_up :: "nat \<Rightarrow> nat \<Rightarrow> nat \<Rightarrow> nat \<Rightarrow> memory \<Rightarrow> memory" where
  "copy_up dst src i 0 m = m"
| "copy_up dst src i (Suc n) m = copy_up dst src (Suc i) n (m(dst + i := m (src + i)))"

fun copy_down :: "nat \<Rightarrow> nat \<Rightarrow> nat \<Rightarrow> memory \<Rightarrow> memory" where
  "copy_down dst src 0 m = m"
| "copy_down dst src (Suc i) m = copy_down dst src i (m(dst + i := m (src + i)))"

definition kmemcpy :: "nat \<Rightarrow> nat \<Rightarrow> nat \<Rightarrow> memory \<Rightarrow> memory" where
  "kmemcpy dst src sz m = copy_up dst src 0 sz m"

definition kmemmove :: "nat \<Rightarrow> nat \<Rightarrow> nat \<Rightarrow> memory \<Rightarrow> memory" where
  "kmemmove dst src sz m =
     (if dst < src then copy_up dst src 0 sz m
      else if dst > src then copy_down dst src sz m
      else m)"

fun set_up :: "nat \<Rightarrow> u8 \<Rightarrow> nat \<Rightarrow> nat \<Rightarrow> memory \<Rightarrow> memory" where
  "set_up dst v i 0 m = m"
| "set_up dst v i (Suc n) m = set_up dst v (Suc i) n (m(dst + i := v))"

definition kmemset :: "nat \<Rightarrow> int \<Rightarrow> nat \<Rightarrow> memory \<Rightarrow> memory" where
  "kmemset dst value sz m = set_up dst (word_of_int value) 0 sz m"

fun kmemcmp :: "u8 list \<Rightarrow> u8 list \<Rightarrow> nat \<Rightarrow> int" where
  "kmemcmp (a # lhs) (b # rhs) (Suc sz) =
     (if a \<noteq> b then uint a - uint b else kmemcmp lhs rhs sz)"
| "kmemcmp lhs rhs sz = 0"

subsection \<open>Formatted output\<close>

text \<open>
  An output position is the array and the running index \<^verbatim>\<open>*index\<close>, which counts every character,
  written or not.
\<close>

type_synonym out = "char list \<times> nat"

definition append_char :: "nat \<Rightarrow> char \<Rightarrow> out \<Rightarrow> out" where
  "append_char sz c st =
     (case st of (buffer, index) \<Rightarrow>
       (if index + 1 < sz then buffer[index := c] else buffer, index + 1))"

fun append_string_loop :: "nat \<Rightarrow> string \<Rightarrow> out \<Rightarrow> out" where
  "append_string_loop sz [] st = st"
| "append_string_loop sz (c # s) st =
     (if c = NUL then st else append_string_loop sz s (append_char sz c st))"

definition append_string :: "nat \<Rightarrow> string option \<Rightarrow> out \<Rightarrow> out" where
  "append_string sz s st =
     append_string_loop sz (case s of None \<Rightarrow> ''(null)'' | Some t \<Rightarrow> t) st"

definition digit_table :: "bool \<Rightarrow> string" where
  "digit_table uppercase = (if uppercase then ''0123456789ABCDEF'' else ''0123456789abcdef'')"

text \<open>
  The digits in the order the loop stores them into \<^verbatim>\<open>temp\<close>, least significant first. The bases
  in use are 10 and 16; for a base below 2 the C loop would divide by zero or never end.
\<close>

function temp_digits :: "u64 \<Rightarrow> nat \<Rightarrow> bool \<Rightarrow> string" where
  "temp_digits value base uppercase =
     (if unat value = 0 \<or> base < 2 then []
      else digit_table uppercase ! (unat value mod base)
           # temp_digits (of_nat (unat value div base)) base uppercase)"
  by pat_completeness auto
termination
proof (relation "measure (\<lambda>(value, base, uppercase). unat value)", goal_cases)
  case 1
  show ?case by simp
next
  case (2 v base uppercase)
  have "unat v div base < unat v" using 2 by (simp add: div_less_dividend)
  moreover have "unat (of_nat (unat v div base) :: u64) \<le> unat v div base"
    by (simp add: unat_of_nat)
  ultimately show ?case by simp
qed

declare temp_digits.simps [simp del]

fun append_digits :: "nat \<Rightarrow> string \<Rightarrow> out \<Rightarrow> out" where
  "append_digits sz [] st = st"
| "append_digits sz (c # cs) st = append_digits sz cs (append_char sz c st)"

definition append_unsigned :: "nat \<Rightarrow> u64 \<Rightarrow> nat \<Rightarrow> bool \<Rightarrow> out \<Rightarrow> out" where
  "append_unsigned sz value base uppercase st =
     (if value = 0 then append_char sz CHR ''0'' st
      else append_digits sz (rev (temp_digits value base uppercase)) st)"

datatype varg = VInt u64 | VStr "string option"

fun kvsnprintf_loop :: "nat \<Rightarrow> string \<Rightarrow> varg list \<Rightarrow> out \<Rightarrow> out option" where
  "kvsnprintf_loop sz [] args st = Some st"
| "kvsnprintf_loop sz (c # p) args st =
     (if c \<noteq> CHR ''%'' then kvsnprintf_loop sz p args (append_char sz c st)
      else case p of
        [] \<Rightarrow> None
      | d # p' \<Rightarrow>
        (if d = CHR ''%'' then kvsnprintf_loop sz p' args (append_char sz CHR ''%'' st)
         else if d = CHR ''c'' then
           (case args of VInt v # args' \<Rightarrow>
              kvsnprintf_loop sz p' args' (append_char sz (char_of (unat v)) st) | _ \<Rightarrow> None)
         else if d = CHR ''s'' then
           (case args of VStr s # args' \<Rightarrow>
              kvsnprintf_loop sz p' args' (append_string sz s st) | _ \<Rightarrow> None)
         else if d = CHR ''d'' \<or> d = CHR ''i'' then
           (case args of VInt v # args' \<Rightarrow>
              kvsnprintf_loop sz p' args'
                (if sint v < 0
                 then append_unsigned sz (- v) 10 False (append_char sz CHR ''-'' st)
                 else append_unsigned sz v 10 False st) | _ \<Rightarrow> None)
         else if d = CHR ''u'' then
           (case args of VInt v # args' \<Rightarrow>
              kvsnprintf_loop sz p' args' (append_unsigned sz v 10 False st) | _ \<Rightarrow> None)
         else if d = CHR ''x'' then
           (case args of VInt v # args' \<Rightarrow>
              kvsnprintf_loop sz p' args' (append_unsigned sz v 16 False st) | _ \<Rightarrow> None)
         else if d = CHR ''X'' then
           (case args of VInt v # args' \<Rightarrow>
              kvsnprintf_loop sz p' args' (append_unsigned sz v 16 True st) | _ \<Rightarrow> None)
         else if d = CHR ''p'' then
           (case args of VInt v # args' \<Rightarrow>
              kvsnprintf_loop sz p' args'
                (append_unsigned sz v 16 False (append_string sz (Some ''0x'') st)) | _ \<Rightarrow> None)
         else kvsnprintf_loop sz p' args (append_char sz d (append_char sz CHR ''%'' st))))"

definition finish :: "nat \<Rightarrow> out \<Rightarrow> char list \<times> nat" where
  "finish sz st =
     (case st of (buffer, index) \<Rightarrow>
       (buffer[(if index < sz then index else sz - 1) := NUL], index))"

definition kvsnprintf :: "char list \<Rightarrow> nat \<Rightarrow> string \<Rightarrow> varg list \<Rightarrow> (char list \<times> nat) option" where
  "kvsnprintf buffer sz fmt args =
     (if sz = 0 then Some (buffer, 0)
      else map_option (finish sz) (kvsnprintf_loop sz fmt args (buffer, 0)))"

fun kvformat_braces_loop :: "nat \<Rightarrow> string \<Rightarrow> varg list \<Rightarrow> out \<Rightarrow> out option" where
  "kvformat_braces_loop sz [] args st = Some st"
| "kvformat_braces_loop sz (c # p) args st =
     (if c = CHR ''{'' \<and> char_at p = CHR ''{'' then
        kvformat_braces_loop sz (drop 1 p) args (append_char sz CHR ''{'' st)
      else if c = CHR ''}'' \<and> char_at p = CHR ''}'' then
        kvformat_braces_loop sz (drop 1 p) args (append_char sz CHR ''}'' st)
      else if c = CHR ''{'' \<and> char_at p = CHR ''}'' then
        (case args of
           VStr arg # args' \<Rightarrow>
             kvformat_braces_loop sz (drop 1 p) args'
               (case arg of
                  Some s \<Rightarrow> append_string sz (Some s) st
                | None \<Rightarrow> append_char sz CHR ''}'' (append_char sz CHR ''{'' st))
         | _ \<Rightarrow> None)
      else kvformat_braces_loop sz p args (append_char sz c st))"

definition kvformat_braces :: "char list \<Rightarrow> nat \<Rightarrow> string \<Rightarrow> varg list \<Rightarrow> (char list \<times> nat) option" where
  "kvformat_braces buffer sz pattern args =
     (if sz = 0 then Some (buffer, 0)
      else map_option (finish sz) (kvformat_braces_loop sz pattern args (buffer, 0)))"

subsection \<open>Reference definitions\<close>

text \<open>
  What the formatting routines are meant to produce: the whole text of a format with its
  arguments, independent of any buffer.
\<close>

definition utext :: "u64 \<Rightarrow> nat \<Rightarrow> bool \<Rightarrow> string" where
  "utext v base uppercase = (if v = 0 then ''0'' else rev (temp_digits v base uppercase))"

definition stext :: "string option \<Rightarrow> string" where
  "stext s = cstr (case s of None \<Rightarrow> ''(null)'' | Some t \<Rightarrow> t)"

definition itext :: "u64 \<Rightarrow> string" where
  "itext v = (if sint v < 0 then CHR ''-'' # utext (- v) 10 False else utext v 10 False)"

fun conv_text :: "char \<Rightarrow> varg list \<Rightarrow> (string \<times> varg list) option" where
  "conv_text d args =
     (if d = CHR ''s'' then
        (case args of VStr s # args' \<Rightarrow> Some (stext s, args') | _ \<Rightarrow> None)
      else if d \<in> set ''cdiuxXp'' then
        (case args of
           VInt v # args' \<Rightarrow>
             Some (if d = CHR ''c'' then [char_of (unat v)]
                   else if d = CHR ''d'' \<or> d = CHR ''i'' then itext v
                   else if d = CHR ''u'' then utext v 10 False
                   else if d = CHR ''x'' then utext v 16 False
                   else if d = CHR ''X'' then utext v 16 True
                   else ''0x'' @ utext v 16 False, args')
         | _ \<Rightarrow> None)
      else Some (if d = CHR ''%'' then ''%'' else [CHR ''%'', d], args))"

fun printf_text :: "string \<Rightarrow> varg list \<Rightarrow> string option" where
  "printf_text [] args = Some []"
| "printf_text (c # p) args =
     (if c \<noteq> CHR ''%'' then map_option ((#) c) (printf_text p args)
      else case p of
        [] \<Rightarrow> None
      | d # p' \<Rightarrow>
          (case conv_text d args of None \<Rightarrow> None
           | Some (t, args') \<Rightarrow> map_option ((@) t) (printf_text p' args')))"

definition emit :: "nat \<Rightarrow> string \<Rightarrow> out \<Rightarrow> out" where
  "emit sz t st = fold (append_char sz) t st"

subsection \<open>Strings: lemmas\<close>

lemma uchar_eq_iff [simp]: "uchar a = uchar b \<longleftrightarrow> a = b"
  by (simp add: uchar_def)

lemma cstr_simps [simp]:
  "cstr [] = []" "cstr (c # s) = (if c = NUL then [] else c # cstr s)"
  by (simp_all add: cstr_def)

lemma cstr_id: "NUL \<notin> set s \<Longrightarrow> cstr s = s"
  by (induction s) auto

lemma cstr_append_NUL [simp]: "NUL \<notin> set s \<Longrightarrow> cstr (s @ NUL # t) = s"
  by (induction s) auto

lemma NUL_notin_cstr [simp]: "NUL \<notin> set (cstr s)"
  by (induction s) auto

lemma kstrlen_cstr: "kstrlen s = length (cstr s)"
  by (induction s) auto

lemma char_at_NUL_iff: "char_at s = NUL \<longleftrightarrow> cstr s = []"
  by (cases s) (auto simp: char_at_def)

lemma cstr_cons: "char_at s \<noteq> NUL \<Longrightarrow> cstr s = char_at s # cstr (tl s)"
  by (cases s) (auto simp: char_at_def)

lemma kstrcmp_zero_iff: "kstrcmp s t = 0 \<longleftrightarrow> cstr s = cstr t"
proof (induction s t rule: kstrcmp.induct)
  case (1 s t)
  show ?case
  proof (cases "char_at s \<noteq> NUL \<and> char_at s = char_at t")
    case True
    then have "cstr s = char_at s # cstr (tl s)" "cstr t = char_at s # cstr (tl t)"
      using cstr_cons [of s] cstr_cons [of t] by auto
    then show ?thesis using True "1.IH" by (auto simp add: kstrcmp.simps [of s t])
  next
    case False
    have "cstr s \<noteq> cstr t" if ne: "char_at s \<noteq> char_at t"
      using ne cstr_cons [of s] cstr_cons [of t] char_at_NUL_iff [of s] char_at_NUL_iff [of t]
      by (metis list.inject)
    moreover have "cstr s = cstr t" if "char_at s = char_at t"
      using that False char_at_NUL_iff by metis
    ultimately show ?thesis using False by (subst kstrcmp.simps) auto
  qed
qed

lemma kstrcpy_eq:
  "kstrcpy dst src =
     (if kstrlen src < length dst then Some (cstr src @ NUL # drop (Suc (kstrlen src)) dst)
      else None)"
proof (induction dst src rule: kstrcpy.induct)
  case (1 src)
  then show ?case by simp
next
  case (2 d dst src)
  then show ?case
    by (cases "char_at src = NUL")
      (auto simp: kstrlen_cstr char_at_NUL_iff cstr_cons)
qed

lemma kstrncpy_fill_eq:
  "count \<le> length dst \<Longrightarrow> kstrncpy_fill dst count = Some (replicate count NUL @ drop count dst)"
  by (induction dst count rule: kstrncpy_fill.induct) auto

lemma kstrncpy_eq:
  "count \<le> length dst \<Longrightarrow>
    kstrncpy dst src count = Some (take count (cstr src @ replicate count NUL) @ drop count dst)"
proof (induction dst src count rule: kstrncpy.induct)
  case (3 d dst src count)
  then show ?case
    by (cases "char_at src = NUL")
      (auto simp: kstrncpy_fill_eq char_at_NUL_iff cstr_cons take_replicate
        simp flip: replicate_append_same)
qed auto

subsection \<open>Memory: lemmas\<close>

lemma copy_up_apply:
  "dst < src \<or> src + i + n \<le> dst + i \<Longrightarrow>
    copy_up dst src i n m a =
      (if dst + i \<le> a \<and> a < dst + i + n then m (src + (a - dst)) else m a)"
proof (induction n arbitrary: i m)
  case 0
  then show ?case by auto
next
  case (Suc n)
  have IH: "copy_up dst src (Suc i) n (m(dst + i := m (src + i))) a =
      (if dst + Suc i \<le> a \<and> a < dst + Suc i + n
       then (m(dst + i := m (src + i))) (src + (a - dst)) else (m(dst + i := m (src + i))) a)"
    using Suc.prems by (intro Suc.IH) auto
  have "src + (a - dst) \<noteq> dst + i" if "dst + Suc i \<le> a" "a < dst + Suc i + n"
    using Suc.prems that by auto
  moreover have "src + (a - dst) = src + i" if "a = dst + i"
    using that by simp
  ultimately show ?case by (simp only: copy_up.simps IH) auto
qed

lemma copy_down_apply:
  "src < dst \<Longrightarrow>
    copy_down dst src n m a = (if dst \<le> a \<and> a < dst + n then m (src + (a - dst)) else m a)"
proof (induction n arbitrary: m)
  case 0
  then show ?case by auto
next
  case (Suc n)
  have "src + (a - dst) \<noteq> dst + n" if "dst \<le> a" "a < dst + n" using Suc.prems that by auto
  then show ?case by (simp only: copy_down.simps Suc.IH [OF Suc.prems]) (auto simp: less_Suc_eq)
qed

lemma set_up_apply:
  "set_up dst v i n m a = (if dst + i \<le> a \<and> a < dst + i + n then v else m a)"
proof (induction n arbitrary: i m)
  case (Suc n)
  then show ?case by (simp only: set_up.simps Suc.IH) auto
qed auto

subsection \<open>Formatting: lemmas\<close>

lemma emit_simps [simp]:
  "emit sz [] st = st"
  "emit sz (c # t) st = emit sz t (append_char sz c st)"
  by (simp_all add: emit_def)

lemma emit_append: "emit sz (s @ t) st = emit sz t (emit sz s st)"
  by (simp add: emit_def)

lemma append_string_loop_emit: "append_string_loop sz s st = emit sz (cstr s) st"
  by (induction sz s st rule: append_string_loop.induct) auto

lemma append_string_emit: "append_string sz s st = emit sz (stext s) st"
  by (simp add: append_string_def stext_def append_string_loop_emit)

lemma append_digits_emit: "append_digits sz t st = emit sz t st"
  by (induction sz t st rule: append_digits.induct) auto

lemma append_unsigned_emit: "append_unsigned sz v base up st = emit sz (utext v base up) st"
  by (simp add: append_unsigned_def utext_def append_digits_emit)

lemma stext_0x [simp]: "stext (Some ''0x'') = ''0x''"
  by (simp add: stext_def)

lemmas append_emit = append_string_emit append_unsigned_emit

lemma emit_buffer:
  assumes "sz \<le> length buf" and "0 < sz"
  shows "emit sz t (buf, 0) =
    (take (sz - 1) t @ drop (min (sz - 1) (length t)) buf, length t)"
proof (induction t rule: rev_induct)
  case Nil
  then show ?case by simp
next
  case (snoc c t)
  have e: "emit sz (t @ [c]) (buf, 0) =
      append_char sz c (take (sz - 1) t @ drop (min (sz - 1) (length t)) buf, length t)"
    by (simp add: emit_append snoc)
  show ?case
  proof (cases "length t + 1 < sz")
    case True
    then have "drop (length t) buf = buf ! length t # drop (Suc (length t)) buf"
      using assms by (simp add: Cons_nth_drop_Suc)
    then have "(t @ drop (length t) buf)[length t := c] = t @ c # drop (Suc (length t)) buf"
      by (simp add: list_update_append)
    moreover have "min (sz - 1) (length t) = length t" "min (sz - 1) (Suc (length t)) = Suc (length t)"
      using True by auto
    ultimately show ?thesis using True by (simp add: e append_char_def)
  next
    case False
    then show ?thesis by (auto simp: e append_char_def min_def not_less)
  qed
qed

lemma kvsnprintf_loop_emit:
  "kvsnprintf_loop sz p args st = map_option (\<lambda>t. emit sz t st) (printf_text p args)"
proof (induction sz p args st rule: kvsnprintf_loop.induct)
  case (1 sz args st)
  then show ?case by simp
next
  case (2 sz c p args st)
  show ?case
  proof (cases "c = CHR ''%''")
    case False
    with "2.IH"(1) show ?thesis by (simp add: option.map_comp comp_def)
  next
    case pct: True
    show ?thesis
    proof (cases p)
      case Nil
      with pct show ?thesis by simp
    next
      case (Cons d p')
      note IH = "2.IH"(2-)[OF _ Cons] 
      show ?thesis
        using IH pct Cons
        by (auto simp: append_emit emit_append itext_def option.map_comp comp_def
            split: list.splits varg.splits option.splits)
    qed
  qed
qed

lemma finish_emit:
  assumes "sz \<le> length buf" and "0 < sz"
  shows "finish sz (emit sz t (buf, 0)) =
    (take (sz - 1) t @ NUL # drop (Suc (min (sz - 1) (length t))) buf, length t)"
proof -
  let ?k = "min (sz - 1) (length t)"
  have "(if length t < sz then length t else sz - 1) = length (take (sz - 1) t)"
    using assms by auto
  moreover have "drop ?k buf = buf ! ?k # drop (Suc ?k) buf"
    using assms by (intro Cons_nth_drop_Suc [symmetric]) auto
  ultimately show ?thesis
    unfolding finish_def emit_buffer [OF assms] by (simp only: prod.case list_update_length)
qed

fun dec_value :: "string \<Rightarrow> nat" where
  "dec_value s = foldl (\<lambda>n c. 10 * n + (of_char c - 48)) 0 s"

lemma digit_table_nth:
  "d < 10 \<Longrightarrow> of_char (digit_table up ! d) = (48 + d :: nat)"
proof -
  assume "d < 10"
  then have "d \<in> set [0..<10]" by simp
  then show ?thesis by (auto simp: upt_conv_Cons digit_table_def)
qed

lemma unat_of_nat_div [simp]: "unat (of_nat (unat (v :: u64) div b) :: u64) = unat v div b"
  by (metis div_le_dividend le_unat_uoi)

lemma dec_value_temp_digits: "dec_value (rev (temp_digits v 10 up)) = unat v"
proof (induction v "10 :: nat" up rule: temp_digits.induct)
  case (1 v up)
  show ?case
  proof (cases "unat v = 0")
    case True
    then show ?thesis by (simp add: temp_digits.simps [of v])
  next
    case False
    with 1 have "dec_value (rev (temp_digits (of_nat (unat v div 10)) 10 up)) = unat v div 10"
      by simp
    with False show ?thesis
      by (simp add: temp_digits.simps [of v] digit_table_nth [of "unat v mod 10" up])
  qed
qed

lemma temp_digits_length:
  assumes "2 \<le> b" and "unat v < b ^ k"
  shows "length (temp_digits v b up) \<le> k"
  using assms(2)
proof (induction k arbitrary: v)
  case 0
  then show ?case by (simp add: temp_digits.simps [of v])
next
  case (Suc k)
  have "unat v div b < b ^ k"
    using Suc.prems assms(1) by (simp add: less_mult_imp_div_less mult.commute)
  then have "length (temp_digits (of_nat (unat v div b)) b up) \<le> k"
    by (intro Suc.IH) simp
  then show ?case by (simp add: temp_digits.simps [of v])
qed

subsection \<open>Properties\<close>



text \<open>
  \<^verbatim>\<open>kmemmove\<close> moves correctly however the two blocks overlap: every byte of the destination is
  the byte the source held before the call, and no other byte changes.
\<close>

lemma kmemmove_overlap:
  "kmemmove dst src n m a = (if dst \<le> a \<and> a < dst + n then m (src + (a - dst)) else m a)"
  by (auto simp: kmemmove_def copy_up_apply copy_down_apply)

text \<open>
  The digits of a 64-bit number in base 10 or 16 fit the 32-byte local array of
  \<^verbatim>\<open>append_unsigned\<close>, with room to spare, and the decimal digits read back as the number.
\<close>

lemma append_unsigned_digits:
  assumes "base = 10 \<or> base = 16"
  shows "length (temp_digits v base up) \<le> 20 \<and> dec_value (utext v 10 up) = unat v"
proof -
  have "unat v < 2 ^ 64" using unsigned_less [of v] by simp
  then have "unat v < base ^ 20" using assms by auto
  then show ?thesis
    using assms dec_value_temp_digits [of v up]
    by (auto simp: utext_def intro!: temp_digits_length)
qed

end
