(* ===== verification/Console.thy ===== *)
theory Console
  imports Kstring
begin

text \<open>
  Model of \<^verbatim>\<open>src/kernel/console.c\<close>: the scroll-back history, the viewport, colours and the input
  ring. The record keeps the file's static variables and what the code has sent to the devices: the
  sequence of \<^verbatim>\<open>io_out8\<close> port writes (serial port and CRT controller) and the VGA text memory. Row numbers and
  ring indices are natural numbers; the one subtraction that could wrap (\<^verbatim>\<open>g_view_start - min_start\<close>
  in \<^verbatim>\<open>console_scroll_view\<close>) is written out modulo \<open>2 ^ 64\<close>. The poll of the serial line status is a
  hardware matter: sending always succeeds, and what the port has received is an argument of
  \<^verbatim>\<open>console_try_read_char\<close>.
\<close>

subsection \<open>State\<close>

definition VGA_WIDTH :: nat where "VGA_WIDTH = 80"
definition VGA_HEIGHT :: nat where "VGA_HEIGHT = 25"
definition CONSOLE_INPUT_CAPACITY :: nat where "CONSOLE_INPUT_CAPACITY = 128"
definition CONSOLE_HISTORY_LINES :: nat where "CONSOLE_HISTORY_LINES = 512"

lemmas console_consts =
  VGA_WIDTH_def VGA_HEIGHT_def CONSOLE_INPUT_CAPACITY_def CONSOLE_HISTORY_LINES_def

record rgb_color =
  rgb_r :: u8
  rgb_g :: u8
  rgb_b :: u8

definition mk_rgb :: "u8 \<Rightarrow> u8 \<Rightarrow> u8 \<Rightarrow> rgb_color" where
  "mk_rgb r g b = \<lparr>rgb_r = r, rgb_g = g, rgb_b = b\<rparr>"

definition k_vga_palette :: "rgb_color list" where
  "k_vga_palette =
    [mk_rgb 0x00 0x00 0x00, mk_rgb 0x00 0x00 0xAA, mk_rgb 0x00 0xAA 0x00, mk_rgb 0x00 0xAA 0xAA,
     mk_rgb 0xAA 0x00 0x00, mk_rgb 0xAA 0x00 0xAA, mk_rgb 0xAA 0x55 0x00, mk_rgb 0xAA 0xAA 0xAA,
     mk_rgb 0x55 0x55 0x55, mk_rgb 0x55 0x55 0xFF, mk_rgb 0x55 0xFF 0x55, mk_rgb 0x55 0xFF 0xFF,
     mk_rgb 0xFF 0x55 0x55, mk_rgb 0xFF 0x55 0xFF, mk_rgb 0xFF 0xFF 0x55, mk_rgb 0xFF 0xFF 0xFF]"

record console =
  g_history :: "nat \<Rightarrow> nat \<Rightarrow> u16"
  g_abs_row :: nat
  g_col :: nat
  g_view_start :: nat
  g_follow_tail :: bool
  g_attr :: u8
  g_fg :: rgb_color
  g_bg :: rgb_color
  g_input_buffer :: "char list"
  g_input_read_index :: nat
  g_input_write_index :: nat
  vga_memory :: "nat \<Rightarrow> u16"
  port_writes :: "(u16 \<times> u8) list"

subsection \<open>Input ring\<close>

definition input_buffer_is_empty :: "console \<Rightarrow> bool" where
  "input_buffer_is_empty c \<longleftrightarrow> g_input_read_index c = g_input_write_index c"

definition input_buffer_is_full :: "console \<Rightarrow> bool" where
  "input_buffer_is_full c \<longleftrightarrow>
     (g_input_write_index c + 1) mod CONSOLE_INPUT_CAPACITY = g_input_read_index c"

definition input_buffer_pop :: "console \<Rightarrow> (char \<times> console) option" where
  "input_buffer_pop c =
     (if input_buffer_is_empty c then None
      else Some (g_input_buffer c ! g_input_read_index c,
                 c\<lparr>g_input_read_index := (g_input_read_index c + 1) mod CONSOLE_INPUT_CAPACITY\<rparr>))"

definition console_enqueue_input :: "char \<Rightarrow> console \<Rightarrow> console" where
  "console_enqueue_input ch c =
     (if input_buffer_is_full c then c
      else c\<lparr>g_input_buffer := (g_input_buffer c)[g_input_write_index c := ch],
             g_input_write_index := (g_input_write_index c + 1) mod CONSOLE_INPUT_CAPACITY\<rparr>)"

text \<open>
  \<open>rx\<close> is the byte waiting in the serial port, if the line status says there is one.
\<close>

definition console_try_read_char :: "char option \<Rightarrow> console \<Rightarrow> (char option \<times> console)" where
  "console_try_read_char rx c =
     (let c1 = (case rx of None \<Rightarrow> c | Some b \<Rightarrow> console_enqueue_input b c)
      in case input_buffer_pop c1 of None \<Rightarrow> (None, c1) | Some (ch, c2) \<Rightarrow> (Some ch, c2))"

subsection \<open>Serial port\<close>

definition io_out8 :: "u16 \<Rightarrow> u8 \<Rightarrow> console \<Rightarrow> console" where
  "io_out8 port v c = c\<lparr>port_writes := port_writes c @ [(port, v)]\<rparr>"

definition SERIAL_PORT :: u16 where "SERIAL_PORT = 0x3F8"

definition serial_init :: "console \<Rightarrow> console" where
  "serial_init c =
     fold (\<lambda>(offset, v). io_out8 (SERIAL_PORT + offset) v)
       [(1, 0x00), (3, 0x80), (0, 0x03), (1, 0x00), (3, 0x03), (2, 0xC7), (4, 0x0B)] c"

definition serial_putc :: "char \<Rightarrow> console \<Rightarrow> console" where
  "serial_putc ch c = io_out8 SERIAL_PORT (of_char ch) c"

definition serial_write :: "string \<Rightarrow> console \<Rightarrow> console" where
  "serial_write s c = fold serial_putc (cstr s) c"

subsection \<open>History and viewport\<close>

definition history_min_abs_row :: "console \<Rightarrow> nat" where
  "history_min_abs_row c =
     (if g_abs_row c + 1 > CONSOLE_HISTORY_LINES then g_abs_row c + 1 - CONSOLE_HISTORY_LINES else 0)"

definition viewport_max_start :: "console \<Rightarrow> nat" where
  "viewport_max_start c =
     (if g_abs_row c \<ge> VGA_HEIGHT - 1 then g_abs_row c - (VGA_HEIGHT - 1) else 0)"

definition mk_cell :: "u8 \<Rightarrow> char \<Rightarrow> u16" where
  "mk_cell attr ch = push_bit 8 (ucast attr) OR of_char ch"

definition set_cell :: "nat \<Rightarrow> nat \<Rightarrow> u16 \<Rightarrow> console \<Rightarrow> console" where
  "set_cell abs_row col v c =
     (let slot = abs_row mod CONSOLE_HISTORY_LINES
      in c\<lparr>g_history := (g_history c)(slot := (g_history c slot)(col := v))\<rparr>)"

definition history_clear_row :: "nat \<Rightarrow> console \<Rightarrow> console" where
  "history_clear_row abs_row c =
     fold (\<lambda>col. set_cell abs_row col (mk_cell (g_attr c) CHR '' '')) [0..<VGA_WIDTH] c"

definition dist2 :: "rgb_color \<Rightarrow> rgb_color \<Rightarrow> u32" where
  "dist2 a b =
     (let dr = uint (rgb_r a) - uint (rgb_r b);
          dg = uint (rgb_g a) - uint (rgb_g b);
          db = uint (rgb_b a) - uint (rgb_b b)
      in word_of_int (dr * dr + dg * dg + db * db))"

fun nearest_loop :: "rgb_color \<Rightarrow> u8 \<Rightarrow> rgb_color list \<Rightarrow> u8 \<Rightarrow> u32 \<Rightarrow> u8" where
  "nearest_loop c i [] best best_dist = best"
| "nearest_loop c i (p # ps) best best_dist =
     (if dist2 c p < best_dist then nearest_loop c (i + 1) ps i (dist2 c p)
      else nearest_loop c (i + 1) ps best best_dist)"

definition color_nearest_vga_index :: "rgb_color \<Rightarrow> u8" where
  "color_nearest_vga_index c = nearest_loop c 0 k_vga_palette 0 0xFFFFFFFF"

definition console_update_attr :: "console \<Rightarrow> console" where
  "console_update_attr c =
     c\<lparr>g_attr := push_bit 4 (color_nearest_vga_index (g_bg c)) OR color_nearest_vga_index (g_fg c)\<rparr>"

definition vint8 :: "u8 \<Rightarrow> varg" where
  "vint8 b = VInt (ucast b)"

definition ansi_fmt :: string where
  "ansi_fmt = [CHR 0x1B] @ ''[38;2;%u;%u;%um'' @ [CHR 0x1B] @ ''[48;2;%u;%u;%um''"

text \<open>A local \<^verbatim>\<open>char buffer[n]\<close>; its initial contents are never read.\<close>

definition local_buffer :: "nat \<Rightarrow> char list" where
  "local_buffer n = replicate n NUL"

definition serial_emit_ansi_color :: "console \<Rightarrow> console" where
  "serial_emit_ansi_color c =
     (case kvsnprintf (local_buffer 96) 96 ansi_fmt
        [vint8 (rgb_r (g_fg c)), vint8 (rgb_g (g_fg c)), vint8 (rgb_b (g_fg c)),
         vint8 (rgb_r (g_bg c)), vint8 (rgb_g (g_bg c)), vint8 (rgb_b (g_bg c))] of
        None \<Rightarrow> c
      | Some (buffer, _) \<Rightarrow> serial_write buffer c)"

definition vga_update_hw_cursor :: "console \<Rightarrow> console" where
  "vga_update_hw_cursor c =
     (let (cursor_row, cursor_col) =
        (if g_abs_row c \<ge> g_view_start c \<and> g_abs_row c < g_view_start c + VGA_HEIGHT
         then (g_abs_row c - g_view_start c, g_col c)
         else (VGA_HEIGHT - 1, VGA_WIDTH - 1));
          position = (of_nat (cursor_row * VGA_WIDTH + cursor_col) :: u16)
      in io_out8 0x3D5 (ucast (drop_bit 8 position AND 0xFF))
           (io_out8 0x3D4 0x0E
             (io_out8 0x3D5 (ucast (position AND 0xFF)) (io_out8 0x3D4 0x0F c))))"

definition render_row :: "nat \<Rightarrow> console \<Rightarrow> console" where
  "render_row row c =
     (let min_row = history_min_abs_row c; abs_row = g_view_start c + row
      in fold (\<lambda>col d. d\<lparr>vga_memory := (vga_memory d)(row * VGA_WIDTH + col :=
             (if abs_row < min_row \<or> abs_row > g_abs_row c then mk_cell (g_attr c) CHR '' ''
              else g_history c (abs_row mod CONSOLE_HISTORY_LINES) col))\<rparr>) [0..<VGA_WIDTH] c)"

definition vga_render_view :: "console \<Rightarrow> console" where
  "vga_render_view c = vga_update_hw_cursor (fold render_row [0..<VGA_HEIGHT] c)"

definition viewport_clamp :: "console \<Rightarrow> console" where
  "viewport_clamp c =
     (let min_start = history_min_abs_row c; max_start = viewport_max_start c;
          v1 = (if g_view_start c < min_start then min_start else g_view_start c);
          v2 = (if v1 > max_start then max_start else v1)
      in c\<lparr>g_view_start := v2\<rparr>)"

definition viewport_after_output :: "console \<Rightarrow> console" where
  "viewport_after_output c =
     (if g_follow_tail c then c\<lparr>g_view_start := viewport_max_start c\<rparr> else viewport_clamp c)"

definition advance_new_line :: "console \<Rightarrow> console" where
  "advance_new_line c =
     (let c1 = c\<lparr>g_abs_row := g_abs_row c + 1, g_col := 0\<rparr>
      in history_clear_row (g_abs_row c1) c1)"

definition console_write_visible_char :: "char \<Rightarrow> console \<Rightarrow> console" where
  "console_write_visible_char ch c =
     (let c1 = set_cell (g_abs_row c) (g_col c) (mk_cell (g_attr c) ch) c;
          c2 = c1\<lparr>g_col := g_col c1 + 1\<rparr>
      in if g_col c2 \<ge> VGA_WIDTH then advance_new_line c2 else c2)"

subsection \<open>Output\<close>

definition console_clear :: "console \<Rightarrow> console" where
  "console_clear c =
     (let c1 = console_update_attr (c\<lparr>g_abs_row := 0, g_col := 0, g_view_start := 0,
             g_follow_tail := True, g_fg := mk_rgb 0xC0 0xC0 0xC0, g_bg := mk_rgb 0 0 0\<rparr>);
          c2 = c1\<lparr>g_input_read_index := 0, g_input_write_index := 0\<rparr>;
          c3 = history_clear_row 0 (fold history_clear_row [0..<CONSOLE_HISTORY_LINES] c2)
      in vga_render_view (serial_emit_ansi_color (serial_write ([CHR 0x1B] @ ''[0m'') c3)))"

definition console_init :: "console \<Rightarrow> console" where
  "console_init c = console_clear (serial_init c)"

definition console_backspace :: "console \<Rightarrow> console" where
  "console_backspace c =
     (if g_col c > 0 then
        (let c1 = c\<lparr>g_col := g_col c - 1\<rparr>
         in set_cell (g_abs_row c1) (g_col c1) (mk_cell (g_attr c1) CHR '' '') c1)
      else if g_abs_row c > 0 then
        (let c1 = c\<lparr>g_abs_row := g_abs_row c - 1, g_col := VGA_WIDTH - 1\<rparr>
         in set_cell (g_abs_row c1) (g_col c1) (mk_cell (g_attr c1) CHR '' '') c1)
      else c)"

definition console_putc :: "char \<Rightarrow> console \<Rightarrow> console" where
  "console_putc ch c =
     (let c1 = serial_putc ch (if ch = CHR 0x0A then serial_putc CHR 0x0D c else c);
          c2 = (if ch = CHR 0x0D then c1\<lparr>g_col := 0\<rparr>
                else if ch = CHR 0x0A then advance_new_line c1
                else if ch = CHR 0x08 then console_backspace c1
                else if ch = CHR 0x09 then
                  ((console_write_visible_char CHR '' '') ^^ (4 - g_col c1 mod 4)) c1
                else if (of_char ch :: nat) \<ge> 0x20 then console_write_visible_char ch c1
                else c1)
      in vga_render_view (viewport_after_output c2))"

definition console_write_n :: "char list \<Rightarrow> console \<Rightarrow> console" where
  "console_write_n s c = fold console_putc s c"

definition console_write_plain :: "string \<Rightarrow> console \<Rightarrow> console" where
  "console_write_plain s c = fold console_putc (cstr s) c"

definition console_write_braces_v :: "string \<Rightarrow> varg list \<Rightarrow> console \<Rightarrow> console option" where
  "console_write_braces_v pattern args c =
     (case kvformat_braces (local_buffer 1024) 1024 pattern args of
        None \<Rightarrow> None
      | Some (buffer, _) \<Rightarrow> Some (console_write_plain buffer c))"

definition console_write :: "string \<Rightarrow> varg list \<Rightarrow> console \<Rightarrow> console option" where
  "console_write pattern args c = console_write_braces_v pattern args c"

definition console_writeln :: "string \<Rightarrow> varg list \<Rightarrow> console \<Rightarrow> console option" where
  "console_writeln pattern args c =
     map_option (console_putc CHR 0x0A) (console_write_braces_v pattern args c)"

definition console_printf :: "string \<Rightarrow> varg list \<Rightarrow> console \<Rightarrow> console option" where
  "console_printf fmt args c =
     (case kvsnprintf (local_buffer 512) 512 fmt args of
        None \<Rightarrow> None
      | Some (buffer, _) \<Rightarrow> Some (console_write_plain buffer c))"

definition console_set_color_rgb :: "u8 \<Rightarrow> u8 \<Rightarrow> u8 \<Rightarrow> u8 \<Rightarrow> u8 \<Rightarrow> u8 \<Rightarrow> console \<Rightarrow> console" where
  "console_set_color_rgb fr fg fb br bg bb c =
     serial_emit_ansi_color (console_update_attr
       (c\<lparr>g_fg := mk_rgb fr fg fb, g_bg := mk_rgb br bg bb\<rparr>))"

definition console_set_color_hex :: "u32 \<Rightarrow> u32 \<Rightarrow> console \<Rightarrow> console" where
  "console_set_color_hex fg_hex bg_hex c =
     console_set_color_rgb
       (ucast (drop_bit 16 fg_hex AND 0xFF)) (ucast (drop_bit 8 fg_hex AND 0xFF)) (ucast (fg_hex AND 0xFF))
       (ucast (drop_bit 16 bg_hex AND 0xFF)) (ucast (drop_bit 8 bg_hex AND 0xFF)) (ucast (bg_hex AND 0xFF)) c"

definition console_reset_color :: "console \<Rightarrow> console" where
  "console_reset_color c = console_set_color_hex 0xC0C0C0 0 c"

definition sub_u64 :: "nat \<Rightarrow> nat \<Rightarrow> nat" where
  "sub_u64 a b = (a + 2 ^ 64 - b) mod 2 ^ 64"

definition console_scroll_view :: "int \<Rightarrow> console \<Rightarrow> console" where
  "console_scroll_view delta_lines c =
     (if delta_lines = 0 then c
      else
        let min_start = history_min_abs_row c; max_start = viewport_max_start c;
            v = (if delta_lines > 0 then
                   (if nat delta_lines > sub_u64 (g_view_start c) min_start then min_start
                    else g_view_start c - nat delta_lines)
                 else
                   (if g_view_start c + nat (- delta_lines) > max_start then max_start
                    else g_view_start c + nat (- delta_lines)))
        in vga_render_view (c\<lparr>g_view_start := v, g_follow_tail := (v = max_start)\<rparr>))"

definition console_view_to_bottom :: "console \<Rightarrow> console" where
  "console_view_to_bottom c =
     vga_render_view (c\<lparr>g_view_start := viewport_max_start c, g_follow_tail := True\<rparr>)"

text \<open>
  A call to a console routine as a value: the components that only log return the calls they make,
  and \<open>run_log\<close> performs them in order. \<open>None\<close> is a call whose arguments do not match its format.
\<close>

datatype con_call = Printf string "varg list" | Writeln string "varg list"

fun run_call :: "con_call \<Rightarrow> console \<Rightarrow> console option" where
  "run_call (Printf fmt args) c = console_printf fmt args c"
| "run_call (Writeln pat args) c = console_writeln pat args c"

fun run_log :: "con_call list \<Rightarrow> console \<Rightarrow> console option" where
  "run_log [] c = Some c"
| "run_log (k # ks) c = (case run_call k c of None \<Rightarrow> None | Some c' \<Rightarrow> run_log ks c')"

text \<open>An \<^verbatim>\<open>unsigned\<close> argument of a variadic call, as the callee reads it from its 64-bit slot.\<close>

definition vunsigned :: "u64 \<Rightarrow> varg" where
  "vunsigned x = VInt (ucast (ucast x :: u32))"

subsection \<open>Closed forms\<close>

definition view_cell :: "console \<Rightarrow> nat \<Rightarrow> nat \<Rightarrow> u16" where
  "view_cell c row col =
     (let abs_row = g_view_start c + row
      in if abs_row < history_min_abs_row c \<or> abs_row > g_abs_row c then mk_cell (g_attr c) CHR '' ''
         else g_history c (abs_row mod CONSOLE_HISTORY_LINES) col)"

lemma fold_vga_writes:
  "fold (\<lambda>col d. d\<lparr>vga_memory := (vga_memory d)(b + col := g col)\<rparr>) [0..<n] c =
     c\<lparr>vga_memory := (\<lambda>p. if b \<le> p \<and> p < b + n then g (p - b) else vga_memory c p)\<rparr>"
  by (induction n) (auto intro!: console.equality simp: fun_eq_iff)

lemma render_row_eq:
  "render_row row c = c\<lparr>vga_memory :=
     (\<lambda>p. if row * 80 \<le> p \<and> p < row * 80 + 80 then view_cell c row (p - row * 80) else vga_memory c p)\<rparr>"
  unfolding render_row_def Let_def fold_vga_writes view_cell_def VGA_WIDTH_def ..

lemma view_cell_vga [simp]: "view_cell (c\<lparr>vga_memory := m\<rparr>) row col = view_cell c row col"
  by (simp add: view_cell_def history_min_abs_row_def Let_def)

lemma render_rows_eq:
  "fold render_row [0..<n] c = c\<lparr>vga_memory :=
     (\<lambda>p. if p < n * 80 then view_cell c (p div 80) (p mod 80) else vga_memory c p)\<rparr>"
proof (induction n)
  case 0
  then show ?case by simp
next
  case (Suc n)
  have "view_cell c n (p - n * 80) = view_cell c (p div 80) (p mod 80)"
    if "n * 80 \<le> p" "p < n * 80 + 80" for p
  proof -
    have "p div 80 = n" using that by (intro div_nat_eqI) auto
    then show ?thesis by (metis minus_div_mult_eq_mod)
  qed
  then have "render_row n (c\<lparr>vga_memory :=
       (\<lambda>p. if p < n * 80 then view_cell c (p div 80) (p mod 80) else vga_memory c p)\<rparr>) =
     c\<lparr>vga_memory :=
       (\<lambda>p. if p < Suc n * 80 then view_cell c (p div 80) (p mod 80) else vga_memory c p)\<rparr>"
    by (auto simp: render_row_eq fun_eq_iff intro!: console.equality)
  then show ?case by (simp only: upt_Suc_append fold_append fold_simps le0 comp_apply Suc)
qed

lemma vga_render_view_eq:
  obtains ps where "vga_render_view c = c\<lparr>vga_memory :=
     (\<lambda>p. if p < 2000 then view_cell c (p div 80) (p mod 80) else vga_memory c p), port_writes := ps\<rparr>"
  unfolding vga_render_view_def vga_update_hw_cursor_def io_out8_def Let_def
  by (auto simp: render_rows_eq VGA_HEIGHT_def split_beta)

lemma history_clear_row_eq:
  "history_clear_row r c = c\<lparr>g_history := (g_history c)(r mod CONSOLE_HISTORY_LINES :=
     (\<lambda>col. if col < VGA_WIDTH then mk_cell (g_attr c) CHR '' ''
            else g_history c (r mod CONSOLE_HISTORY_LINES) col))\<rparr>"
proof -
  have "fold (\<lambda>col. set_cell r col v) [0..<n] c = c\<lparr>g_history := (g_history c)
      (r mod CONSOLE_HISTORY_LINES := (\<lambda>col. if col < n then v
         else g_history c (r mod CONSOLE_HISTORY_LINES) col))\<rparr>" for v n
    by (induction n) (auto simp: set_cell_def Let_def fun_eq_iff
        intro!: console.equality)
  then show ?thesis by (simp add: history_clear_row_def)
qed

subsection \<open>Frame lemmas\<close>

lemma vga_render_view_sel [simp]:
  "g_history (vga_render_view c) = g_history c"
  "g_abs_row (vga_render_view c) = g_abs_row c"
  "g_col (vga_render_view c) = g_col c"
  "g_view_start (vga_render_view c) = g_view_start c"
  "g_follow_tail (vga_render_view c) = g_follow_tail c"
  "g_attr (vga_render_view c) = g_attr c"
  "g_input_buffer (vga_render_view c) = g_input_buffer c"
  "g_input_read_index (vga_render_view c) = g_input_read_index c"
  "g_input_write_index (vga_render_view c) = g_input_write_index c"
  "vga_memory (vga_render_view c) =
     (\<lambda>p. if p < 2000 then view_cell c (p div 80) (p mod 80) else vga_memory c p)"
  by (rule vga_render_view_eq [of c], simp)+

lemma serial_write_sel:
  "\<exists>ps. serial_write s c = c\<lparr>port_writes := ps\<rparr>"
proof -
  have "\<exists>ps. fold serial_putc t c = c\<lparr>port_writes := ps\<rparr>" for t
  proof (induction t rule: rev_induct)
    case Nil
    show ?case by (rule exI [of _ "port_writes c"]) simp
  qed (auto simp: serial_putc_def io_out8_def)
  then show ?thesis by (simp add: serial_write_def)
qed

lemma serial_emit_ansi_color_sel:
  "\<exists>ps. serial_emit_ansi_color c = c\<lparr>port_writes := ps\<rparr>"
  unfolding serial_emit_ansi_color_def
  by (auto split: option.splits simp: serial_write_sel intro!: exI [of _ "port_writes c"])

text \<open>
  The operations that write characters change the history, the position and the serial port only,
  and keep the column inside the row.
\<close>

definition grid_step :: "console \<Rightarrow> console \<Rightarrow> bool" where
  "grid_step c d \<longleftrightarrow>
     g_view_start d = g_view_start c \<and> g_follow_tail d = g_follow_tail c \<and> g_attr d = g_attr c \<and>
     g_fg d = g_fg c \<and> g_bg d = g_bg c \<and> g_input_buffer d = g_input_buffer c \<and>
     g_input_read_index d = g_input_read_index c \<and> g_input_write_index d = g_input_write_index c \<and>
     vga_memory d = vga_memory c \<and> (g_col c < 80 \<longrightarrow> g_col d < 80)"

lemma grid_step_refl: "grid_step c c"
  by (simp add: grid_step_def)

lemma grid_step_trans: "grid_step a b \<Longrightarrow> grid_step b c \<Longrightarrow> grid_step a c"
  by (simp add: grid_step_def)

lemma grid_step_serial_putc: "grid_step c (serial_putc ch c)"
  by (simp add: grid_step_def serial_putc_def io_out8_def)

lemma grid_step_advance: "grid_step c (advance_new_line c)"
  by (simp add: grid_step_def advance_new_line_def Let_def history_clear_row_eq)

lemma grid_step_visible: "grid_step c (console_write_visible_char ch c)"
  by (simp add: grid_step_def console_write_visible_char_def advance_new_line_def Let_def
      history_clear_row_eq set_cell_def VGA_WIDTH_def)

lemma grid_step_visible_n: "grid_step c ((console_write_visible_char ch ^^ n) c)"
  by (induction n) (auto intro: grid_step_refl grid_step_trans grid_step_visible)

lemma grid_step_backspace: "grid_step c (console_backspace c)"
  by (auto simp add: grid_step_def console_backspace_def Let_def set_cell_def VGA_WIDTH_def)

lemma grid_step_cr: "grid_step c (c\<lparr>g_col := 0\<rparr>)"
  by (simp add: grid_step_def)

lemmas grid_steps = grid_step_refl grid_step_serial_putc grid_step_advance grid_step_visible
  grid_step_visible_n grid_step_backspace grid_step_cr

subsection \<open>Invariants\<close>

definition ring_inv :: "console \<Rightarrow> bool" where
  "ring_inv c \<longleftrightarrow> length (g_input_buffer c) = 128 \<and> g_input_read_index c < 128 \<and>
     g_input_write_index c < 128"

definition view_inv :: "console \<Rightarrow> bool" where
  "view_inv c \<longleftrightarrow> g_col c < 80 \<and> history_min_abs_row c \<le> g_view_start c \<and>
     g_view_start c \<le> viewport_max_start c \<and>
     (g_follow_tail c \<longrightarrow> g_view_start c = viewport_max_start c)"

definition console_inv :: "console \<Rightarrow> bool" where
  "console_inv c \<longleftrightarrow> ring_inv c \<and> view_inv c"

lemma min_le_max: "history_min_abs_row c \<le> viewport_max_start c"
  by (auto simp: history_min_abs_row_def viewport_max_start_def console_consts)

lemma bounds_upd [simp]:
  "history_min_abs_row (c\<lparr>g_view_start := v0\<rparr>) = history_min_abs_row c"
  "history_min_abs_row (c\<lparr>g_follow_tail := v1\<rparr>) = history_min_abs_row c"
  "history_min_abs_row (c\<lparr>g_fg := v2\<rparr>) = history_min_abs_row c"
  "history_min_abs_row (c\<lparr>g_bg := v3\<rparr>) = history_min_abs_row c"
  "history_min_abs_row (c\<lparr>g_attr := v4\<rparr>) = history_min_abs_row c"
  "history_min_abs_row (c\<lparr>g_input_buffer := v5\<rparr>) = history_min_abs_row c"
  "history_min_abs_row (c\<lparr>g_input_read_index := v6\<rparr>) = history_min_abs_row c"
  "history_min_abs_row (c\<lparr>g_input_write_index := v7\<rparr>) = history_min_abs_row c"
  "history_min_abs_row (c\<lparr>port_writes := v8\<rparr>) = history_min_abs_row c"
  "history_min_abs_row (vga_render_view c) = history_min_abs_row c"
  "viewport_max_start (c\<lparr>g_view_start := v10\<rparr>) = viewport_max_start c"
  "viewport_max_start (c\<lparr>g_follow_tail := v11\<rparr>) = viewport_max_start c"
  "viewport_max_start (c\<lparr>g_fg := v12\<rparr>) = viewport_max_start c"
  "viewport_max_start (c\<lparr>g_bg := v13\<rparr>) = viewport_max_start c"
  "viewport_max_start (c\<lparr>g_attr := v14\<rparr>) = viewport_max_start c"
  "viewport_max_start (c\<lparr>g_input_buffer := v15\<rparr>) = viewport_max_start c"
  "viewport_max_start (c\<lparr>g_input_read_index := v16\<rparr>) = viewport_max_start c"
  "viewport_max_start (c\<lparr>g_input_write_index := v17\<rparr>) = viewport_max_start c"
  "viewport_max_start (c\<lparr>port_writes := v18\<rparr>) = viewport_max_start c"
  "viewport_max_start (vga_render_view c) = viewport_max_start c"
  by (simp_all add: history_min_abs_row_def viewport_max_start_def)

lemma after_output_view_inv: "g_col c < 80 \<Longrightarrow> view_inv (viewport_after_output c)"
  using min_le_max [of c]
  by (auto simp: view_inv_def viewport_after_output_def viewport_clamp_def Let_def)

lemma after_output_sel [simp]:
  "g_history (viewport_after_output c) = g_history c"
  "g_abs_row (viewport_after_output c) = g_abs_row c"
  "g_col (viewport_after_output c) = g_col c"
  "g_attr (viewport_after_output c) = g_attr c"
  "g_follow_tail (viewport_after_output c) = g_follow_tail c"
  "ring_inv (viewport_after_output c) = ring_inv c"
  by (simp_all add: viewport_after_output_def viewport_clamp_def Let_def ring_inv_def)

lemma render_inv [simp]:
  "ring_inv (vga_render_view c) = ring_inv c" "view_inv (vga_render_view c) = view_inv c"
  by (simp_all add: ring_inv_def view_inv_def)

lemma grid_step_inv:
  "grid_step c d \<Longrightarrow> ring_inv c \<Longrightarrow> ring_inv d"
  "grid_step c d \<Longrightarrow> g_col c < 80 \<Longrightarrow> g_col d < 80"
  by (simp_all add: grid_step_def ring_inv_def)

lemma console_putc_inv [invariants]: "console_inv c \<Longrightarrow> console_inv (console_putc ch c)"
proof -
  assume inv: "console_inv c"
  define c1 where "c1 = serial_putc ch (if ch = CHR 0x0A then serial_putc CHR 0x0D c else c)"
  define c2 where "c2 = (if ch = CHR 0x0D then c1\<lparr>g_col := 0\<rparr>
                else if ch = CHR 0x0A then advance_new_line c1
                else if ch = CHR 0x08 then console_backspace c1
                else if ch = CHR 0x09 then
                  ((console_write_visible_char CHR '' '') ^^ (4 - g_col c1 mod 4)) c1
                else if (of_char ch :: nat) \<ge> 0x20 then console_write_visible_char ch c1
                else c1)"
  have "grid_step c c1"
    unfolding c1_def by (auto intro: grid_steps grid_step_trans [OF grid_step_serial_putc])
  moreover have "grid_step c1 c2"
    unfolding c2_def by (auto intro: grid_steps)
  ultimately have "grid_step c c2" by (rule grid_step_trans)
  then have "ring_inv c2" "g_col c2 < 80"
    using inv grid_step_inv by (auto simp: console_inv_def view_inv_def)
  moreover have "console_putc ch c = vga_render_view (viewport_after_output c2)"
    by (simp only: console_putc_def c1_def c2_def Let_def)
  ultimately show ?thesis by (simp add: console_inv_def after_output_view_inv)
qed

lemma fold_console_putc_inv [invariants]: "console_inv c \<Longrightarrow> console_inv (fold console_putc s c)"
  by (induction s arbitrary: c) (simp_all add: console_putc_inv)

lemma console_write_n_inv [invariants]: "console_inv c \<Longrightarrow> console_inv (console_write_n s c)"
  by (simp add: console_write_n_def fold_console_putc_inv)

lemma console_printf_inv [invariants]:
  "console_inv c \<Longrightarrow> console_printf fmt args c = Some d \<Longrightarrow> console_inv d"
  unfolding console_printf_def console_write_plain_def
  by (cases "kvsnprintf (local_buffer 512) 512 fmt args")
    (clarsimp, clarsimp simp: fold_console_putc_inv)

lemma console_write_inv [invariants]:
  "console_inv c \<Longrightarrow> console_write_braces_v pat args c = Some d \<Longrightarrow> console_inv d"
  unfolding console_write_braces_v_def console_write_plain_def
  by (cases "kvformat_braces (local_buffer 1024) 1024 pat args")
    (clarsimp, clarsimp simp: fold_console_putc_inv)

lemma console_writeln_inv [invariants]:
  "console_inv c \<Longrightarrow> console_writeln pat args c = Some d \<Longrightarrow> console_inv d"
  unfolding console_writeln_def
  by (cases "console_write_braces_v pat args c") (auto dest: console_write_inv intro: console_putc_inv)

lemma run_call_inv [invariants]: "console_inv c \<Longrightarrow> run_call k c = Some d \<Longrightarrow> console_inv d"
  by (cases k) (auto elim: console_printf_inv console_writeln_inv)

lemma run_log_inv [invariants]: "console_inv c \<Longrightarrow> run_log ks c = Some d \<Longrightarrow> console_inv d"
  by (induction ks arbitrary: c) (auto split: option.splits dest: run_call_inv)

lemma sub_u64_eq:
  assumes "b \<le> a" and "a < 2 ^ 64"
  shows "sub_u64 a b = a - b"
proof -
  have "a + 2 ^ 64 - b = (a - b) + 2 ^ 64" by (rule add_diff_assoc2 [symmetric, OF assms(1)])
  then show ?thesis using assms(2) by (simp only: sub_u64_def mod_add_self2) simp
qed

lemma console_scroll_view_inv [invariants]:
  assumes "console_inv c" and "g_view_start c < 2 ^ 64"
  shows "console_inv (console_scroll_view delta c)"
proof (cases "delta = 0")
  case True
  then show ?thesis using assms by (simp add: console_scroll_view_def)
next
  case False
  have s: "sub_u64 (g_view_start c) (history_min_abs_row c) = g_view_start c - history_min_abs_row c"
    using assms by (intro sub_u64_eq) (auto simp: console_inv_def view_inv_def)
  show ?thesis
    using assms(1) False min_le_max [of c]
    by (auto simp: console_scroll_view_def Let_def s console_inv_def view_inv_def ring_inv_def)
qed

lemma update_attr_sel:
  "\<exists>a. console_update_attr c = c\<lparr>g_attr := a\<rparr>"
  by (auto simp: console_update_attr_def)

lemma console_set_color_rgb_inv [invariants]:
  "console_inv c \<Longrightarrow> console_inv (console_set_color_rgb fr fg fb br bg bb c)"
proof -
  assume inv: "console_inv c"
  let ?d = "c\<lparr>g_fg := mk_rgb fr fg fb, g_bg := mk_rgb br bg bb\<rparr>"
  obtain a where a: "console_update_attr ?d = ?d\<lparr>g_attr := a\<rparr>"
    using update_attr_sel by blast
  obtain ps where "console_set_color_rgb fr fg fb br bg bb c = ?d\<lparr>g_attr := a, port_writes := ps\<rparr>"
    using serial_emit_ansi_color_sel [of "?d\<lparr>g_attr := a\<rparr>"] a
    by (auto simp: console_set_color_rgb_def)
  then show ?thesis
    using inv by (simp add: console_inv_def ring_inv_def view_inv_def)
qed

lemma console_clear_inv [invariants]:
  assumes "length (g_input_buffer c) = 128"
  shows "console_inv (console_clear c)"
proof -
  have rows: "\<exists>h. fold history_clear_row rs d = d\<lparr>g_history := h\<rparr>" for rs d
  proof (induction rs arbitrary: d)
    case Nil
    show ?case by (rule exI [of _ "g_history d"]) simp
  next
    case (Cons r rs)
    obtain h0 where "history_clear_row r d = d\<lparr>g_history := h0\<rparr>"
      using history_clear_row_eq by blast
    moreover obtain h where "fold history_clear_row rs (history_clear_row r d) =
        (history_clear_row r d)\<lparr>g_history := h\<rparr>" using Cons by blast
    ultimately show ?case by auto
  qed
  let ?c0 = "c\<lparr>g_abs_row := 0, g_col := 0, g_view_start := 0,
             g_follow_tail := True, g_fg := mk_rgb 0xC0 0xC0 0xC0, g_bg := mk_rgb 0 0 0\<rparr>"
  let ?c2 = "console_update_attr ?c0\<lparr>g_input_read_index := 0, g_input_write_index := 0\<rparr>"
  obtain h where h: "history_clear_row 0 (fold history_clear_row [0..<CONSOLE_HISTORY_LINES] ?c2) =
      ?c2\<lparr>g_history := h\<rparr>"
    using rows [of "[0..<CONSOLE_HISTORY_LINES] @ [0]" ?c2] by (auto simp: fold_append)
  let ?c3 = "?c2\<lparr>g_history := h\<rparr>"
  obtain p1 where p1: "serial_write ([CHR 0x1B] @ ''[0m'') ?c3 = ?c3\<lparr>port_writes := p1\<rparr>"
    using serial_write_sel by blast
  obtain p2 where p2: "serial_emit_ansi_color (?c3\<lparr>port_writes := p1\<rparr>) =
      ?c3\<lparr>port_writes := p1, port_writes := p2\<rparr>"
    using serial_emit_ansi_color_sel by blast
  show ?thesis
    unfolding console_clear_def Let_def h p1 p2
    using assms by (simp add: console_inv_def ring_inv_def view_inv_def history_min_abs_row_def
        viewport_max_start_def console_update_attr_def console_consts)
qed

subsection \<open>The input ring is a bounded queue\<close>

definition ring_len :: "console \<Rightarrow> nat" where
  "ring_len c = (g_input_write_index c + 128 - g_input_read_index c) mod 128"

definition ring_contents :: "console \<Rightarrow> char list" where
  "ring_contents c =
     map (\<lambda>i. g_input_buffer c ! ((g_input_read_index c + i) mod 128)) [0..<ring_len c]"

lemma ring_len_cases:
  "ring_inv c \<Longrightarrow> ring_len c =
    (if g_input_read_index c \<le> g_input_write_index c
     then g_input_write_index c - g_input_read_index c
     else g_input_write_index c + 128 - g_input_read_index c)"
  by (auto simp: ring_inv_def ring_len_def mod_if)

lemma ring_full_iff: "ring_inv c \<Longrightarrow> input_buffer_is_full c \<longleftrightarrow> ring_len c = 127"
  by (auto simp: ring_len_cases input_buffer_is_full_def CONSOLE_INPUT_CAPACITY_def ring_inv_def mod_if)

lemma ring_empty_iff: "ring_inv c \<Longrightarrow> input_buffer_is_empty c \<longleftrightarrow> ring_contents c = []"
  by (auto simp: ring_contents_def ring_len_cases input_buffer_is_empty_def ring_inv_def)

lemma ring_enqueue:
  assumes inv: "ring_inv c"
  shows "ring_contents (console_enqueue_input x c) =
    (if length (ring_contents c) < 127 then ring_contents c @ [x] else ring_contents c)"
proof (cases "ring_len c = 127")
  case True
  then show ?thesis
    using ring_full_iff [OF inv] by (simp add: console_enqueue_input_def ring_contents_def)
next
  case False
  let ?r = "g_input_read_index c" and ?w = "g_input_write_index c"
  let ?d = "console_enqueue_input x c"
  have d: "?d = c\<lparr>g_input_buffer := (g_input_buffer c)[?w := x], g_input_write_index := (?w + 1) mod 128\<rparr>"
    using False ring_full_iff [OF inv] by (simp add: console_enqueue_input_def CONSOLE_INPUT_CAPACITY_def)
  have lt: "ring_len c < 127" using False inv by (auto simp: ring_len_def)
  have len: "ring_len ?d = Suc (ring_len c)"
    using False inv by (auto simp: d ring_len_def ring_inv_def mod_if split: if_splits)
  have idx: "(?r + ring_len c) mod 128 = ?w"
    using inv by (auto simp: ring_len_cases ring_inv_def)
  have ne: "?w \<noteq> (?r + i) mod 128" if "i < ring_len c" for i
    using that inv lt by (auto simp: ring_len_cases ring_inv_def mod_if split: if_splits)
  have "map (\<lambda>i. g_input_buffer ?d ! ((?r + i) mod 128)) [0..<ring_len c] = ring_contents c"
    using ne by (auto simp: d ring_contents_def)
  moreover have "g_input_buffer ?d ! ((?r + ring_len c) mod 128) = x"
    using inv by (simp add: d idx ring_inv_def)
  moreover have "g_input_read_index ?d = ?r" by (simp add: d)
  ultimately show ?thesis using lt len by (simp add: ring_contents_def)
qed

lemma ring_pop:
  assumes inv: "ring_inv c" and pop: "input_buffer_pop c = Some (x, d)"
  shows "ring_contents c = x # ring_contents d" and "ring_inv d"
proof -
  let ?r = "g_input_read_index c"
  have ne: "\<not> input_buffer_is_empty c" and x: "x = g_input_buffer c ! ?r"
    and d: "d = c\<lparr>g_input_read_index := (?r + 1) mod 128\<rparr>"
    using pop by (auto simp: input_buffer_pop_def CONSOLE_INPUT_CAPACITY_def split: if_splits)
  have len: "ring_len c = Suc (ring_len d)"
    using ne inv by (auto simp: d ring_len_def ring_inv_def input_buffer_is_empty_def mod_if split: if_splits)
  have "((?r + 1) mod 128 + i) mod 128 = (?r + Suc i) mod 128" for i
    by (simp add: mod_simps)
  then have "map (\<lambda>i. g_input_buffer c ! ((?r + i) mod 128)) (map Suc [0..<ring_len d]) = ring_contents d"
    by (simp add: ring_contents_def d)
  moreover have "[0..<ring_len c] = 0 # map Suc [0..<ring_len d]"
    by (simp add: len map_Suc_upt upt_conv_Cons del: upt_Suc)
  moreover have "?r mod 128 = ?r" using inv by (simp add: ring_inv_def)
  ultimately show "ring_contents c = x # ring_contents d"
    by (simp only: ring_contents_def [of c] list.map x add_0_right)
  show "ring_inv d" using inv by (simp add: d ring_inv_def)
qed

lemma ring_enqueue_inv [invariants]: "ring_inv c \<Longrightarrow> ring_inv (console_enqueue_input x c)"
  by (simp add: console_enqueue_input_def ring_inv_def CONSOLE_INPUT_CAPACITY_def)

interpretation ring: bounded_queue console_enqueue_input input_buffer_pop ring_contents 127 ring_inv
proof
  show "length (ring_contents q) \<le> 127" if "ring_inv q" for q
    using mod_less_divisor [of 128 "g_input_write_index q + 128 - g_input_read_index q"]
    by (simp add: ring_contents_def ring_len_def)
  show "(input_buffer_pop q = None) = (ring_contents q = [])" if "ring_inv q" for q
    using ring_empty_iff [OF that] by (simp add: input_buffer_pop_def)
qed (auto simp: ring_enqueue ring_pop intro: ring_enqueue_inv ring_pop)

subsection \<open>Colours\<close>

lemma dist2_bound: "dist2 a b < 0xFFFFFFFF"
proof -
  have sq: "(uint x - uint y) * (uint x - uint y) \<le> 65025" for x y :: u8
  proof -
    have "uint z < 256" for z :: u8 using uint_bounded [of z] by simp
    then have "\<bar>uint x - uint y\<bar> \<le> 255"
      using uint_ge_0 [of x] uint_ge_0 [of y] by (smt (verit))
    then have "\<bar>uint x - uint y\<bar> * \<bar>uint x - uint y\<bar> \<le> 255 * 255"
      by (intro mult_mono) auto
    then show ?thesis by simp
  qed
  define d where "d = (uint (rgb_r a) - uint (rgb_r b)) * (uint (rgb_r a) - uint (rgb_r b)) +
    (uint (rgb_g a) - uint (rgb_g b)) * (uint (rgb_g a) - uint (rgb_g b)) +
    (uint (rgb_b a) - uint (rgb_b b)) * (uint (rgb_b a) - uint (rgb_b b))"
  have "0 \<le> d" "d \<le> 195075"
    using sq [of "rgb_r a" "rgb_r b"] sq [of "rgb_g a" "rgb_g b"] sq [of "rgb_b a" "rgb_b b"]
    by (auto simp: d_def)
  then have "uint (word_of_int d :: u32) = d"
    by (simp add: take_bit_int_eq_self_iff uint_word_of_int_eq)
  moreover have "dist2 a b = word_of_int d" by (simp add: dist2_def d_def Let_def)
  ultimately show ?thesis using \<open>d \<le> 195075\<close> by (simp add: word_less_def)
qed

lemma nearest_loop_min:
  assumes "length pre + length ps \<le> 255" and "i = of_nat (length pre)"
    and "\<forall>q \<in> set pre. bd \<le> dist2 c q"
    and "pre = [] \<and> bd = 0xFFFFFFFF \<or> unat best < length pre \<and> bd = dist2 c (pre ! unat best)"
    and "pre @ ps \<noteq> []"
  shows "unat (nearest_loop c i ps best bd) < length (pre @ ps) \<and>
    (\<forall>q \<in> set (pre @ ps). dist2 c ((pre @ ps) ! unat (nearest_loop c i ps best bd)) \<le> dist2 c q)"
  using assms
proof (induction ps arbitrary: pre i best bd)
  case Nil
  then show ?case by auto
next
  case (Cons p ps)
  have i: "unat i = length pre" using Cons.prems(1,2) by (simp add: unat_of_nat)
  let ?pre = "pre @ [p]"
  have len: "length ?pre + length ps \<le> 255" "i + 1 = of_nat (length ?pre)"
    using Cons.prems(1,2) by simp_all
  show ?case
  proof (cases "dist2 c p < bd")
    case True
    then have m: "\<forall>q \<in> set ?pre. dist2 c p \<le> dist2 c q" using Cons.prems(3) by auto
    have "?pre = [] \<and> dist2 c p = 0xFFFFFFFF \<or>
        unat i < length ?pre \<and> dist2 c p = dist2 c (?pre ! unat i)"
      by (simp add: i)
    from Cons.IH [OF len m this] show ?thesis using True by simp
  next
    case False
    then have "pre \<noteq> []" using Cons.prems(4) dist2_bound by auto
    then have b: "?pre = [] \<and> bd = 0xFFFFFFFF \<or>
        unat best < length ?pre \<and> bd = dist2 c (?pre ! unat best)"
      using Cons.prems(4) by (auto simp: nth_append)
    have "\<forall>q \<in> set ?pre. bd \<le> dist2 c q" using Cons.prems(3) False by auto
    from Cons.IH [OF len this b] show ?thesis using False by simp
  qed
qed

lemma color_nearest_min:
  "unat (color_nearest_vga_index c) < 16 \<and>
   (\<forall>p \<in> set k_vga_palette. dist2 c (k_vga_palette ! unat (color_nearest_vga_index c)) \<le> dist2 c p)"
proof -
  have "length k_vga_palette = 16" by (simp add: k_vga_palette_def)
  then show ?thesis
    using nearest_loop_min [of "[]" k_vga_palette 0 "0xFFFFFFFF" c 0]
    by (simp add: color_nearest_vga_index_def) fastforce
qed

subsection \<open>Writing a character\<close>

lemma console_putc_visible:
  assumes inv: "view_inv c" and tail: "g_follow_tail c"
    and ch: "0x20 \<le> (of_char ch :: nat)" and col: "g_col c < 79"
  defines "d \<equiv> console_putc ch c"
  shows "g_abs_row d = g_abs_row c" and "g_col d = g_col c + 1"
    and "vga_memory d ((g_abs_row c - viewport_max_start c) * 80 + g_col c) = mk_cell (g_attr c) ch"
proof -
  define c1 where "c1 = console_write_visible_char ch (serial_putc ch c)"
  have ne: "ch \<noteq> CHR 0x0A" "ch \<noteq> CHR 0x0D" "ch \<noteq> CHR 0x08" "ch \<noteq> CHR 0x09" using ch by auto
  then have d: "d = vga_render_view (viewport_after_output c1)"
    using ch by (simp add: d_def console_putc_def Let_def c1_def)
  have c1: "g_abs_row c1 = g_abs_row c" "g_col c1 = g_col c + 1" "g_follow_tail c1"
    "g_history c1 (g_abs_row c mod CONSOLE_HISTORY_LINES) (g_col c) = mk_cell (g_attr c) ch"
    using col tail by (simp_all add: c1_def console_write_visible_char_def set_cell_def Let_def
        serial_putc_def io_out8_def VGA_WIDTH_def)
  show "g_abs_row d = g_abs_row c" "g_col d = g_col c + 1" using c1 by (simp_all add: d)
  let ?row = "g_abs_row c - viewport_max_start c"
  have row: "?row < 25" "viewport_max_start c + ?row = g_abs_row c"
    by (auto simp: viewport_max_start_def VGA_HEIGHT_def)
  then have p: "?row * 80 + g_col c < 2000" "(?row * 80 + g_col c) div 80 = ?row"
    "(?row * 80 + g_col c) mod 80 = g_col c"
    using col by auto
  have m: "viewport_max_start c1 = viewport_max_start c" "history_min_abs_row c1 \<le> g_abs_row c"
    using c1(1) by (auto simp: viewport_max_start_def history_min_abs_row_def console_consts)
  have a: "viewport_after_output c1 = c1\<lparr>g_view_start := viewport_max_start c\<rparr>"
    using c1(3) m by (simp add: viewport_after_output_def)
  show "vga_memory d (?row * 80 + g_col c) = mk_cell (g_attr c) ch"
    using p row m c1 by (simp add: d a view_cell_def Let_def)
qed

subsection \<open>Reachable console states\<close>

inductive console_step :: "console \<Rightarrow> console \<Rightarrow> bool" where
  putc: "console_step c (console_putc ch c)"
| write_n: "console_step c (console_write_n s c)"
| call: "run_call k c = Some d \<Longrightarrow> console_step c d"
| colour: "console_step c (console_set_color_rgb fr fg fb br bg bb c)"
| clear: "console_step c (console_clear c)"
| scroll: "g_view_start c < 2 ^ 64 \<Longrightarrow> console_step c (console_scroll_view delta c)"
| bottom: "console_step c (console_view_to_bottom c)"
| enqueue: "console_step c (console_enqueue_input ch c)"
| try_read: "console_try_read_char rx c = (r, d) \<Longrightarrow> console_step c d"

definition console_boot :: "console \<Rightarrow> bool" where
  "console_boot c \<longleftrightarrow> (\<exists>b. length (g_input_buffer b) = CONSOLE_INPUT_CAPACITY \<and> c = console_init b)"

lemma enqueue_inv [invariants]: "console_inv c \<Longrightarrow> console_inv (console_enqueue_input ch c)"
  using ring_enqueue_inv [of c ch]
  by (simp add: console_inv_def view_inv_def console_enqueue_input_def)

lemma try_read_inv [invariants]:
  assumes "console_inv c" and "console_try_read_char rx c = (r, d)"
  shows "console_inv d"
proof -
  define c1 where "c1 = (case rx of None \<Rightarrow> c | Some b \<Rightarrow> console_enqueue_input b c)"
  have c1: "console_inv c1" using assms(1) by (simp add: c1_def enqueue_inv split: option.splits)
  have "d = c1 \<or> d = c1\<lparr>g_input_read_index := (g_input_read_index c1 + 1) mod 128\<rparr>"
    using assms(2) by (auto simp: console_try_read_char_def Let_def c1_def [symmetric]
        input_buffer_pop_def CONSOLE_INPUT_CAPACITY_def split: if_splits)
  then show ?thesis using c1 by (auto simp: console_inv_def view_inv_def ring_inv_def)
qed

lemma console_step_inv: "console_inv c \<Longrightarrow> console_step c d \<Longrightarrow> console_inv d"
proof (erule console_step.cases; hypsubst)
  show "console_inv c \<Longrightarrow> console_inv (console_clear c)" for c
    by (rule console_clear_inv) (simp add: console_inv_def ring_inv_def)
  show "console_inv c \<Longrightarrow> console_inv (console_view_to_bottom c)" for c
    using min_le_max [of c]
    by (simp add: console_view_to_bottom_def console_inv_def view_inv_def ring_inv_def)
qed (auto intro: console_putc_inv console_write_n_inv run_call_inv console_set_color_rgb_inv
    console_scroll_view_inv enqueue_inv try_read_inv)

interpretation con: state_machine console_boot console_step console_inv
proof
  show "console_inv c" if "console_boot c" for c
    using that by (auto simp: console_boot_def console_init_def serial_init_def io_out8_def
        CONSOLE_INPUT_CAPACITY_def intro!: console_clear_inv)
qed (rule console_step_inv)

text \<open>A console in the middle of its work, for the concrete instances below.\<close>

definition sample_console :: console where
  "sample_console = \<lparr>g_history = (\<lambda>_ _. 0), g_abs_row = 30, g_col = 5, g_view_start = 6,
     g_follow_tail = True, g_attr = 7, g_fg = mk_rgb 192 192 192, g_bg = mk_rgb 0 0 0,
     g_input_buffer = replicate 128 NUL, g_input_read_index = 0, g_input_write_index = 0,
     vga_memory = (\<lambda>_. 0), port_writes = []\<rparr>"

lemma sample_console_inv: "console_inv sample_console"
  by (simp add: sample_console_def console_inv_def ring_inv_def view_inv_def
      history_min_abs_row_def viewport_max_start_def console_consts)

subsection \<open>Properties\<close>

text \<open>
  C37: in every state the console can reach from its initialisation, by any sequence of output,
  colour changes, scrolling, clearing, keyboard input and reads, the cursor column stays inside the
  80-column row, the ring indices stay inside the 128-byte ring, and the viewport stays inside the
  history that is kept, at its end whenever the console follows the output.
\<close>

theorem console_reachable_inv: "reach console_boot console_step c \<Longrightarrow> console_inv c"
  by (rule con.reach_inv)

theorem console_reachable_inv_witness:
  "reach console_boot console_step (console_putc CHR ''x'' (console_init sample_console)) \<and>
   console_inv (console_putc CHR ''x'' (console_init sample_console))"
proof -
  have "length (g_input_buffer sample_console) = CONSOLE_INPUT_CAPACITY"
    by (simp add: sample_console_def CONSOLE_INPUT_CAPACITY_def)
  then have "console_boot (console_init sample_console)" by (auto simp: console_boot_def)
  then have r: "reach console_boot console_step (console_putc CHR ''x'' (console_init sample_console))"
    by (blast intro: reach.intros console_step.putc)
  with console_reachable_inv [OF r] show ?thesis by blast
qed



text \<open>
  The colour mapped to a requested RGB colour is a nearest one of the sixteen VGA colours.
\<close>

lemma color_nearest_is_nearest:
  "unat (color_nearest_vga_index c) < 16 \<and>
   (\<forall>i < 16. dist2 c (k_vga_palette ! unat (color_nearest_vga_index c)) \<le> dist2 c (k_vga_palette ! i))"
proof -
  have "length k_vga_palette = 16" by (simp add: k_vga_palette_def)
  then show ?thesis using color_nearest_min [of c] by (metis nth_mem)
qed

end
