(* ===== verification/Net_Codec.thy ===== *)
theory Net_Codec
  imports Console "HOL-Library.Monad_Syntax"
begin

text \<open>
  The encodings of \<^verbatim>\<open>src/kernel/net.c\<close>: big-endian loads and stores (\<^verbatim>\<open>be16_load\<close> to \<^verbatim>\<open>be32_store\<close>),
  the Internet checksum, and dotted decimal addresses. A buffer with its length is a list of bytes;
  a load or store outside of it is \<open>None\<close>. The properties: the checksum is the negated sum of the
  16-bit words modulo 65535 and a header that carries it verifies, and parsing inverts formatting.
\<close>

subsection \<open>Byte arrays\<close>

definition load :: "u8 list \<Rightarrow> nat \<Rightarrow> u8 option" where
  "load p i = (if i < length p then Some (p ! i) else None)"

text \<open>Bytes written to an array from index \<open>i\<close> on.\<close>

definition put :: "nat \<Rightarrow> u8 list \<Rightarrow> u8 list \<Rightarrow> u8 list option" where
  "put i bs p = (if i + length bs \<le> length p then Some (take i p @ bs @ drop (i + length bs) p) else None)"

text \<open>A run of \<open>n\<close> bytes read from index \<open>i\<close> on.\<close>

definition slice :: "nat \<Rightarrow> nat \<Rightarrow> u8 list \<Rightarrow> u8 list option" where
  "slice i n p = (if i + n \<le> length p then Some (take n (drop i p)) else None)"

definition be16_load :: "u8 list \<Rightarrow> nat \<Rightarrow> u16 option" where
  "be16_load p i = do {
     a \<leftarrow> load p i;
     b \<leftarrow> load p (i + 1);
     Some (push_bit 8 (ucast a) OR ucast b)
   }"

definition be32_load :: "u8 list \<Rightarrow> nat \<Rightarrow> u32 option" where
  "be32_load p i = do {
     a \<leftarrow> load p i;
     b \<leftarrow> load p (i + 1);
     c \<leftarrow> load p (i + 2);
     d \<leftarrow> load p (i + 3);
     Some (push_bit 24 (ucast a) OR push_bit 16 (ucast b) OR push_bit 8 (ucast c) OR ucast d)
   }"

definition be16_bytes :: "u16 \<Rightarrow> u8 list" where
  "be16_bytes v = [ucast (drop_bit 8 v AND 0xFF), ucast (v AND 0xFF)]"

definition be32_bytes :: "u32 \<Rightarrow> u8 list" where
  "be32_bytes v = [ucast (drop_bit 24 v AND 0xFF), ucast (drop_bit 16 v AND 0xFF), ucast (drop_bit 8 v AND 0xFF), ucast (v AND 0xFF)]"

definition be16_store :: "nat \<Rightarrow> u16 \<Rightarrow> u8 list \<Rightarrow> u8 list option" where
  "be16_store i v p = put i (be16_bytes v) p"

definition be32_store :: "nat \<Rightarrow> u32 \<Rightarrow> u8 list \<Rightarrow> u8 list option" where
  "be32_store i v p = put i (be32_bytes v) p"

subsection \<open>Internet checksum\<close>

fun sum16 :: "u8 list \<Rightarrow> u32 \<Rightarrow> u32" where
  "sum16 (a # b # data) s = sum16 data (s + (push_bit 8 (ucast a) OR ucast b))"
| "sum16 [a] s = s + push_bit 8 (ucast a)"
| "sum16 [] s = s"

lemma unat_bound: "unat w < 2 ^ LENGTH('a)" for w :: "'a::len word"
  by (rule unsigned_less)

lemma unat_low_high:
  fixes s :: u32
  shows "unat (s AND 0xFFFF) = unat s mod 65536" and "unat (drop_bit 16 s) = unat s div 65536"
proof -
  have "s AND 0xFFFF = take_bit 16 s" by (simp add: take_bit_eq_mask mask_numeral)
  then show "unat (s AND 0xFFFF) = unat s mod 65536"
    by (simp only: unsigned_take_bit_eq) (simp add: take_bit_eq_mod)
  show "unat (drop_bit 16 s) = unat s div 65536"
    by (simp only: unat_drop_bit_eq) (simp add: drop_bit_eq_div)
qed

lemma unat_fold_step:
  fixes s :: u32
  shows "unat ((s AND 0xFFFF) + drop_bit 16 s) = unat s mod 65536 + unat s div 65536"
proof -
  have "unat s div 65536 < 65536" using unat_bound [of s] by simp
  then show ?thesis by (simp add: unat_word_ariths unat_low_high)
qed

function fold16 :: "u32 \<Rightarrow> u32" where
  "fold16 s = (if drop_bit 16 s \<noteq> 0 then fold16 ((s AND 0xFFFF) + drop_bit 16 s) else s)"
  by pat_completeness auto
termination
proof (relation "measure unat", goal_cases)
  case (2 s)
  then have "0 < unat s div 65536" by (metis unat_gt_0 unat_low_high(2))
  moreover have "unat s = 65536 * (unat s div 65536) + unat s mod 65536" by simp
  ultimately have "unat s mod 65536 + unat s div 65536 < unat s" by linarith
  then show ?case by (simp add: unat_fold_step)
qed simp

declare fold16.simps [simp del]

definition checksum16 :: "u8 list \<Rightarrow> u16" where
  "checksum16 data = ucast (NOT (fold16 (sum16 data 0)))"

subsection \<open>Dotted decimal addresses\<close>

definition octets :: "u32 \<Rightarrow> u8 list" where
  "octets ip = [ucast (drop_bit 24 ip AND 0xFF), ucast (drop_bit 16 ip AND 0xFF), ucast (drop_bit 8 ip AND 0xFF), ucast (ip AND 0xFF)]"

definition format_ip :: "u32 \<Rightarrow> char list \<Rightarrow> nat \<Rightarrow> char list option" where
  "format_ip ip out out_size =
     map_option fst (kvsnprintf out out_size ''%u.%u.%u.%u'' (map (\<lambda>b. VInt (ucast b)) (octets ip)))"

text \<open>The text a 20-byte array holds after \<^verbatim>\<open>format_ip\<close>, as the callers print it with \<^verbatim>\<open>%s\<close>.\<close>

definition ip_text :: "u32 \<Rightarrow> string" where
  "ip_text ip = (case format_ip ip (replicate 20 NUL) 20 of None \<Rightarrow> [] | Some out \<Rightarrow> cstr out)"

fun parse_loop :: "string \<Rightarrow> u32 \<Rightarrow> u32 \<Rightarrow> nat \<Rightarrow> u32 option" where
  "parse_loop [] v octet part = (if part \<noteq> 3 then None else Some (push_bit 8 v OR octet))"
| "parse_loop (c # p) v octet part =
     (if c = NUL then (if part \<noteq> 3 then None else Some (push_bit 8 v OR octet))
      else if 48 \<le> (of_char c :: nat) \<and> (of_char c :: nat) \<le> 57 then
        let octet' = octet * 10 + of_nat (of_char c - 48)
        in if octet' > 255 then None else parse_loop p v octet' part
      else if c = CHR ''.'' then
        if part \<ge> 3 then None else parse_loop p (push_bit 8 v OR octet) 0 (part + 1)
      else None)"

definition parse_ipv4 :: "string option \<Rightarrow> u32 option" where
  "parse_ipv4 text =
     (case text of None \<Rightarrow> None | Some t \<Rightarrow> if char_at t = NUL then None else parse_loop t 0 0 0)"

subsection \<open>The checksum\<close>

text \<open>The reference: the sum of the big-endian 16-bit words, an odd last byte padded with zero.\<close>

fun words_sum :: "u8 list \<Rightarrow> nat" where
  "words_sum (a # b # data) = 256 * unat a + unat b + words_sum data"
| "words_sum [a] = 256 * unat a"
| "words_sum [] = 0"

definition ones_sum :: "nat \<Rightarrow> nat" where
  "ones_sum n = (if n = 0 then 0 else (n - 1) mod 65535 + 1)"

lemma unat_be16:
  fixes a b :: u8
  assumes "16 \<le> LENGTH('b::len)"
  shows "unat (push_bit 8 (ucast a :: 'b word) OR ucast b) = 256 * unat a + unat b"
proof -
  have a: "unat a < 256" and b: "unat b < 256" using unat_bound [of a] unat_bound [of b] by simp_all
  have l: "(65536 :: nat) \<le> 2 ^ LENGTH('b)" using power_increasing [OF assms, of "2 :: nat"] by simp
  have "push_bit 8 (ucast a :: 'b word) AND ucast b = 0"
    by (rule bit_eqI) (auto simp: bit_simps dest: bit_imp_le_length)
  then have "push_bit 8 (ucast a :: 'b word) OR ucast b = push_bit 8 (ucast a) + ucast b"
    by (simp add: disjunctive_add_eq_or)
  moreover have "unat (ucast a :: 'b word) = unat a" "unat (ucast b :: 'b word) = unat b"
    using a b l by (simp_all add: unsigned_ucast_eq take_bit_nat_eq_self_iff)
  moreover have "unat (push_bit 8 (ucast a) :: 'b word) = 256 * unat a"
  proof -
    have "unat (push_bit 8 (ucast a) :: 'b word) = take_bit LENGTH('b) (push_bit 8 (unat (ucast a :: 'b word)))"
      by (rule unsigned_push_bit_eq)
    then show ?thesis using calculation(2) a l by (simp add: push_bit_eq_mult take_bit_eq_mod mult.commute)
  qed
  ultimately show ?thesis using a b l by (simp add: unat_word_ariths)
qed

lemma words_sum_bound: "words_sum data \<le> 65535 * (Suc (length data) div 2)"
proof (induction data rule: words_sum.induct)
  case (1 a b data)
  then show ?case using unat_bound [of a] unat_bound [of b] by simp
next
  case (2 a)
  then show ?case using unat_bound [of a] by simp
qed simp

lemma unat_sum16: "unat s + words_sum data < 2 ^ 32 \<Longrightarrow> unat (sum16 data s) = unat s + words_sum data"
proof (induction data s rule: sum16.induct)
  case (1 a b data s)
  then show ?case by (simp add: unat_word_ariths unat_be16)
next
  case (2 a s)
  then show ?case using unat_be16 [of a 0, where 'b = 32] by (simp add: unat_word_ariths)
qed simp

lemma unat_fold16: "unat (fold16 s) = ones_sum (unat s)"
proof (induction s rule: fold16.induct)
  case (1 s)
  show ?case
  proof (cases "drop_bit 16 s = 0")
    case True
    then have "unat s div 65536 = 0" by (metis unat_0 unat_low_high(2))
    then have "unat s < 65536" by simp
    then show ?thesis using True by (simp add: fold16.simps [of s] ones_sum_def)
  next
    case False
    let ?m = "unat s mod 65536 + unat s div 65536"
    have pos: "0 < unat s div 65536" using False by (metis unat_gt_0 unat_low_high(2))
    have "unat s = 65536 * (unat s div 65536) + unat s mod 65536" by simp
    then have "unat s - 1 = (?m - 1) + unat s div 65536 * 65535" using pos by linarith
    then have "(unat s - 1) mod 65535 = (?m - 1) mod 65535" by (simp only: mod_mult_self1)
    moreover have "0 < unat s" using pos by (metis div_0 gr0I less_numeral_extra(3))
    ultimately show ?thesis
      using 1 [OF False] pos False by (simp add: fold16.simps [of s] unat_fold_step ones_sum_def)
  qed
qed

lemma ones_sum_bound: "ones_sum n \<le> 65535"
proof -
  have "(n - 1) mod 65535 < 65535" by simp
  then have "(n - 1) mod 65535 + 1 \<le> 65535" by linarith
  then show ?thesis unfolding ones_sum_def by (simp only: split: if_split) simp
qed

lemma unat_checksum16:
  assumes "length data \<le> 131070"
  shows "unat (checksum16 data) = 65535 - ones_sum (words_sum data)"
proof -
  have "Suc (length data) div 2 \<le> 65535" using assms by simp
  then have "words_sum data \<le> 65535 * 65535" using words_sum_bound [of data] by (meson le_trans mult_le_mono2)
  then have f: "unat (fold16 (sum16 data 0)) = ones_sum (words_sum data)"
    using unat_sum16 [of 0 data] by (simp add: unat_fold16)
  let ?f = "fold16 (sum16 data 0)"
  have "unat (ucast ?f :: u16) = ones_sum (words_sum data)"
    using f ones_sum_bound [of "words_sum data"] by (simp add: unsigned_ucast_eq take_bit_nat_eq_self_iff)
  moreover have "checksum16 data = NOT (ucast ?f)"
    unfolding checksum16_def by (rule bit_eqI) (auto simp: bit_simps)
  moreover have "unat (NOT w) = 65535 - unat w" for w :: u16
  proof -
    have "NOT w = - 1 - w" by (simp add: not_eq_complement)
    then show ?thesis using unat_bound [of w] by (simp add: unat_sub word_le_nat_alt unsigned_minus_1_eq_mask mask_eq_exp_minus_1)
  qed
  ultimately show ?thesis by simp
qed

lemma words_sum_append: "even (length xs) \<Longrightarrow> words_sum (xs @ ys) = words_sum xs + words_sum ys"
  by (induction xs rule: words_sum.induct) auto

lemma words_sum_be16: "words_sum (be16_bytes v) = unat v"
proof -
  have "unat (drop_bit 8 v AND 0xFF) = unat v div 256" "unat (v AND 0xFF) = unat v mod 256"
  proof -
    have m: "w AND 0xFF = take_bit 8 w" for w :: u16 by (simp add: take_bit_eq_mask mask_numeral)
    have "unat v < 65536" using unat_bound [of v] by simp
    then show "unat (drop_bit 8 v AND 0xFF) = unat v div 256"
      by (simp only: m unsigned_take_bit_eq unat_drop_bit_eq) (simp add: take_bit_eq_mod drop_bit_eq_div)
    show "unat (v AND 0xFF) = unat v mod 256"
      by (simp only: m unsigned_take_bit_eq) (simp add: take_bit_eq_mod)
  qed
  then show ?thesis
    using unat_bound [of v] by (simp add: be16_bytes_def unsigned_ucast_eq take_bit_eq_mod)
qed

lemma put_SomeD:
  assumes "put i bs p = Some q"
  shows "q = take i p @ bs @ drop (i + length bs) p" and "i + length bs \<le> length p" and "length q = length p"
  using assms by (auto simp: put_def split: if_splits)

text \<open>
  C33: The checksum routine computes the one's complement sum of the 16-bit words of any message of up
  to 131070 bytes, whatever the wrap-around of the 32-bit accumulator: the result is 65535 minus
  the sum of the words reduced modulo 65535 (with 65535 standing for a sum that is a nonzero
  multiple of it), and the carry loop ends.
\<close>

theorem checksum16_spec:
  assumes "length data \<le> 131070"
  shows "unat (checksum16 data) = 65535 - ones_sum (words_sum data)"
  by (rule unat_checksum16 [OF assms])

theorem checksum16_spec_witness:
  "unat (checksum16 [0x45, 0, 0, 0x34, 1]) = 65535 - ones_sum (words_sum [0x45, 0, 0, 0x34, 1]) \<and>
   ones_sum (words_sum [0x45, 0, 0, 0x34, 1]) = 0x4634"
  using checksum16_spec [of "[0x45, 0, 0, 0x34, 1]"] by (simp add: ones_sum_def)

text \<open>
  A header that carries its checksum verifies: storing the checksum of a header whose checksum field
  is zero makes the checksum of the whole header zero, which is the test the receive path makes.
\<close>

lemma checksum_stored_verifies:
  assumes "length p \<le> 131070" and "even i" and "slice i 2 p = Some [0, 0]" and "be16_store i (checksum16 p) p = Some q"
  shows "checksum16 q = 0"
proof -
  have q: "q = take i p @ be16_bytes (checksum16 p) @ drop (i + 2) p" "i + 2 \<le> length p" "length q = length p"
    using put_SomeD [of i "be16_bytes (checksum16 p)" p q] assms(4) by (simp_all add: be16_store_def be16_bytes_def)
  have "p = take i p @ [0, 0] @ drop (i + 2) p"
    using assms(3) by (metis append_take_drop_id drop_drop add.commute option.inject slice_def option.distinct(1))
  then have "words_sum p = words_sum (take i p @ [0, 0] @ drop (i + 2) p)" by simp
  then have p: "words_sum p = words_sum (take i p) + words_sum (drop (i + 2) p)"
    using assms(2) q(2) by (simp add: words_sum_append min_def)
  have "words_sum q = words_sum p + unat (checksum16 p)"
    unfolding q(1) using assms(2) q(2) words_sum_be16 [of "checksum16 p"]
    by (simp add: words_sum_append p min_def be16_bytes_def)
  then have s: "words_sum q = words_sum p + (65535 - ones_sum (words_sum p))" using unat_checksum16 [OF assms(1)] by simp
  have "ones_sum (words_sum q) = 65535"
  proof (cases "words_sum p = 0")
    case True
    then show ?thesis using s by (simp add: ones_sum_def)
  next
    case False
    let ?m = "words_sum p - 1"
    obtain d r where dr: "d = ?m div 65535" "r = ?m mod 65535" "r < 65535" "?m = d * 65535 + r" by simp
    then have "words_sum q = words_sum p + (65535 - (r + 1))" using s False by (simp add: ones_sum_def)
    then have "words_sum q - 1 = d * 65535 + 65534" using dr(3,4) False by linarith
    moreover have "words_sum q \<noteq> 0" using s False by simp
    ultimately show ?thesis by (simp add: ones_sum_def)
  qed
  then have "unat (checksum16 q) = 0" using unat_checksum16 [of q] assms(1) q(3) by simp
  then show ?thesis by (simp only: word_unat_eq_iff) simp
qed

subsection \<open>Addresses\<close>

definition is_digits :: "string \<Rightarrow> bool" where
  "is_digits ds \<longleftrightarrow> (\<forall>c \<in> set ds. 48 \<le> (of_char c :: nat) \<and> (of_char c :: nat) \<le> 57)"

lemma parse_loop_digits:
  assumes "is_digits ds" and "foldl (\<lambda>n c. 10 * n + (of_char c - 48)) n ds \<le> 255"
  shows "parse_loop (ds @ p) v (of_nat n) part = parse_loop p v (of_nat (foldl (\<lambda>n c. 10 * n + (of_char c - 48)) n ds)) part"
  using assms
proof (induction ds arbitrary: n)
  case (Cons c ds)
  let ?f = "\<lambda>n c. 10 * n + (of_char c - 48) :: nat"
  have mono: "m \<le> foldl ?f m ds" for m ds
  proof (induction ds arbitrary: m)
    case (Cons d ds)
    have "m \<le> ?f m d" by simp
    also have "\<dots> \<le> foldl ?f (?f m d) ds" by (rule Cons)
    finally show ?case by simp
  qed simp
  let ?m = "?f n c"
  have m: "?m \<le> 255" using Cons.prems(2) mono [of ?m ds] by simp
  have c: "c \<noteq> NUL" "48 \<le> (of_char c :: nat)" "(of_char c :: nat) \<le> 57" using Cons.prems(1) by (auto simp: is_digits_def)
  have e: "of_nat n * 10 + of_nat (of_char c - 48) = (of_nat ?m :: u32)" by simp
  have "\<not> (of_nat k :: u32) > 255" if "k \<le> 255" for k
    using that by (simp add: word_less_nat_alt unat_of_nat take_bit_nat_eq_self)
  from this [OF m] have "\<not> (of_nat ?m :: u32) > 255" .
  then have "parse_loop ((c # ds) @ p) v (of_nat n) part = parse_loop (ds @ p) v (of_nat ?m) part"
    using c by (simp only: append_Cons parse_loop.simps Let_def e if_False if_True HOL.simp_thms)
  then show ?case using Cons.IH [of ?m] Cons.prems by (simp add: is_digits_def)
qed simp

lemma is_digits_temp: "is_digits (rev (temp_digits v 10 up))"
proof (induction v "10 :: nat" up rule: temp_digits.induct)
  case (1 v up)
  then show ?case
    using digit_table_nth [of "unat v mod 10" up] by (subst temp_digits.simps) (auto simp: is_digits_def)
qed

lemma parse_loop_utext:
  fixes b :: u8
  shows "parse_loop (utext (ucast b) 10 False @ p) v 0 part = parse_loop p v (ucast b) part"
proof -
  have b: "unat (ucast b :: u64) = unat b" "unat b \<le> 255" using unat_bound [of b] by (simp_all add: unsigned_ucast_eq take_bit_nat_eq_self)
  have u: "(of_nat (unat b) :: u32) = ucast b" by simp
  show ?thesis
  proof (cases "(ucast b :: u64) = 0")
    case True
    then have "unat b = 0" using b(1) by simp
    then show ?thesis using True u by (simp add: utext_def)
  next
    case False
    have "foldl (\<lambda>n c. 10 * n + (of_char c - 48)) 0 (utext (ucast b) 10 False) = unat b"
      using dec_value_temp_digits [of "ucast b" False] False b(1) by (simp add: utext_def)
    then show ?thesis
      using parse_loop_digits [of "utext (ucast b) 10 False" 0 p v part] is_digits_temp [of "ucast b" False] False b(2) u
      by (simp add: utext_def)
  qed
qed

lemma octets_join:
  "push_bit 8 (push_bit 8 (push_bit 8 (ucast (octets ip ! 0)) OR ucast (octets ip ! 1)) OR ucast (octets ip ! 2)) OR ucast (octets ip ! 3) = ip"
proof (rule bit_eqI)
  fix n assume "possible_bit TYPE(u32) n"
  then have n: "n < 32" by simp
  have m: "(0xFF :: u32) = mask 8" by (simp add: mask_numeral)
  have o: "bit (w AND 0xFF) k \<longleftrightarrow> k < 8 \<and> bit w k" for w :: u32 and k
    unfolding m by (simp only: bit_and_iff bit_mask_iff possible_bit_word) (auto dest: bit_imp_le_length)
  have d: "k \<le> n \<Longrightarrow> bit (drop_bit k ip) (n - k) = bit ip n" for k by (simp only: bit_drop_bit_eq comp_def) simp
  consider "n < 8" | "8 \<le> n" "n < 16" | "16 \<le> n" "n < 24" | "24 \<le> n" using n by linarith
  then show "bit (push_bit 8 (push_bit 8 (push_bit 8 (ucast (octets ip ! 0)) OR ucast (octets ip ! 1)) OR ucast (octets ip ! 2)) OR ucast (octets ip ! 3) :: u32) n
      = bit ip n"
    by cases (use n in \<open>auto simp: octets_def bit_or_iff bit_push_bit_iff bit_unsigned_iff o d\<close>)
qed

lemma utext_octet:
  fixes b :: u8
  defines "t \<equiv> utext (ucast b) 10 False"
  shows "t \<noteq> []" and "NUL \<notin> set t" and "length t \<le> 3"
proof -
  show "t \<noteq> []" by (auto simp: t_def utext_def temp_digits.simps word_unat_eq_iff)
  show "NUL \<notin> set t" using is_digits_temp [of "ucast b" False] by (auto simp: t_def utext_def is_digits_def)
  have "unat (ucast b :: u64) < 10 ^ 3" using unat_bound [of b] by (simp add: unsigned_ucast_eq take_bit_nat_eq_self)
  then show "length t \<le> 3" using temp_digits_length [of 10 "ucast b" 3 False] by (simp add: t_def utext_def)
qed

definition dotted :: "u32 \<Rightarrow> string" where
  "dotted ip = (let t = (\<lambda>k. utext (ucast (octets ip ! k)) 10 False) in t 0 @ ''.'' @ t 1 @ ''.'' @ t 2 @ ''.'' @ t 3)"

lemma dotted_props: "dotted ip \<noteq> []" "NUL \<notin> set (dotted ip)" "length (dotted ip) \<le> 15"
  using utext_octet [of "octets ip ! 0"] utext_octet [of "octets ip ! 1"] utext_octet [of "octets ip ! 2"] utext_octet [of "octets ip ! 3"]
  by (auto simp: dotted_def Let_def)

lemma format_ip_dotted:
  assumes "length out = 20"
  shows "format_ip ip out 20 = Some (dotted ip @ NUL # drop (Suc (length (dotted ip))) out)"
proof -
  have "printf_text ''%u.%u.%u.%u'' (map (\<lambda>b. VInt (ucast b)) (octets ip)) = Some (dotted ip)"
    by (simp add: octets_def dotted_def Let_def)
  then show ?thesis
    using finish_emit [of 20 out "dotted ip"] dotted_props(3) [of ip] assms
    by (simp add: format_ip_def kvsnprintf_def kvsnprintf_loop_emit min_def)
qed

lemma parse_dotted: "parse_loop (dotted ip @ NUL # rest) 0 0 0 = Some ip"
proof -
  have "parse_loop (dotted ip @ NUL # rest) 0 0 0 =
    Some (push_bit 8 (push_bit 8 (push_bit 8 (push_bit 8 0 OR ucast (octets ip ! 0)) OR ucast (octets ip ! 1)) OR ucast (octets ip ! 2)) OR ucast (octets ip ! 3))"
    unfolding dotted_def Let_def append_assoc parse_loop_utext by (simp add: parse_loop_utext)
  then show ?thesis using octets_join [of ip] by simp
qed

text \<open>
  C34: Formatting an address and parsing the text gives the address back: for every address and every
  20-byte array, \<^verbatim>\<open>format_ip\<close> leaves a terminated text that fits, and \<^verbatim>\<open>parse_ipv4\<close> of it returns the
  same 32-bit value.
\<close>

theorem parse_format_ip:
  assumes "length out = 20"
  shows "\<exists>out'. format_ip ip out 20 = Some out' \<and> length out' = 20 \<and> NUL \<in> set out' \<and> parse_ipv4 (Some out') = Some ip"
proof -
  let ?o = "dotted ip @ NUL # drop (Suc (length (dotted ip))) out"
  have "char_at ?o \<noteq> NUL" using dotted_props(1,2) [of ip] by (cases "dotted ip") (auto simp: char_at_def)
  then have "parse_ipv4 (Some ?o) = Some ip" by (simp add: parse_ipv4_def parse_dotted)
  then show ?thesis using format_ip_dotted [OF assms] dotted_props(3) [of ip] assms by simp
qed

theorem parse_format_ip_witness:
  "\<exists>out'. format_ip 0x0A00020F (replicate 20 NUL) 20 = Some out' \<and> parse_ipv4 (Some out') = Some 0x0A00020F"
  using parse_format_ip [of "replicate 20 NUL" "0x0A00020F"] by auto

text \<open>The parser accepts empty octets: three dots alone are read as the address 0.0.0.0.\<close>

lemma parse_ipv4_empty_octets: "parse_ipv4 (Some ''...'') = Some 0"
  by (simp add: parse_ipv4_def char_at_def)

end
