(* ===== verification/Vmm.thy ===== *)
theory Vmm
  imports Console
begin

text \<open>
  Model of \<^verbatim>\<open>src/kernel/vmm.c\<close> and the address space structure of \<^verbatim>\<open>include/mgcore/vmm.h\<close>. The pointer
  \<^verbatim>\<open>space\<close> is never \<^verbatim>\<open>NULL\<close> in the kernel: every caller passes the address space of a task.
\<close>

record address_space =
  brk_base :: u64
  brk_current :: u64
  next_mmap_base :: u64

definition vmm_init :: "con_call list" where
  "vmm_init = [Writeln ''vmm: bootstrap identity mapping active'' []]"

definition vmm_address_space_init :: address_space where
  "vmm_address_space_init =
     \<lparr>brk_base = 0x800000, brk_current = 0x800000, next_mmap_base = 0x20000000\<rparr>"

definition page_align_up :: "u64 \<Rightarrow> u64" where
  "page_align_up n = (n + 4096 - 1) AND NOT (4096 - 1)"

definition vmm_reserve_range :: "u64 \<Rightarrow> int \<Rightarrow> address_space \<Rightarrow> u64 \<times> address_space" where
  "vmm_reserve_range n prot sp =
     (let aligned_length = page_align_up n
      in if aligned_length = 0 then (0, sp)
         else (next_mmap_base sp, sp\<lparr>next_mmap_base := next_mmap_base sp + (aligned_length + 4096)\<rparr>))"

definition vmm_map_anonymous :: "u64 \<Rightarrow> u64 \<Rightarrow> int \<Rightarrow> address_space \<Rightarrow> int \<times> address_space" where
  "vmm_map_anonymous address n prot sp = (0, sp)"

definition vmm_unmap :: "u64 \<Rightarrow> u64 \<Rightarrow> address_space \<Rightarrow> int \<times> address_space" where
  "vmm_unmap address n sp = (0, sp)"

subsection \<open>Lemmas\<close>

lemma unat_page_align_up:
  assumes "unat n + 4095 < 2 ^ 64"
  shows "unat (page_align_up n) = (unat n + 4095) div 4096 * 4096"
proof -
  have "page_align_up n = (n + 4095) AND NOT (mask 12)"
    by (simp add: page_align_up_def mask_eq_exp_minus_1 add_diff_eq [symmetric])
  then show ?thesis using assms by (simp add: unat_and_not_mask unat_word_ariths)
qed

lemma page_round_bounds: "n \<le> (n + 4095) div 4096 * 4096" for n :: nat
  using div_mult_mod_eq [of "n + 4095" 4096] mod_less_divisor [of 4096 "n + 4095"] by linarith

text \<open>
  The bound on the request under which the arithmetic of \<^verbatim>\<open>vmm_reserve_range\<close> is exact: the end of the
  region and its guard page stay below \<open>2 ^ 64\<close>.
\<close>

definition fits_space :: "u64 \<Rightarrow> address_space \<Rightarrow> bool" where
  "fits_space n sp \<longleftrightarrow> unat (next_mmap_base sp) + unat n + 8192 < 2 ^ 64"

lemma vmm_reserve_range_step:
  assumes "fits_space n sp" and "0 < n" and "vmm_reserve_range n prot sp = (a, sp')"
  shows "a = next_mmap_base sp" and "unat a + unat n + 4096 \<le> unat (next_mmap_base sp')"
    and "4096 dvd unat (next_mmap_base sp) \<Longrightarrow> 4096 dvd unat (next_mmap_base sp')"
proof -
  define al where "al = (unat n + 4095) div 4096 * 4096"
  have u: "unat (page_align_up n) = al"
    using assms(1) by (simp add: fits_space_def al_def unat_page_align_up)
  have b: "unat n \<le> al" "al \<le> unat n + 4095" "4096 dvd al"
    using page_round_bounds by (auto simp: al_def)
  have "0 < unat n" using assms(2) by (simp add: word_less_nat_alt)
  then have nz: "page_align_up n \<noteq> 0" using u b(1) by (metis less_le_trans not_less0 unat_eq_zero)
  then have r: "a = next_mmap_base sp" "next_mmap_base sp' = next_mmap_base sp + (page_align_up n + 4096)"
    using assms(3) by (auto simp: vmm_reserve_range_def Let_def)
  have "unat (page_align_up n + 4096) = al + 4096"
    using assms(1) b(2) by (simp add: fits_space_def unat_word_ariths u)
  then have e: "unat (next_mmap_base sp') = unat (next_mmap_base sp) + (al + 4096)"
    using assms(1) b(2) by (simp add: fits_space_def r unat_word_ariths)
  show "a = next_mmap_base sp" "unat a + unat n + 4096 \<le> unat (next_mmap_base sp')"
    using r e b(1) by simp_all
  show "4096 dvd unat (next_mmap_base sp')" if "4096 dvd unat (next_mmap_base sp)"
    using that e b(3) by simp
qed

subsection \<open>Properties\<close>

text \<open>
  two successive reservations that fit the 64-bit space give non-empty regions that are page
  aligned and separated by at least one unmapped guard page.
\<close>

lemma vmm_reserve_disjoint:
  assumes "4096 dvd unat (next_mmap_base sp)"
    and "fits_space n sp" and "0 < n" and "vmm_reserve_range n p sp = (a, sp1)"
    and "fits_space m sp1" and "0 < m" and "vmm_reserve_range m q sp1 = (b, sp2)"
  shows "4096 dvd unat a \<and> 4096 dvd unat b \<and> unat a + unat n + 4096 \<le> unat b"
  using vmm_reserve_range_step [OF assms(2-4)] vmm_reserve_range_step [OF assms(5-7)] assms(1) by simp

end
