(* ===== verification/Task.thy ===== *)
theory Task
  imports Vmm Console
begin

text \<open>
  Model of \<^verbatim>\<open>src/kernel/task.c\<close> and \<^verbatim>\<open>include/mgcore/task.h\<close>: the table of 32 tasks and the round robin
  choice of the next task. A \<^verbatim>\<open>task *\<close> is the index of its slot. The character arrays \<^verbatim>\<open>name\<close> and
  \<^verbatim>\<open>cwd\<close> are represented by the C string they hold (\<open>bounded_name_eq\<close> relates this to \<^verbatim>\<open>kstrncpy\<close>). Process
  ids are integers: at most 32 are ever given out (\<open>task_reachable_inv\<close>), so they do not overflow.
  Operations that print also return their console calls.
\<close>

datatype task_state = TASK_UNUSED | TASK_RUNNABLE | TASK_RUNNING | TASK_SLEEPING | TASK_ZOMBIE

definition MGCORE_MAX_TASKS :: nat where "MGCORE_MAX_TASKS = 32"
definition MGCORE_MAX_FDS :: nat where "MGCORE_MAX_FDS = 32"

record task =
  t_pid :: int
  t_ppid :: int
  t_state :: task_state
  t_name :: string
  t_runtime_ticks :: u64
  t_wakeup_tick :: u64
  t_exit_code :: int
  t_mm :: address_space
  t_fds :: "nat option list"
  t_cwd :: string

record task_table =
  g_tasks :: "task list"
  g_next_pid :: int
  g_current_index :: nat
  g_task_count :: nat

definition upd_task :: "nat \<Rightarrow> (task \<Rightarrow> task) \<Rightarrow> task_table \<Rightarrow> task_table" where
  "upd_task i f tt = tt\<lparr>g_tasks := (g_tasks tt)[i := f (g_tasks tt ! i)]\<rparr>"

definition tstate :: "task_table \<Rightarrow> nat \<Rightarrow> task_state" where
  "tstate tt i = t_state (g_tasks tt ! i)"

definition bounded_name :: "nat \<Rightarrow> string \<Rightarrow> string" where
  "bounded_name n s = take n (cstr s)"

definition task_alloc :: "string \<times> task_state \<Rightarrow> task_table \<Rightarrow> (nat \<times> task_table) option" where
  "task_alloc arg tt = (case arg of (nm, st) \<Rightarrow>
     (case scan_from (\<lambda>i. tstate tt i = TASK_UNUSED) 0 MGCORE_MAX_TASKS of
        None \<Rightarrow> None
      | Some i \<Rightarrow>
          Some (i, (upd_task i (\<lambda>e. e\<lparr>t_pid := g_next_pid tt, t_ppid := 0, t_state := st, t_runtime_ticks := 0,
                      t_wakeup_tick := 0, t_exit_code := 0, t_name := bounded_name 31 nm, t_cwd := ''/'',
                      t_mm := vmm_address_space_init\<rparr>) tt)
                   \<lparr>g_next_pid := g_next_pid tt + 1, g_task_count := g_task_count tt + 1\<rparr>)))"

definition zero_task :: task where
  "zero_task = \<lparr>t_pid = 0, t_ppid = 0, t_state = TASK_UNUSED, t_name = [], t_runtime_ticks = 0,
     t_wakeup_tick = 0, t_exit_code = 0, t_mm = \<lparr>brk_base = 0, brk_current = 0, next_mmap_base = 0\<rparr>,
     t_fds = replicate MGCORE_MAX_FDS None, t_cwd = []\<rparr>"

definition task_init :: "task_table \<Rightarrow> task_table" where
  "task_init tt =
     (let tt1 = tt\<lparr>g_tasks := replicate MGCORE_MAX_TASKS zero_task, g_current_index := 0, g_task_count := 0\<rparr>
      in case task_alloc (''bootstrap'', TASK_RUNNING) tt1 of None \<Rightarrow> tt1 | Some (i, tt2) \<Rightarrow> tt2)"

definition task_current :: "task_table \<Rightarrow> task" where
  "task_current tt = g_tasks tt ! g_current_index tt"

definition task_create_kernel :: "string \<Rightarrow> task_table \<Rightarrow> (nat \<times> task_table) option" where
  "task_create_kernel nm tt = task_alloc (nm, TASK_RUNNABLE) tt"

definition task_spawn_user :: "string \<Rightarrow> task_table \<Rightarrow> (nat \<times> task_table) option" where
  "task_spawn_user nm tt =
     (case task_alloc (nm, TASK_RUNNABLE) tt of
        None \<Rightarrow> None
      | Some (child, tt1) \<Rightarrow> Some (child, upd_task child (\<lambda>e. e\<lparr>t_ppid := t_pid (task_current tt1)\<rparr>) tt1))"

definition task_find :: "int \<Rightarrow> task_table \<Rightarrow> nat option" where
  "task_find p tt =
     scan_from (\<lambda>i. tstate tt i \<noteq> TASK_UNUSED \<and> t_pid (g_tasks tt ! i) = p) 0 MGCORE_MAX_TASKS"

definition task_current_pid :: "task_table \<Rightarrow> int" where
  "task_current_pid tt = t_pid (task_current tt)"

definition task_exit :: "int \<Rightarrow> task_table \<Rightarrow> task_table" where
  "task_exit status tt = upd_task (g_current_index tt) (\<lambda>e. e\<lparr>t_state := TASK_ZOMBIE, t_exit_code := status\<rparr>) tt"

definition task_kill :: "int \<Rightarrow> int \<Rightarrow> task_table \<Rightarrow> bool \<times> task_table" where
  "task_kill p status tt =
     (case task_find p tt of
        None \<Rightarrow> (False, tt)
      | Some v \<Rightarrow>
          if tstate tt v = TASK_UNUSED \<or> tstate tt v = TASK_ZOMBIE then (False, tt)
          else (True, upd_task v (\<lambda>e. e\<lparr>t_state := TASK_ZOMBIE, t_exit_code := status\<rparr>) tt))"

definition task_sleep_until :: "u64 \<Rightarrow> task_table \<Rightarrow> task_table" where
  "task_sleep_until tick tt =
     upd_task (g_current_index tt) (\<lambda>e. e\<lparr>t_state := TASK_SLEEPING, t_wakeup_tick := tick\<rparr>) tt"

subsection \<open>The tick of the scheduler\<close>

definition demote_current :: "task_table \<Rightarrow> task_table" where
  "demote_current tt =
     (if t_state (task_current tt) = TASK_RUNNING
      then upd_task (g_current_index tt)
             (\<lambda>e. e\<lparr>t_runtime_ticks := t_runtime_ticks e + 1, t_state := TASK_RUNNABLE\<rparr>) tt
      else tt)"

definition wake_task :: "u64 \<Rightarrow> task \<Rightarrow> task" where
  "wake_task now e =
     (if t_state e = TASK_SLEEPING \<and> t_wakeup_tick e \<le> now then e\<lparr>t_state := TASK_RUNNABLE\<rparr> else e)"

fun wake_loop :: "u64 \<Rightarrow> nat \<Rightarrow> task_table \<Rightarrow> task_table" where
  "wake_loop now 0 tt = tt"
| "wake_loop now (Suc n) tt = wake_loop now n (upd_task (MGCORE_MAX_TASKS - Suc n) (wake_task now) tt)"

definition candidate :: "task_table \<Rightarrow> nat \<Rightarrow> nat" where
  "candidate tt i = (g_current_index tt + 1 + i) mod MGCORE_MAX_TASKS"

definition task_scheduler_tick :: "u64 \<Rightarrow> task_table \<Rightarrow> task_table" where
  "task_scheduler_tick now tt =
     (let tt1 = wake_loop now MGCORE_MAX_TASKS (demote_current tt);
          next_i = (case scan_from (\<lambda>i. tstate tt1 (candidate tt1 i) = TASK_RUNNABLE) 0 MGCORE_MAX_TASKS of
                      None \<Rightarrow> g_current_index tt
                    | Some i \<Rightarrow> candidate tt1 i);
          tt2 = tt1\<lparr>g_current_index := next_i\<rparr>
      in if tstate tt2 next_i = TASK_RUNNABLE
         then upd_task next_i (\<lambda>e. e\<lparr>t_state := TASK_RUNNING\<rparr>) tt2
         else tt2)"

subsection \<open>Memory accounting and listing\<close>

definition task_estimated_pages :: "task \<Rightarrow> u64" where
  "task_estimated_pages e =
     (let mmap_base_start = 0x20000000;
          brk_bytes = (if brk_current (t_mm e) > brk_base (t_mm e) then brk_current (t_mm e) - brk_base (t_mm e) else 0);
          mmap_bytes = (if next_mmap_base (t_mm e) > mmap_base_start then next_mmap_base (t_mm e) - mmap_base_start else 0)
      in (brk_bytes + mmap_bytes + 4096 - 1) div 4096)"

fun leaker_loop :: "task list \<Rightarrow> u64 \<Rightarrow> int \<Rightarrow> int" where
  "leaker_loop [] worst_pages worst_pid = worst_pid"
| "leaker_loop (e # es) worst_pages worst_pid =
     (if t_state e = TASK_UNUSED \<or> t_state e = TASK_ZOMBIE then leaker_loop es worst_pages worst_pid
      else if t_ppid e = 0 then leaker_loop es worst_pages worst_pid
      else if task_estimated_pages e > worst_pages then leaker_loop es (task_estimated_pages e) (t_pid e)
      else leaker_loop es worst_pages worst_pid)"

definition task_find_likely_memory_leaker :: "task_table \<Rightarrow> int" where
  "task_find_likely_memory_leaker tt = leaker_loop (g_tasks tt) 0 0"

definition state_name :: "task_state \<Rightarrow> string" where
  "state_name st = (case st of TASK_RUNNABLE \<Rightarrow> ''ready'' | TASK_RUNNING \<Rightarrow> ''run''
     | TASK_SLEEPING \<Rightarrow> ''sleep'' | TASK_ZOMBIE \<Rightarrow> ''zombie'' | TASK_UNUSED \<Rightarrow> ''unused'')"

definition task_dump :: "task_table \<Rightarrow> con_call list" where
  "task_dump tt =
     Writeln ''pid  ppid state     ticks name'' [] #
     map (\<lambda>e. Printf (''%u    %u    %s    %u   %s'' @ [CHR 0x0A])
                [vunsigned (word_of_int (t_pid e)), vunsigned (word_of_int (t_ppid e)),
                 VStr (Some (state_name (t_state e))), vunsigned (t_runtime_ticks e), VStr (Some (t_name e))])
       (filter (\<lambda>e. t_state e \<noteq> TASK_UNUSED) (g_tasks tt))"

subsection \<open>Lemmas\<close>

lemma bounded_name_eq:
  assumes "length dst = Suc n"
  shows "\<exists>b. kstrncpy dst s n = Some b \<and> cstr (b[n := NUL]) = bounded_name n s"
proof -
  let ?b = "take n (cstr s @ replicate n NUL) @ drop n dst"
  have k: "kstrncpy dst s n = Some ?b" using assms by (simp add: kstrncpy_eq)
  have d: "\<exists>x. drop n dst = [x]" using assms by (cases "drop n dst") (auto dest: arg_cong [of _ _ length])
  have l: "length (take n (cstr s @ replicate n NUL)) = n" by simp
  have u: "?b[n := NUL] = take n (cstr s @ replicate n NUL) @ [NUL]"
    using d l by (metis list_update_length)
  have "cstr (take n (cstr s @ replicate n NUL) @ [NUL]) = take n (cstr s)"
  proof (cases "length (cstr s) < n")
    case True
    then show ?thesis
      by (cases "n - length (cstr s)") (auto simp: take_replicate)
  next
    case False
    moreover have "NUL \<notin> set (take n (cstr s))" using in_set_takeD NUL_notin_cstr by metis
    ultimately show ?thesis by simp
  qed
  then show ?thesis using k u by (simp add: bounded_name_def)
qed

lemma upd_task_sel [simp]:
  "length (g_tasks (upd_task i f tt)) = length (g_tasks tt)"
  "g_current_index (upd_task i f tt) = g_current_index tt"
  "g_next_pid (upd_task i f tt) = g_next_pid tt"
  "g_task_count (upd_task i f tt) = g_task_count tt"
  "j < length (g_tasks tt) \<Longrightarrow>
     g_tasks (upd_task i f tt) ! j = (if j = i then f (g_tasks tt ! i) else g_tasks tt ! j)"
  by (auto simp: upd_task_def)

lemma tstate_upd [simp]:
  "j < length (g_tasks tt) \<Longrightarrow>
     tstate (upd_task i f tt) j = (if j = i then t_state (f (g_tasks tt ! i)) else tstate tt j)"
  by (simp add: tstate_def)

lemma tstate_cong [simp]:
  "tstate (tt\<lparr>g_current_index := k\<rparr>) i = tstate tt i" "tstate (tt\<lparr>g_next_pid := p\<rparr>) i = tstate tt i"
  "tstate (tt\<lparr>g_task_count := n\<rparr>) i = tstate tt i"
  by (simp_all add: tstate_def)

lemma wake_loop_sel:
  "length (g_tasks (wake_loop now n tt)) = length (g_tasks tt) \<and>
   g_current_index (wake_loop now n tt) = g_current_index tt \<and>
   g_next_pid (wake_loop now n tt) = g_next_pid tt \<and> g_task_count (wake_loop now n tt) = g_task_count tt"
  by (induction n arbitrary: tt) simp_all

lemma wake_loop_nth:
  "n \<le> MGCORE_MAX_TASKS \<Longrightarrow> length (g_tasks tt) = MGCORE_MAX_TASKS \<Longrightarrow> j < MGCORE_MAX_TASKS \<Longrightarrow>
   g_tasks (wake_loop now n tt) ! j =
     (if MGCORE_MAX_TASKS - n \<le> j then wake_task now (g_tasks tt ! j) else g_tasks tt ! j)"
proof (induction n arbitrary: tt)
  case (Suc n)
  have "MGCORE_MAX_TASKS - Suc n < MGCORE_MAX_TASKS - n" using Suc.prems(1) by simp
  moreover have "j = MGCORE_MAX_TASKS - Suc n \<or> j < MGCORE_MAX_TASKS - Suc n \<or> MGCORE_MAX_TASKS - n \<le> j"
    using Suc.prems(1) by linarith
  ultimately show ?case using Suc by auto
qed auto

definition used :: "task_table \<Rightarrow> nat set" where
  "used tt = {i. i < MGCORE_MAX_TASKS \<and> tstate tt i \<noteq> TASK_UNUSED}"

text \<open>
  The invariant of the table: one running task at most, in the current slot; the current slot holds a
  task and that task is never merely ready; process ids of the used slots are positive and pairwise
  different; the counters agree with the table.
\<close>

definition task_inv :: "task_table \<Rightarrow> bool" where
  "task_inv tt \<longleftrightarrow>
     length (g_tasks tt) = MGCORE_MAX_TASKS \<and> g_current_index tt < MGCORE_MAX_TASKS \<and>
     (\<forall>i<MGCORE_MAX_TASKS. tstate tt i = TASK_RUNNING \<longrightarrow> i = g_current_index tt) \<and>
     tstate tt (g_current_index tt) \<noteq> TASK_UNUSED \<and> tstate tt (g_current_index tt) \<noteq> TASK_RUNNABLE \<and>
     (\<forall>i\<in>used tt. 0 < t_pid (g_tasks tt ! i) \<and> t_pid (g_tasks tt ! i) < g_next_pid tt) \<and>
     inj_on (\<lambda>i. t_pid (g_tasks tt ! i)) (used tt) \<and>
     g_task_count tt = card (used tt) \<and> g_next_pid tt = int (g_task_count tt) + 1"

lemma task_invD:
  assumes "task_inv tt"
  shows "length (g_tasks tt) = MGCORE_MAX_TASKS" "g_current_index tt < MGCORE_MAX_TASKS"
    "i < MGCORE_MAX_TASKS \<Longrightarrow> tstate tt i = TASK_RUNNING \<Longrightarrow> i = g_current_index tt"
    "tstate tt (g_current_index tt) \<noteq> TASK_UNUSED" "tstate tt (g_current_index tt) \<noteq> TASK_RUNNABLE"
    "i \<in> used tt \<Longrightarrow> 0 < t_pid (g_tasks tt ! i)" "i \<in> used tt \<Longrightarrow> t_pid (g_tasks tt ! i) < g_next_pid tt"
    "inj_on (\<lambda>i. t_pid (g_tasks tt ! i)) (used tt)"
    "g_task_count tt = card (used tt)" "g_next_pid tt = int (g_task_count tt) + 1"
  using assms unfolding task_inv_def by blast+

text \<open>An update that keeps process ids and the use of slots keeps the part of the invariant about them.\<close>

lemma task_inv_update:
  assumes "task_inv tt"
    and "length (g_tasks tt') = MGCORE_MAX_TASKS" "g_next_pid tt' = g_next_pid tt" "g_task_count tt' = g_task_count tt"
    and "\<And>i. i < MGCORE_MAX_TASKS \<Longrightarrow> t_pid (g_tasks tt' ! i) = t_pid (g_tasks tt ! i) \<and>
           (tstate tt' i = TASK_UNUSED \<longleftrightarrow> tstate tt i = TASK_UNUSED)"
    and "g_current_index tt' < MGCORE_MAX_TASKS"
    and "\<And>i. i < MGCORE_MAX_TASKS \<Longrightarrow> tstate tt' i = TASK_RUNNING \<Longrightarrow> i = g_current_index tt'"
    and "tstate tt' (g_current_index tt') \<noteq> TASK_UNUSED" "tstate tt' (g_current_index tt') \<noteq> TASK_RUNNABLE"
  shows "task_inv tt'"
proof -
  have u: "used tt' = used tt" using assms(5) by (auto simp: used_def)
  have p: "t_pid (g_tasks tt' ! i) = t_pid (g_tasks tt ! i)" if "i \<in> used tt" for i
    using that assms(5) by (simp add: used_def)
  have "inj_on (\<lambda>i. t_pid (g_tasks tt' ! i)) (used tt)"
    using task_invD(8) [OF assms(1)] p by (simp add: inj_on_def)
  then show ?thesis
    using assms(2-4,6-9) task_invD(6-10) [OF assms(1)] p by (simp add: task_inv_def u)
qed

lemma upd_task_inv [invariants]:
  assumes "task_inv tt" and "\<And>e. t_pid (f e) = t_pid e" and "\<And>e. t_state (f e) = t_state e"
  shows "task_inv (upd_task i f tt)"
  by (rule task_inv_update [OF assms(1)])
    (use task_invD [OF assms(1)] assms(2,3) in \<open>auto simp: tstate_def split: if_splits\<close>)

subsection \<open>Allocation of slots\<close>

lemma task_alloc_SomeD:
  assumes "task_inv tt" and "task_alloc (nm, st) tt = Some (i, tt')"
  shows "i < MGCORE_MAX_TASKS" "tstate tt i = TASK_UNUSED" "\<And>j. j < i \<Longrightarrow> tstate tt j \<noteq> TASK_UNUSED"
    "length (g_tasks tt') = MGCORE_MAX_TASKS" "g_current_index tt' = g_current_index tt"
    "g_next_pid tt' = g_next_pid tt + 1" "g_task_count tt' = g_task_count tt + 1"
    "t_pid (g_tasks tt' ! i) = g_next_pid tt" "t_ppid (g_tasks tt' ! i) = 0" "tstate tt' i = st"
    "t_mm (g_tasks tt' ! i) = vmm_address_space_init" "t_cwd (g_tasks tt' ! i) = ''/''"
    "t_name (g_tasks tt' ! i) = bounded_name 31 nm" "t_fds (g_tasks tt' ! i) = t_fds (g_tasks tt ! i)"
    "\<And>j. j < MGCORE_MAX_TASKS \<Longrightarrow> j \<noteq> i \<Longrightarrow> g_tasks tt' ! j = g_tasks tt ! j"
proof -
  have s: "scan_from (\<lambda>i. tstate tt i = TASK_UNUSED) 0 MGCORE_MAX_TASKS = Some i"
    using assms(2) by (auto simp: task_alloc_def split: option.splits)
  note d = scan_from_SomeD [OF s]
  show i: "i < MGCORE_MAX_TASKS" and "tstate tt i = TASK_UNUSED"
    and "\<And>j. j < i \<Longrightarrow> tstate tt j \<noteq> TASK_UNUSED" using d by auto
  note l = task_invD(1) [OF assms(1)]
  show "length (g_tasks tt') = MGCORE_MAX_TASKS" "g_current_index tt' = g_current_index tt"
    "g_next_pid tt' = g_next_pid tt + 1" "g_task_count tt' = g_task_count tt + 1"
    "t_pid (g_tasks tt' ! i) = g_next_pid tt" "t_ppid (g_tasks tt' ! i) = 0" "tstate tt' i = st"
    "t_mm (g_tasks tt' ! i) = vmm_address_space_init" "t_cwd (g_tasks tt' ! i) = ''/''"
    "t_name (g_tasks tt' ! i) = bounded_name 31 nm" "t_fds (g_tasks tt' ! i) = t_fds (g_tasks tt ! i)"
    "\<And>j. j < MGCORE_MAX_TASKS \<Longrightarrow> j \<noteq> i \<Longrightarrow> g_tasks tt' ! j = g_tasks tt ! j"
    using assms(2) s i l by (auto simp: task_alloc_def tstate_def)
qed

lemma task_alloc_None_iff:
  "task_alloc (nm, st) tt = None \<longleftrightarrow> (\<forall>i<MGCORE_MAX_TASKS. tstate tt i \<noteq> TASK_UNUSED)"
proof -
  have "task_alloc (nm, st) tt = None \<longleftrightarrow> scan_from (\<lambda>i. tstate tt i = TASK_UNUSED) 0 MGCORE_MAX_TASKS = None"
    by (simp add: task_alloc_def split: option.splits)
  then show ?thesis by (simp add: scan_from_None_iff)
qed

lemma task_alloc_used:
  assumes "task_inv tt" and "task_alloc (nm, st) tt = Some (i, tt')" and "st \<noteq> TASK_UNUSED"
  shows "used tt' = insert i (used tt)" "i \<notin> used tt"
proof -
  note d = task_alloc_SomeD [OF assms(1,2)]
  have "tstate tt' j = tstate tt j" if "j < MGCORE_MAX_TASKS" "j \<noteq> i" for j
    using d(15) that by (simp add: tstate_def)
  then show "used tt' = insert i (used tt)" using d(1,10) assms(3) unfolding used_def by (auto, metis+)
  show "i \<notin> used tt" using d(2) by (simp add: used_def)
qed

lemma task_alloc_inv:
  assumes "task_inv tt" and al: "task_alloc (nm, st) tt = Some (i, tt')" and st: "st = TASK_RUNNABLE \<or> st = TASK_SLEEPING"
  shows "task_inv tt'"
proof -
  note d = task_alloc_SomeD [OF assms(1) al] and iv = task_invD [OF assms(1)]
  have u: "used tt' = insert i (used tt)" "i \<notin> used tt" using task_alloc_used [OF assms(1) al] st by auto
  have ts: "tstate tt' j = tstate tt j" if "j < MGCORE_MAX_TASKS" "j \<noteq> i" for j
    using d(15) that by (simp add: tstate_def)
  have ci: "g_current_index tt \<noteq> i" using iv(4) d(2) by auto
  have pids: "t_pid (g_tasks tt' ! j) = t_pid (g_tasks tt ! j)" if "j \<in> used tt" for j
    using that d(15) u(2) by (metis (no_types, lifting) mem_Collect_eq used_def)
  have "inj_on (\<lambda>i. t_pid (g_tasks tt' ! i)) (insert i (used tt))"
  proof (rule inj_on_insert [THEN iffD2], intro conjI)
    show "inj_on (\<lambda>i. t_pid (g_tasks tt' ! i)) (used tt)" using iv(8) pids by (simp add: inj_on_def)
    show "t_pid (g_tasks tt' ! i) \<notin> (\<lambda>i. t_pid (g_tasks tt' ! i)) ` (used tt - {i})"
      using iv(7) pids d(8) by fastforce
  qed
  moreover have "\<forall>j\<in>insert i (used tt). 0 < t_pid (g_tasks tt' ! j) \<and> t_pid (g_tasks tt' ! j) < g_next_pid tt + 1"
    using iv(6,7,10) pids d(8) by fastforce
  moreover have "card (insert i (used tt)) = Suc (card (used tt))"
    using u(2) by (simp add: used_def)
  moreover have "tstate tt' i \<noteq> TASK_RUNNING" using d(10) st by auto
  then have "\<forall>j<MGCORE_MAX_TASKS. tstate tt' j = TASK_RUNNING \<longrightarrow> j = g_current_index tt"
    using ts iv(3) by metis
  moreover have "tstate tt' (g_current_index tt) = tstate tt (g_current_index tt)" using ts [OF iv(2) ci] .
  ultimately show ?thesis
    unfolding task_inv_def d(4-7) u(1) using iv(2,4,5,9,10) u(1)
    by (metis Suc_eq_plus1 int_Suc)
qed

lemma task_spawn_user_inv [invariants]:
  assumes "task_inv tt" and "task_spawn_user nm tt = Some (i, tt')"
  shows "task_inv tt'"
proof -
  obtain tt1 where al: "task_alloc (nm, TASK_RUNNABLE) tt = Some (i, tt1)"
    and tt': "tt' = upd_task i (\<lambda>e. e\<lparr>t_ppid := t_pid (task_current tt1)\<rparr>) tt1"
    using assms(2) by (auto simp: task_spawn_user_def split: option.splits)
  have iv: "task_inv tt1" using task_alloc_inv [OF assms(1) al] by simp
  note d = task_invD [OF iv]
  show ?thesis
    by (rule task_inv_update [OF iv]) (use d in \<open>auto simp: tt' tstate_def split: if_splits\<close>)
qed

lemma task_create_kernel_inv [invariants]:
  "task_inv tt \<Longrightarrow> task_create_kernel nm tt = Some (i, tt') \<Longrightarrow> task_inv tt'"
  unfolding task_create_kernel_def by (rule task_alloc_inv) auto

lemma task_exit_inv [invariants]: "task_inv tt \<Longrightarrow> task_inv (task_exit status tt)"
  by (rule task_inv_update, assumption) (use task_invD in \<open>auto simp: task_exit_def tstate_def split: if_splits\<close>)

lemma task_sleep_until_inv [invariants]: "task_inv tt \<Longrightarrow> task_inv (task_sleep_until tick tt)"
  by (rule task_inv_update, assumption) (use task_invD in \<open>auto simp: task_sleep_until_def tstate_def split: if_splits\<close>)

lemma task_find_SomeD:
  "task_find p tt = Some i \<Longrightarrow> i < MGCORE_MAX_TASKS \<and> tstate tt i \<noteq> TASK_UNUSED \<and> t_pid (g_tasks tt ! i) = p"
  using scan_from_SomeD [of _ 0 MGCORE_MAX_TASKS i] unfolding task_find_def by blast

lemma task_find_used:
  assumes "task_inv tt" and "i \<in> used tt"
  shows "task_find (t_pid (g_tasks tt ! i)) tt = Some i"
proof -
  have "j = i" if "j < i" "tstate tt j \<noteq> TASK_UNUSED" "t_pid (g_tasks tt ! j) = t_pid (g_tasks tt ! i)" for j
    using task_invD(8) [OF assms(1)] assms(2) that by (auto simp: inj_on_def used_def)
  then show ?thesis using assms(2) unfolding task_find_def scan_from_Some_iff by (auto simp: used_def)
qed

lemma task_kill_inv [invariants]:
  assumes "task_inv tt" and "task_kill p status tt = (r, tt')"
  shows "task_inv tt'"
proof (cases "tt' = tt")
  case False
  then obtain v where v: "task_find p tt = Some v"
    and tt': "tt' = upd_task v (\<lambda>e. e\<lparr>t_state := TASK_ZOMBIE, t_exit_code := status\<rparr>) tt"
    using assms(2) by (auto simp: task_kill_def split: option.splits if_splits)
  note d = task_invD [OF assms(1)] and f = task_find_SomeD [OF v]
  show ?thesis
    by (rule task_inv_update [OF assms(1)]) (use d f in \<open>auto simp: tt' tstate_def split: if_splits\<close>)
qed (use assms in simp)

subsection \<open>The choice of the next task\<close>

text \<open>A task is ready at a tick when it is runnable, when it is the one running, or when its sleep is over.\<close>

definition ready :: "u64 \<Rightarrow> task_table \<Rightarrow> nat \<Rightarrow> bool" where
  "ready now tt j \<longleftrightarrow> tstate tt j = TASK_RUNNABLE \<or> j = g_current_index tt \<and> tstate tt j = TASK_RUNNING \<or>
     tstate tt j = TASK_SLEEPING \<and> t_wakeup_tick (g_tasks tt ! j) \<le> now"

definition woken :: "u64 \<Rightarrow> task_table \<Rightarrow> task_table" where
  "woken now tt = wake_loop now MGCORE_MAX_TASKS (demote_current tt)"

lemma woken_props:
  assumes "task_inv tt"
  shows "length (g_tasks (woken now tt)) = MGCORE_MAX_TASKS" "g_current_index (woken now tt) = g_current_index tt"
    "g_next_pid (woken now tt) = g_next_pid tt" "g_task_count (woken now tt) = g_task_count tt"
    "j < MGCORE_MAX_TASKS \<Longrightarrow> tstate (woken now tt) j = (if ready now tt j then TASK_RUNNABLE else tstate tt j)"
    "j < MGCORE_MAX_TASKS \<Longrightarrow> t_pid (g_tasks (woken now tt) ! j) = t_pid (g_tasks tt ! j)"
proof -
  note d = task_invD [OF assms]
  have dl: "length (g_tasks (demote_current tt)) = MGCORE_MAX_TASKS" "g_current_index (demote_current tt) = g_current_index tt"
    "g_next_pid (demote_current tt) = g_next_pid tt" "g_task_count (demote_current tt) = g_task_count tt"
    using d(1) by (auto simp: demote_current_def)
  then show "length (g_tasks (woken now tt)) = MGCORE_MAX_TASKS" "g_current_index (woken now tt) = g_current_index tt"
    "g_next_pid (woken now tt) = g_next_pid tt" "g_task_count (woken now tt) = g_task_count tt"
    using wake_loop_sel by (auto simp: woken_def)
  assume j: "j < MGCORE_MAX_TASKS"
  have w: "g_tasks (woken now tt) ! j = wake_task now (g_tasks (demote_current tt) ! j)"
    unfolding woken_def using wake_loop_nth [OF order_refl dl(1) j] by simp
  have dt: "g_tasks (demote_current tt) ! j =
      (if j = g_current_index tt \<and> tstate tt j = TASK_RUNNING
       then (g_tasks tt ! j)\<lparr>t_runtime_ticks := t_runtime_ticks (g_tasks tt ! j) + 1, t_state := TASK_RUNNABLE\<rparr>
       else g_tasks tt ! j)"
    using d(1) j by (auto simp: demote_current_def task_current_def tstate_def)
  show "tstate (woken now tt) j = (if ready now tt j then TASK_RUNNABLE else tstate tt j)"
    unfolding tstate_def w dt by (auto simp: wake_task_def ready_def tstate_def)
  show "t_pid (g_tasks (woken now tt) ! j) = t_pid (g_tasks tt ! j)"
    unfolding w dt by (simp add: wake_task_def)
qed

definition cyc :: "nat \<Rightarrow> nat \<Rightarrow> nat" where
  "cyc c i = (c + 1 + i) mod MGCORE_MAX_TASKS"

lemma cyc_less [simp]: "cyc c i < MGCORE_MAX_TASKS"
  by (simp add: cyc_def MGCORE_MAX_TASKS_def)

text \<open>The position of slot \<open>j\<close> in the round that starts after slot \<open>c\<close>.\<close>

definition dist :: "nat \<Rightarrow> nat \<Rightarrow> nat" where
  "dist c j = (if c < j then j - c - 1 else j + MGCORE_MAX_TASKS - c - 1)"

lemma dist_cyc:
  assumes "c < MGCORE_MAX_TASKS" and "j < MGCORE_MAX_TASKS"
  shows "dist c j < MGCORE_MAX_TASKS" and "cyc c (dist c j) = j"
  using assms by (auto simp: dist_def cyc_def MGCORE_MAX_TASKS_def)

lemma dist_step:
  assumes "c < MGCORE_MAX_TASKS" and "j < MGCORE_MAX_TASKS" and "i < dist c j"
  shows "dist (cyc c i) j < dist c j"
proof -
  have "c + 1 + i < 2 * MGCORE_MAX_TASKS" using assms by (auto simp: dist_def split: if_splits)
  then have "cyc c i = (if c + 1 + i < MGCORE_MAX_TASKS then c + 1 + i else c + 1 + i - MGCORE_MAX_TASKS)"
    by (simp add: cyc_def mod_if)
  then show ?thesis using assms by (auto simp: dist_def split: if_splits)
qed

lemma tick_none:
  assumes "task_inv tt" and "\<forall>j<MGCORE_MAX_TASKS. \<not> ready now tt j"
  shows "task_scheduler_tick now tt = woken now tt"
    and "g_current_index (task_scheduler_tick now tt) = g_current_index tt"
    and "\<And>j. j < MGCORE_MAX_TASKS \<Longrightarrow> tstate (task_scheduler_tick now tt) j = tstate tt j"
proof -
  note w = woken_props [OF assms(1)] and d = task_invD [OF assms(1)]
  have t: "tstate (woken now tt) j = tstate tt j \<and> tstate tt j \<noteq> TASK_RUNNABLE" if "j < MGCORE_MAX_TASKS" for j
    using w(5) [OF that] assms(2) that by (auto simp: ready_def)
  have id: "(woken now tt)\<lparr>g_current_index := g_current_index tt\<rparr> = woken now tt"
    using w(2) [of now] by (intro task_table.equality) simp_all
  have "scan_from (\<lambda>i. tstate (woken now tt) (candidate (woken now tt) i) = TASK_RUNNABLE) 0 MGCORE_MAX_TASKS = None"
    unfolding scan_from_None_iff using t by (auto simp: candidate_def MGCORE_MAX_TASKS_def)
  then show e: "task_scheduler_tick now tt = woken now tt"
    using t [OF d(2)] id unfolding task_scheduler_tick_def Let_def woken_def [symmetric] by simp
  show "g_current_index (task_scheduler_tick now tt) = g_current_index tt" using e w(2) by simp
  show "\<And>j. j < MGCORE_MAX_TASKS \<Longrightarrow> tstate (task_scheduler_tick now tt) j = tstate tt j" using e t by simp
qed

lemma tick_some:
  assumes "task_inv tt" and "j < MGCORE_MAX_TASKS" and "ready now tt j"
  obtains i where "i \<le> dist (g_current_index tt) j" "i < MGCORE_MAX_TASKS"
    "g_current_index (task_scheduler_tick now tt) = cyc (g_current_index tt) i"
    "ready now tt (cyc (g_current_index tt) i)" "\<forall>k<i. \<not> ready now tt (cyc (g_current_index tt) k)"
    "task_scheduler_tick now tt = upd_task (cyc (g_current_index tt) i) (\<lambda>e. e\<lparr>t_state := TASK_RUNNING\<rparr>)
       ((woken now tt)\<lparr>g_current_index := cyc (g_current_index tt) i\<rparr>)"
proof -
  let ?c = "g_current_index tt"
  note w = woken_props [OF assms(1)] and d = task_invD [OF assms(1)]
  have r: "tstate (woken now tt) k = TASK_RUNNABLE \<longleftrightarrow> ready now tt k" if "k < MGCORE_MAX_TASKS" for k
    using w(5) [OF that] by (auto simp: ready_def)
  have c: "candidate (woken now tt) i = cyc ?c i" for i by (simp add: candidate_def cyc_def w(2))
  let ?s = "scan_from (\<lambda>i. ready now tt (cyc ?c i)) 0 MGCORE_MAX_TASKS"
  have "?s \<noteq> None"
    using dist_cyc [OF d(2) assms(2)] assms(3) by (auto simp: scan_from_None_iff)
  then obtain i where s: "?s = Some i" by auto
  note sd = scan_from_SomeD [OF s]
  have "i \<le> dist ?c j"
    using sd(4) dist_cyc [OF d(2) assms(2)] assms(3) by (metis bot_nat_0.extremum not_le)
  moreover have e: "task_scheduler_tick now tt = upd_task (cyc ?c i) (\<lambda>e. e\<lparr>t_state := TASK_RUNNING\<rparr>)
       ((woken now tt)\<lparr>g_current_index := cyc ?c i\<rparr>)"
    unfolding task_scheduler_tick_def Let_def woken_def [symmetric] c using s sd(3) by (simp add: r)
  moreover have "g_current_index (task_scheduler_tick now tt) = cyc ?c i" unfolding e by simp
  ultimately show thesis using that sd by auto
qed

lemma tick_some_states:
  assumes "task_inv tt" and "i < MGCORE_MAX_TASKS" and "j < MGCORE_MAX_TASKS"
    and e: "task_scheduler_tick now tt = upd_task (cyc (g_current_index tt) i) (\<lambda>e. e\<lparr>t_state := TASK_RUNNING\<rparr>)
       ((woken now tt)\<lparr>g_current_index := cyc (g_current_index tt) i\<rparr>)"
  shows "tstate (task_scheduler_tick now tt) j =
      (if j = cyc (g_current_index tt) i then TASK_RUNNING else if ready now tt j then TASK_RUNNABLE else tstate tt j)"
    and "t_pid (g_tasks (task_scheduler_tick now tt) ! j) = t_pid (g_tasks tt ! j)"
  using woken_props [OF assms(1), where now = now] assms(3) unfolding e by auto

lemma task_scheduler_tick_inv [invariants]:
  assumes "task_inv tt"
  shows "task_inv (task_scheduler_tick now tt)"
proof (cases "\<forall>j<MGCORE_MAX_TASKS. \<not> ready now tt j")
  case True
  note t = tick_none [OF assms True] and w = woken_props [OF assms, where now = now] and d = task_invD [OF assms]
  show ?thesis
    by (rule task_inv_update [OF assms]) (use t w d in auto)
next
  case False
  then obtain j where "j < MGCORE_MAX_TASKS" "ready now tt j" by auto
  from tick_some [OF assms this] obtain i where i: "i < MGCORE_MAX_TASKS"
    and ci: "g_current_index (task_scheduler_tick now tt) = cyc (g_current_index tt) i"
    and rd: "ready now tt (cyc (g_current_index tt) i)"
    and e: "task_scheduler_tick now tt = upd_task (cyc (g_current_index tt) i) (\<lambda>e. e\<lparr>t_state := TASK_RUNNING\<rparr>)
       ((woken now tt)\<lparr>g_current_index := cyc (g_current_index tt) i\<rparr>)" by blast
  note st = tick_some_states [OF assms i _ e] and w = woken_props [OF assms, where now = now] and d = task_invD [OF assms]
  have l: "length (g_tasks (task_scheduler_tick now tt)) = MGCORE_MAX_TASKS"
    "g_next_pid (task_scheduler_tick now tt) = g_next_pid tt" "g_task_count (task_scheduler_tick now tt) = g_task_count tt"
    using w by (simp_all add: e)
  show ?thesis
  proof (rule task_inv_update [OF assms l])
    fix k assume k: "k < MGCORE_MAX_TASKS"
    show "t_pid (g_tasks (task_scheduler_tick now tt) ! k) = t_pid (g_tasks tt ! k) \<and>
        (tstate (task_scheduler_tick now tt) k = TASK_UNUSED \<longleftrightarrow> tstate tt k = TASK_UNUSED)"
      using st [OF k] rd by (auto simp: ready_def)
    show "k = g_current_index (task_scheduler_tick now tt)" if "tstate (task_scheduler_tick now tt) k = TASK_RUNNING"
      using st(1) [OF k] that d(3) [OF k] unfolding ci by (auto simp: ready_def split: if_splits)
  qed (use ci st in auto)
qed

subsection \<open>Runs of the task component\<close>

datatype task_event = Tick u64 | Create string | Spawn string | Exit int | Sleep u64 | Kill int int

fun run_event :: "task_event \<Rightarrow> task_table \<Rightarrow> task_table" where
  "run_event (Tick now) tt = task_scheduler_tick now tt"
| "run_event (Create nm) tt = (case task_create_kernel nm tt of None \<Rightarrow> tt | Some (i, tt') \<Rightarrow> tt')"
| "run_event (Spawn nm) tt = (case task_spawn_user nm tt of None \<Rightarrow> tt | Some (i, tt') \<Rightarrow> tt')"
| "run_event (Exit status) tt = task_exit status tt"
| "run_event (Sleep tick) tt = task_sleep_until tick tt"
| "run_event (Kill p status) tt = snd (task_kill p status tt)"

inductive task_step :: "task_table \<Rightarrow> task_table \<Rightarrow> bool" where
  "run_event ev tt = tt' \<Longrightarrow> task_step tt tt'"

definition task_boot :: "task_table \<Rightarrow> bool" where
  "task_boot tt \<longleftrightarrow> (\<exists>t. g_next_pid t = 1 \<and> tt = task_init t)"

lemma run_event_inv [invariants]: "task_inv tt \<Longrightarrow> task_inv (run_event ev tt)"
  by (cases ev) (auto intro: invariants simp: prod_eq_iff split: option.splits)

lemma task_init_sel:
  "task_init tt = \<lparr>g_tasks = zero_task\<lparr>t_pid := g_next_pid tt, t_state := TASK_RUNNING, t_name := ''bootstrap'',
       t_cwd := ''/'', t_mm := vmm_address_space_init\<rparr> # replicate 31 zero_task,
     g_next_pid = g_next_pid tt + 1, g_current_index = 0, g_task_count = 1\<rparr>"
proof -
  have r: "replicate MGCORE_MAX_TASKS zero_task = zero_task # replicate 31 zero_task"
    by (simp add: MGCORE_MAX_TASKS_def flip: replicate_Suc)
  have "scan_from (\<lambda>i. tstate (tt\<lparr>g_tasks := replicate MGCORE_MAX_TASKS zero_task, g_current_index := 0, g_task_count := 0\<rparr>) i
      = TASK_UNUSED) 0 MGCORE_MAX_TASKS = Some 0"
    unfolding scan_from_Some_iff r by (simp add: tstate_def zero_task_def MGCORE_MAX_TASKS_def)
  then show ?thesis
    by (cases tt) (simp add: task_init_def task_alloc_def Let_def upd_task_def r bounded_name_def, simp add: zero_task_def)
qed

lemma task_init_inv [invariants]:
  assumes "g_next_pid t = 1"
  shows "task_inv (task_init t)"
proof -
  let ?tt = "task_init t"
  have n: "tstate ?tt i = (if i = 0 then TASK_RUNNING else TASK_UNUSED)" if "i < MGCORE_MAX_TASKS" for i
    using that by (cases i) (auto simp: task_init_sel tstate_def zero_task_def MGCORE_MAX_TASKS_def)
  have u: "used ?tt = {0}" using n by (auto simp: used_def MGCORE_MAX_TASKS_def split: if_splits)
  have z: "g_current_index ?tt = 0" "length (g_tasks ?tt) = MGCORE_MAX_TASKS" "g_next_pid ?tt = 2" "g_task_count ?tt = 1"
    "t_pid (g_tasks ?tt ! 0) = 1"
    using assms by (simp_all add: task_init_sel MGCORE_MAX_TASKS_def)
  show ?thesis
    unfolding task_inv_def u z using n by (auto simp: z MGCORE_MAX_TASKS_def split: if_splits)
qed

interpretation tasks: state_machine task_boot task_step task_inv
  by unfold_locales (auto simp: task_boot_def elim!: task_step.cases intro: invariants)

interpretation slots: slot_allocator "\<lambda>tt i. tstate tt i = TASK_UNUSED" MGCORE_MAX_TASKS task_inv task_create_kernel
proof
  show "task_create_kernel nm tt = None \<longleftrightarrow> (\<forall>i<MGCORE_MAX_TASKS. tstate tt i \<noteq> TASK_UNUSED)" for nm tt
    by (simp add: task_create_kernel_def task_alloc_None_iff)
  fix tt nm i tt' assume "task_inv tt" and a: "task_create_kernel nm tt = Some (i, tt')"
  then have al: "task_alloc (nm, TASK_RUNNABLE) tt = Some (i, tt')" by (simp add: task_create_kernel_def)
  note d = task_alloc_SomeD [OF \<open>task_inv tt\<close> al]
  show "i < MGCORE_MAX_TASKS \<and> tstate tt i = TASK_UNUSED" using d by simp
  show "tstate tt' i \<noteq> TASK_UNUSED" using d(10) by simp
  show "task_inv tt'" using task_alloc_inv [OF \<open>task_inv tt\<close> al] by simp
  fix j
  show "tstate tt j \<noteq> TASK_UNUSED" if "j < i" using d(3) that .
  show "(tstate tt' j = TASK_UNUSED) = (tstate tt j = TASK_UNUSED)" if "j \<noteq> i"
    using a that by (auto simp: task_create_kernel_def task_alloc_def upd_task_def tstate_def split: option.splits)
qed

subsection \<open>Fairness\<close>

lemma quiet_event:
  assumes "task_inv tt" and "j < MGCORE_MAX_TASKS" and "tstate tt j = TASK_RUNNABLE"
    and "\<And>now. ev \<noteq> Tick now" and "\<And>st. ev \<noteq> Kill (t_pid (g_tasks tt ! j)) st"
  shows "g_current_index (run_event ev tt) = g_current_index tt \<and> g_tasks (run_event ev tt) ! j = g_tasks tt ! j"
proof -
  note d = task_invD [OF assms(1)]
  have jc: "j \<noteq> g_current_index tt" using d(5) assms(3) by auto
  have alloc: "g_current_index tt' = g_current_index tt \<and> g_tasks tt' ! j = g_tasks tt ! j \<and> i \<noteq> j \<and>
      length (g_tasks tt') = MGCORE_MAX_TASKS"
    if "task_alloc (nm, TASK_RUNNABLE) tt = Some (i, tt')" for nm i tt'
    using task_alloc_SomeD(2,4,5,15) [OF assms(1) that] assms(2,3) by force
  show ?thesis
  proof (cases ev)
    case (Kill p st)
    show ?thesis
    proof (cases "task_find p tt")
      case (Some v)
      then have "v \<noteq> j" using task_find_SomeD [OF Some] assms(5) Kill by auto
      then show ?thesis using Kill Some assms(2) d(1) by (simp add: task_kill_def)
    qed (simp add: Kill task_kill_def)
  next
    case (Spawn nm)
    show ?thesis
    proof (cases "task_alloc (nm, TASK_RUNNABLE) tt")
      case (Some r)
      obtain i tt' where r: "r = (i, tt')" by (cases r)
      show ?thesis using alloc [OF Some [unfolded r]] assms(2) by (simp add: Spawn task_spawn_user_def Some r)
    qed (simp add: Spawn task_spawn_user_def)
  qed (use assms(2,4) d(1) jc alloc in \<open>auto simp: task_exit_def task_sleep_until_def task_create_kernel_def split: option.splits\<close>)
qed

lemma tick_progress:
  fixes now :: u64
  assumes "task_inv tt" and "j < MGCORE_MAX_TASKS" and "tstate tt j = TASK_RUNNABLE"
  defines "tt' \<equiv> task_scheduler_tick now tt"
  shows "tstate tt' j = TASK_RUNNING \<or>
    tstate tt' j = TASK_RUNNABLE \<and> dist (g_current_index tt') j < dist (g_current_index tt) j"
    and "t_pid (g_tasks tt' ! j) = t_pid (g_tasks tt ! j)"
proof -
  let ?c = "g_current_index tt"
  have r: "ready now tt j" using assms(3) by (simp add: ready_def)
  note c = task_invD(2) [OF assms(1)]
  from tick_some [OF assms(1,2) r] obtain i where i: "i \<le> dist ?c j" "i < MGCORE_MAX_TASKS"
    and ci: "g_current_index (task_scheduler_tick now tt) = cyc ?c i"
    and e: "task_scheduler_tick now tt = upd_task (cyc ?c i) (\<lambda>e. e\<lparr>t_state := TASK_RUNNING\<rparr>)
       ((woken now tt)\<lparr>g_current_index := cyc ?c i\<rparr>)" by blast
  note st = tick_some_states [OF assms(1) i(2) assms(2) e]
  show "t_pid (g_tasks tt' ! j) = t_pid (g_tasks tt ! j)" using st(2) by (simp add: tt'_def)
  show "tstate tt' j = TASK_RUNNING \<or>
    tstate tt' j = TASK_RUNNABLE \<and> dist (g_current_index tt') j < dist (g_current_index tt) j"
  proof (cases "j = cyc ?c i")
    case False
    then have "i < dist ?c j" using i(1) dist_cyc(2) [OF c assms(2)] by (cases "i = dist ?c j") auto
    then show ?thesis using dist_step [OF c assms(2)] st(1) False r ci by (simp add: tt'_def)
  qed (use st in \<open>simp add: tt'_def\<close>)
qed

fun ticks :: "task_event list \<Rightarrow> nat" where
  "ticks [] = 0"
| "ticks (Tick now # es) = Suc (ticks es)"
| "ticks (_ # es) = ticks es"

lemma runs_within:
  "task_inv tt \<Longrightarrow> j < MGCORE_MAX_TASKS \<Longrightarrow> tstate tt j = TASK_RUNNABLE \<Longrightarrow>
   dist (g_current_index tt) j < ticks es \<Longrightarrow> \<forall>st. Kill (t_pid (g_tasks tt ! j)) st \<notin> set es \<Longrightarrow>
   \<exists>n \<le> length es. tstate (fold run_event (take n es) tt) j = TASK_RUNNING"
proof (induction es arbitrary: tt)
  case (Cons ev es)
  let ?tt = "run_event ev tt"
  have inv: "task_inv ?tt" by (rule run_event_inv [OF Cons.prems(1)])
  have step: ?case if "\<exists>n \<le> length es. tstate (fold run_event (take n es) ?tt) j = TASK_RUNNING"
    using that by (metis (no_types, lifting) Suc_le_mono fold_simps(2) length_Cons take_Suc_Cons)
  show ?case
  proof (cases "\<exists>now. ev = Tick now")
    case True
    then obtain now where ev: "ev = Tick now" by blast
    note p = tick_progress [OF Cons.prems(1-3), of now]
    show ?thesis
    proof (cases "tstate ?tt j = TASK_RUNNING")
      case True
      then show ?thesis by (intro exI [of _ 1]) simp
    next
      case False
      then have "tstate ?tt j = TASK_RUNNABLE" "dist (g_current_index ?tt) j < ticks es"
        using p(1) ev Cons.prems(4) by auto
      then show ?thesis using Cons.IH [OF inv Cons.prems(2)] p(2) ev Cons.prems(5) by (intro step) simp
    qed
  next
    case False
    then have q: "g_current_index ?tt = g_current_index tt" "g_tasks ?tt ! j = g_tasks tt ! j"
      using quiet_event [OF Cons.prems(1-3), of ev] Cons.prems(5) by (metis list.set_intros(1))+
    have "ticks (ev # es) = ticks es" using False by (cases ev) auto
    moreover have "tstate ?tt j = TASK_RUNNABLE" using q(2) Cons.prems(3) by (simp add: tstate_def)
    ultimately show ?thesis using Cons.IH [OF inv Cons.prems(2)] q Cons.prems(4,5) by (intro step) simp
  qed
qed simp

subsection \<open>Properties\<close>

text \<open>
  C11: In every state the task component reaches from boot, by any sequence of ticks, creations, spawns,
  exits, sleeps and kills, at most one task is running and it is the current one, the current slot is
  in range and in use, the process ids of the used slots are positive, pairwise different and at most
  32, and the task counter counts the used slots.
\<close>

theorem task_reachable_inv:
  assumes "reach task_boot task_step tt"
  shows "task_inv tt \<and> (\<forall>i\<in>used tt. t_pid (g_tasks tt ! i) \<le> 32)"
proof -
  have inv: "task_inv tt" using tasks.reach_inv [OF assms] .
  have "card (used tt) \<le> card {..<MGCORE_MAX_TASKS}" by (rule card_mono) (auto simp: used_def)
  then have "g_next_pid tt \<le> 33" using task_invD(9,10) [OF inv] by (simp add: MGCORE_MAX_TASKS_def)
  then show ?thesis using inv task_invD(7) [OF inv] by force
qed

definition sample_table :: task_table where
  "sample_table = task_init \<lparr>g_tasks = [], g_next_pid = 1, g_current_index = 0, g_task_count = 0\<rparr>"

lemma sample_table_inv: "task_inv sample_table"
  unfolding sample_table_def by (rule task_init_inv) simp

theorem task_reachable_inv_witness:
  "task_inv (run_event (Tick 1) (run_event (Spawn ''init'') sample_table))"
proof -
  have "task_boot sample_table" unfolding task_boot_def sample_table_def by (intro exI conjI) (rule task_table.simps | simp)+
  then have "reach task_boot task_step (run_event (Tick 1) (run_event (Spawn ''init'') sample_table))"
    by (intro reach.step [OF reach.step [OF reach.start]] task_step.intros) (assumption | rule refl)+
  from task_reachable_inv [OF this] show ?thesis by blast
qed



text \<open>
  C12: No starvation. A runnable task gets the processor within 32 ticks, whatever creations, spawns,
  exits, sleeps and kills of other tasks happen between the ticks.
\<close>

theorem task_scheduler_fair:
  assumes "task_inv tt" and "j < MGCORE_MAX_TASKS" and "tstate tt j = TASK_RUNNABLE"
    and "32 \<le> ticks es" and "\<forall>st. Kill (t_pid (g_tasks tt ! j)) st \<notin> set es"
  shows "\<exists>n \<le> length es. tstate (fold run_event (take n es) tt) j = TASK_RUNNING"
proof (rule runs_within [OF assms(1-3) _ assms(5)])
  show "dist (g_current_index tt) j < ticks es"
    using dist_cyc(1) [OF task_invD(2) [OF assms(1)] assms(2)] assms(4) by (simp add: MGCORE_MAX_TASKS_def)
qed

theorem task_scheduler_fair_witness:
  "\<exists>n \<le> 33. tstate (fold run_event (take n (Exit 0 # replicate 32 (Tick 5))) (run_event (Create ''kidle'') sample_table)) 1 = TASK_RUNNING"
proof -
  let ?tt = "run_event (Create ''kidle'') sample_table"
  have sc: "scan_from (\<lambda>i. tstate sample_table i = TASK_UNUSED) 0 MGCORE_MAX_TASKS = Some 1"
    by (simp add: scan_from_Some_iff sample_table_def task_init_sel tstate_def zero_task_def MGCORE_MAX_TASKS_def)
  obtain tt' where al: "task_alloc (''kidle'', TASK_RUNNABLE) sample_table = Some (1, tt')"
    using sc by (simp add: task_alloc_def)
  note d = task_alloc_SomeD [OF sample_table_inv al]
  have tt: "?tt = tt'" using al by (simp add: task_create_kernel_def)
  have t: "32 \<le> ticks (Exit 0 # replicate 32 (Tick 5))" by (simp add: numeral_eq_Suc)
  have k: "\<forall>st. Kill (t_pid (g_tasks ?tt ! 1)) st \<notin> set (Exit 0 # replicate 32 (Tick 5))" by simp
  have l: "length (Exit 0 # replicate 32 (Tick 5)) = 33" by simp
  have "tstate ?tt 1 = TASK_RUNNABLE" using d(10) by (simp only: tt)
  from task_scheduler_fair [OF run_event_inv [OF sample_table_inv] d(1) this t k]
  show ?thesis unfolding l .
qed

definition suspect_candidate :: "task \<Rightarrow> bool" where
  "suspect_candidate e \<longleftrightarrow> t_state e \<noteq> TASK_UNUSED \<and> t_state e \<noteq> TASK_ZOMBIE \<and> t_ppid e \<noteq> 0"

lemma leaker_loop_spec:
  "(leaker_loop es w p = p \<and> (\<forall>e\<in>set es. suspect_candidate e \<longrightarrow> task_estimated_pages e \<le> w)) \<or>
   (\<exists>e\<in>set es. suspect_candidate e \<and> w < task_estimated_pages e \<and> leaker_loop es w p = t_pid e \<and>
      (\<forall>f\<in>set es. suspect_candidate f \<longrightarrow> task_estimated_pages f \<le> task_estimated_pages e))"
proof (induction es arbitrary: w p)
  case (Cons e es)
  show ?case
  proof (cases "suspect_candidate e \<and> w < task_estimated_pages e")
    case True
    then have l: "leaker_loop (e # es) w p = leaker_loop es (task_estimated_pages e) (t_pid e)"
      by (simp add: suspect_candidate_def)
    from Cons.IH [of "task_estimated_pages e" "t_pid e"] show ?thesis unfolding l
    proof (elim disjE)
      assume "\<exists>f\<in>set es. suspect_candidate f \<and> task_estimated_pages e < task_estimated_pages f \<and>
        leaker_loop es (task_estimated_pages e) (t_pid e) = t_pid f \<and>
        (\<forall>g\<in>set es. suspect_candidate g \<longrightarrow> task_estimated_pages g \<le> task_estimated_pages f)"
      then obtain f where f: "f \<in> set es" "suspect_candidate f" "task_estimated_pages e < task_estimated_pages f"
        "leaker_loop es (task_estimated_pages e) (t_pid e) = t_pid f"
        "\<forall>g\<in>set es. suspect_candidate g \<longrightarrow> task_estimated_pages g \<le> task_estimated_pages f" by blast
      have "w < task_estimated_pages f" using True f(3) by (blast intro: less_trans)
      moreover have "task_estimated_pages e \<le> task_estimated_pages f" using f(3) by (rule less_imp_le)
      ultimately show "leaker_loop es (task_estimated_pages e) (t_pid e) = p \<and>
          (\<forall>e\<in>set (e # es). suspect_candidate e \<longrightarrow> task_estimated_pages e \<le> w) \<or>
        (\<exists>ea\<in>set (e # es). suspect_candidate ea \<and> w < task_estimated_pages ea \<and>
          leaker_loop es (task_estimated_pages e) (t_pid e) = t_pid ea \<and>
          (\<forall>f\<in>set (e # es). suspect_candidate f \<longrightarrow> task_estimated_pages f \<le> task_estimated_pages ea))"
        using f by (intro disjI2 bexI [of _ f]) simp_all
    qed (use True in auto)
  next
    case False
    then have "leaker_loop (e # es) w p = leaker_loop es w p" by (auto simp: suspect_candidate_def)
    then show ?thesis using Cons.IH [of w p] False by fastforce
  qed
qed simp

lemma leaker_exists:
  assumes "task_inv tt" and "0 < task_find_likely_memory_leaker tt"
  shows "\<exists>i\<in>used tt. suspect_candidate (g_tasks tt ! i) \<and> task_find_likely_memory_leaker tt = t_pid (g_tasks tt ! i)"
proof -
  obtain e where e: "e \<in> set (g_tasks tt)" "suspect_candidate e" "task_find_likely_memory_leaker tt = t_pid e"
    using leaker_loop_spec [of "g_tasks tt" 0 0, folded task_find_likely_memory_leaker_def] assms(2) by auto
  then obtain i where "i < length (g_tasks tt)" "e = g_tasks tt ! i" by (auto simp: in_set_conv_nth)
  then show ?thesis
    using e task_invD(1) [OF assms(1)] by (auto simp: used_def suspect_candidate_def tstate_def)
qed

text \<open>
  The suspect of the memory guard. The task reported is a live user task (it has a parent) with the
  largest estimated number of pages; no task is reported exactly when no live user task uses a page.
\<close>

lemma memory_leaker_is_largest:
  assumes "task_inv tt"
  shows "let p = task_find_likely_memory_leaker tt; live = {i \<in> used tt. suspect_candidate (g_tasks tt ! i)} in
    if \<forall>i\<in>live. task_estimated_pages (g_tasks tt ! i) = 0 then p = 0
    else \<exists>i\<in>live. p = t_pid (g_tasks tt ! i) \<and> 0 < p \<and>
      (\<forall>k\<in>live. task_estimated_pages (g_tasks tt ! k) \<le> task_estimated_pages (g_tasks tt ! i))"
proof -
  define live where "live = {i \<in> used tt. suspect_candidate (g_tasks tt ! i)}"
  note d = task_invD [OF assms]
  have mem: "(\<exists>i\<in>live. e = g_tasks tt ! i) \<longleftrightarrow> e \<in> set (g_tasks tt) \<and> suspect_candidate e" for e
    using d(1) by (auto simp: live_def used_def suspect_candidate_def tstate_def in_set_conv_nth)
  then have all: "(\<forall>e\<in>set (g_tasks tt). suspect_candidate e \<longrightarrow> P e) \<longleftrightarrow> (\<forall>i\<in>live. P (g_tasks tt ! i))" for P
    by metis
  note sp = leaker_loop_spec [of "g_tasks tt" 0 0, folded task_find_likely_memory_leaker_def]
  show ?thesis
  proof (cases "\<forall>i\<in>live. task_estimated_pages (g_tasks tt ! i) = 0")
    case True
    then have "\<forall>e\<in>set (g_tasks tt). suspect_candidate e \<longrightarrow> task_estimated_pages e = 0"
      using all [of "\<lambda>e. task_estimated_pages e = 0"] by blast
    then have "task_find_likely_memory_leaker tt = 0" using sp by fastforce
    then show ?thesis using True by (simp add: live_def [symmetric] Let_def)
  next
    case False
    then have "\<not> (\<forall>e\<in>set (g_tasks tt). suspect_candidate e \<longrightarrow> task_estimated_pages e \<le> 0)"
      using all [of "\<lambda>e. task_estimated_pages e \<le> 0"] by simp
    then obtain e where e: "e \<in> set (g_tasks tt)" "suspect_candidate e" "task_find_likely_memory_leaker tt = t_pid e"
      "\<forall>f\<in>set (g_tasks tt). suspect_candidate f \<longrightarrow> task_estimated_pages f \<le> task_estimated_pages e"
      using sp by blast
    then obtain i where i: "i \<in> live" "e = g_tasks tt ! i" using mem by blast
    have "0 < t_pid e" using i d(6) by (simp add: live_def)
    moreover have "\<forall>k\<in>live. task_estimated_pages (g_tasks tt ! k) \<le> task_estimated_pages e"
      using e(4) all [of "\<lambda>f. task_estimated_pages f \<le> task_estimated_pages e"] by blast
    ultimately have "\<exists>i\<in>live. task_find_likely_memory_leaker tt = t_pid (g_tasks tt ! i) \<and> 0 < task_find_likely_memory_leaker tt \<and>
      (\<forall>k\<in>live. task_estimated_pages (g_tasks tt ! k) \<le> task_estimated_pages (g_tasks tt ! i))"
      using i e(3) by auto
    then show ?thesis unfolding Let_def live_def [symmetric] if_not_P [OF False] .
  qed
qed

end
