(* ===== verification/Pmm.thy ===== *)
theory Pmm
  imports Console
begin

text \<open>
  Model of \<^verbatim>\<open>src/kernel/pmm.c\<close> and of the tag walk of \<^verbatim>\<open>include/mgcore/multiboot2.h\<close>. The bitmap is a
  function from byte indices to bytes; the boot information is a memory from 64-bit addresses to
  bytes, read little endian. The two loops of \<^verbatim>\<open>pmm_init\<close> trust the sizes they find in that memory
  and run forever when a size is zero, so they are \<open>partial_function (option)\<close>: \<open>None\<close> is a boot that
  does not come back.
\<close>

subsection \<open>Bitmap\<close>

definition PMM_MAX_PAGES :: nat where "PMM_MAX_PAGES = 1024 * 1024"

record pmm =
  g_bitmap :: "nat \<Rightarrow> u8"
  g_total_pages :: u64
  g_free_pages :: u64

definition pmm_set_bit :: "nat \<Rightarrow> pmm \<Rightarrow> pmm" where
  "pmm_set_bit page p =
     p\<lparr>g_bitmap := (g_bitmap p)(page div 8 := g_bitmap p (page div 8) OR push_bit (page mod 8) 1)\<rparr>"

definition pmm_clear_bit :: "nat \<Rightarrow> pmm \<Rightarrow> pmm" where
  "pmm_clear_bit page p =
     p\<lparr>g_bitmap := (g_bitmap p)(page div 8 := g_bitmap p (page div 8) AND NOT (push_bit (page mod 8) 1))\<rparr>"

definition pmm_test_bit :: "nat \<Rightarrow> pmm \<Rightarrow> bool" where
  "pmm_test_bit page p \<longleftrightarrow> g_bitmap p (page div 8) AND push_bit (page mod 8) 1 \<noteq> 0"

definition dec_free :: "pmm \<Rightarrow> pmm" where
  "dec_free p = (if g_free_pages p \<noteq> 0 then p\<lparr>g_free_pages := g_free_pages p - 1\<rparr> else p)"

definition reserve_page :: "nat \<Rightarrow> pmm \<Rightarrow> pmm" where
  "reserve_page page p = (if \<not> pmm_test_bit page p then dec_free (pmm_set_bit page p) else p)"

function reserve_loop :: "nat \<Rightarrow> nat \<Rightarrow> pmm \<Rightarrow> pmm" where
  "reserve_loop page last_page p =
     (if page < last_page \<and> page < PMM_MAX_PAGES then reserve_loop (Suc page) last_page (reserve_page page p) else p)"
  by pat_completeness auto
termination
  by (relation "measure (\<lambda>(page, last_page, p). last_page - page)") auto

declare reserve_loop.simps [simp del]

definition reserve_range :: "u64 \<Rightarrow> u64 \<Rightarrow> pmm \<Rightarrow> pmm" where
  "reserve_range start end p = reserve_loop (unat (start div 4096)) (unat ((end + 4095) div 4096)) p"

subsection \<open>Boot information\<close>

type_synonym mbmem = "u64 \<Rightarrow> u8"

definition load32 :: "mbmem \<Rightarrow> u64 \<Rightarrow> u32" where
  "load32 mem a = ucast (mem a) OR push_bit 8 (ucast (mem (a + 1)))
     OR push_bit 16 (ucast (mem (a + 2))) OR push_bit 24 (ucast (mem (a + 3)))"

definition load64 :: "mbmem \<Rightarrow> u64 \<Rightarrow> u64" where
  "load64 mem a = ucast (load32 mem a) OR push_bit 32 (ucast (load32 mem (a + 4)))"

definition tag_type :: "mbmem \<Rightarrow> u64 \<Rightarrow> u32" where "tag_type mem t = load32 mem t"
definition tag_size :: "mbmem \<Rightarrow> u64 \<Rightarrow> u32" where "tag_size mem t = load32 mem (t + 4)"

definition multiboot2_first_tag :: "u64 \<Rightarrow> u64" where
  "multiboot2_first_tag info = info + 8"

definition multiboot2_next_tag :: "mbmem \<Rightarrow> u64 \<Rightarrow> u64" where
  "multiboot2_next_tag mem t = t + ucast ((tag_size mem t + 7) AND NOT 7)"

text \<open>The usable pages of one memory map entry, made free one by one.\<close>

function free_loop :: "nat \<Rightarrow> nat \<Rightarrow> pmm \<Rightarrow> pmm" where
  "free_loop page last_page p =
     (if page < last_page then
        free_loop (Suc page) last_page
          ((pmm_clear_bit page p)\<lparr>g_total_pages := g_total_pages p + 1, g_free_pages := g_free_pages p + 1\<rparr>)
      else p)"
  by pat_completeness auto
termination
  by (relation "measure (\<lambda>(page, last_page, p). last_page - page)") auto

declare free_loop.simps [simp del]

definition mmap_entry :: "u64 \<Rightarrow> u64 \<Rightarrow> u32 \<Rightarrow> pmm \<Rightarrow> pmm" where
  "mmap_entry addr len ty p =
     (if ty = 1 then
        let start = addr; end = addr + len;
            first = unat (start div 4096); last_page = unat (end div 4096);
            last_page' = (if last_page > PMM_MAX_PAGES then PMM_MAX_PAGES else last_page)
        in free_loop first last_page' p
      else p)"

partial_function (option) mmap_loop :: "mbmem \<Rightarrow> u64 \<Rightarrow> u64 \<Rightarrow> u64 \<Rightarrow> pmm \<Rightarrow> pmm option" where
  "mmap_loop mem entry_size cursor limit p =
     (if cursor < limit then
        mmap_loop mem entry_size (cursor + entry_size) limit
          (mmap_entry (load64 mem cursor) (load64 mem (cursor + 8)) (load32 mem (cursor + 16)) p)
      else Some p)"

definition mmap_tag :: "mbmem \<Rightarrow> u64 \<Rightarrow> pmm \<Rightarrow> pmm option" where
  "mmap_tag mem t p =
     (if tag_type mem t = 6 then
        mmap_loop mem (ucast (load32 mem (t + 8))) (t + 16) (t + ucast (tag_size mem t)) p
      else Some p)"

partial_function (option) tag_loop :: "mbmem \<Rightarrow> u64 \<Rightarrow> pmm \<Rightarrow> pmm option" where
  "tag_loop mem t p =
     (if tag_type mem t \<noteq> 0 then
        (case mmap_tag mem t p of None \<Rightarrow> None | Some q \<Rightarrow> tag_loop mem (multiboot2_next_tag mem t) q)
      else Some p)"

definition pmm_blank :: pmm where
  "pmm_blank = \<lparr>g_bitmap = (\<lambda>_. 0xFF), g_total_pages = 0, g_free_pages = 0\<rparr>"

definition pmm_init :: "mbmem \<Rightarrow> u64 \<Rightarrow> u64 \<Rightarrow> u64 \<Rightarrow> (pmm \<times> con_call list) option" where
  "pmm_init mem info kernel_start kernel_end =
     (case tag_loop mem (multiboot2_first_tag info) pmm_blank of
        None \<Rightarrow> None
      | Some p \<Rightarrow>
          let q = reserve_range kernel_start kernel_end (reserve_range 0 0x100000 p)
          in Some (q, [Printf (''pmm: total=%u pages free=%u'' @ [CHR 0x0A])
                         [vunsigned (g_total_pages q), vunsigned (g_free_pages q)]]))"

subsection \<open>Allocation\<close>

definition pmm_alloc_page :: "pmm \<Rightarrow> u64 \<times> pmm" where
  "pmm_alloc_page p =
     (case scan_from (\<lambda>page. \<not> pmm_test_bit page p) 0 PMM_MAX_PAGES of
        None \<Rightarrow> (0, p)
      | Some page \<Rightarrow> (of_nat page * 4096, dec_free (pmm_set_bit page p)))"

definition pmm_free_page :: "u64 \<Rightarrow> pmm \<Rightarrow> pmm" where
  "pmm_free_page physical p =
     (let page = unat (physical div 4096)
      in if page < PMM_MAX_PAGES \<and> pmm_test_bit page p
         then (pmm_clear_bit page p)\<lparr>g_free_pages := g_free_pages p + 1\<rparr>
         else p)"

definition pmm_total_pages :: "pmm \<Rightarrow> u64" where "pmm_total_pages p = g_total_pages p"
definition pmm_free_pages :: "pmm \<Rightarrow> u64" where "pmm_free_pages p = g_free_pages p"
definition pmm_used_pages :: "pmm \<Rightarrow> u64" where "pmm_used_pages p = g_total_pages p - g_free_pages p"

definition pmm_dump :: "pmm \<Rightarrow> con_call list" where
  "pmm_dump p = [Printf (''pmm: total=%u used=%u free=%u pages'' @ [CHR 0x0A])
     [vunsigned (pmm_total_pages p), vunsigned (pmm_used_pages p), vunsigned (pmm_free_pages p)]]"

subsection \<open>Lemmas on the bitmap\<close>

lemma test_bit_iff: "pmm_test_bit page p \<longleftrightarrow> bit (g_bitmap p (page div 8)) (page mod 8)"
  unfolding pmm_test_bit_def bit_test_word ..

lemma page_eq_iff: "(a = b) \<longleftrightarrow> (a div 8 = b div 8 \<and> a mod 8 = b mod 8)" for a b :: nat
  by (metis div_mult_mod_eq)

lemma test_set_bit [simp]: "pmm_test_bit a (pmm_set_bit b p) \<longleftrightarrow> a = b \<or> pmm_test_bit a p"
  by (auto simp: test_bit_iff pmm_set_bit_def page_eq_iff [of a b] bit_simps)

lemma test_clear_bit [simp]: "pmm_test_bit a (pmm_clear_bit b p) \<longleftrightarrow> a \<noteq> b \<and> pmm_test_bit a p"
  by (auto simp: test_bit_iff pmm_clear_bit_def page_eq_iff [of a b] bit_simps dest: bit_imp_le_length)

lemma test_bit_cong [simp]:
  "pmm_test_bit a (p\<lparr>g_total_pages := t\<rparr>) = pmm_test_bit a p"
  "pmm_test_bit a (p\<lparr>g_free_pages := t\<rparr>) = pmm_test_bit a p"
  "pmm_test_bit a (dec_free p) = pmm_test_bit a p"
  by (simp_all add: pmm_test_bit_def dec_free_def)

lemma bits_sel [simp]:
  "g_free_pages (pmm_set_bit a p) = g_free_pages p" "g_total_pages (pmm_set_bit a p) = g_total_pages p"
  "g_free_pages (pmm_clear_bit a p) = g_free_pages p" "g_total_pages (pmm_clear_bit a p) = g_total_pages p"
  by (simp_all add: pmm_set_bit_def pmm_clear_bit_def)

lemma test_blank [simp]: "pmm_test_bit a pmm_blank"
proof -
  have m: "(0xFF :: u8) = mask 8" by (simp add: mask_eq_exp_minus_1)
  have "bit (mask 8 :: u8) (a mod 8)" by (simp only: bit_mask_iff) simp
  then show ?thesis by (simp only: test_bit_iff pmm_blank_def pmm.select_convs m)
qed

definition free_set :: "pmm \<Rightarrow> nat set" where
  "free_set p = {page. page < PMM_MAX_PAGES \<and> \<not> pmm_test_bit page p}"

lemma finite_free_set [simp]: "finite (free_set p)"
  by (simp add: free_set_def)

lemma card_free_set: "card (free_set p) \<le> PMM_MAX_PAGES"
  using card_mono [of "{..<PMM_MAX_PAGES}" "free_set p"] by (auto simp: free_set_def)

text \<open>The counter of free pages counts the clear bits.\<close>

definition pmm_inv :: "pmm \<Rightarrow> bool" where
  "pmm_inv p \<longleftrightarrow> unat (g_free_pages p) = card (free_set p)"

subsection \<open>Allocation and release\<close>

lemma unat_dec: "0 < unat x \<Longrightarrow> unat (x - 1) = unat x - 1" for x :: u64
  by (metis One_nat_def Suc_pred unat_eq_zero unat_minus_one nat_less_le diff_Suc_1)

lemma set_bit_free_set: "free_set (pmm_set_bit a p) = free_set p - {a}"
  by (auto simp: free_set_def)

lemma free_set_dec [simp]: "free_set (dec_free p) = free_set p"
  by (simp add: free_set_def)

lemma take_page_inv:
  assumes "pmm_inv p" and "a \<in> free_set p"
  shows "pmm_inv (dec_free (pmm_set_bit a p))"
    and "Suc (unat (g_free_pages (dec_free (pmm_set_bit a p)))) = unat (g_free_pages p)"
proof -
  have c: "card (free_set p) = Suc (card (free_set p - {a}))"
    using assms(2) card.remove [OF finite_free_set] by blast
  then have nz: "0 < unat (g_free_pages p)" using assms(1) by (simp add: pmm_inv_def)
  then have d: "unat (g_free_pages (dec_free (pmm_set_bit a p))) = unat (g_free_pages p) - 1"
    by (auto simp: dec_free_def unat_dec)
  show "pmm_inv (dec_free (pmm_set_bit a p))"
    using assms(1) c d by (simp add: pmm_inv_def set_bit_free_set)
  show "Suc (unat (g_free_pages (dec_free (pmm_set_bit a p)))) = unat (g_free_pages p)"
    using d nz by simp
qed

lemma free_page_inv:
  assumes "pmm_inv p"
  shows "pmm_inv (pmm_free_page physical p)"
proof -
  let ?a = "unat (physical div 4096)"
  show ?thesis
  proof (cases "?a < PMM_MAX_PAGES \<and> pmm_test_bit ?a p")
    case False
    then have "pmm_free_page physical p = p" unfolding pmm_free_page_def Let_def by (rule if_not_P)
    then show ?thesis using assms by simp
  next
    case True
    have "free_set (pmm_free_page physical p) = insert ?a (free_set p)"
      using True by (auto simp: free_set_def pmm_free_page_def Let_def)
    moreover have "?a \<notin> free_set p" using True by (simp add: free_set_def)
    ultimately have c: "card (free_set (pmm_free_page physical p)) = Suc (card (free_set p))" by simp
    have "card (free_set p) < 2 ^ 64 - 1" using card_free_set [of p] by (simp add: PMM_MAX_PAGES_def)
    then have "unat (g_free_pages p + 1) = Suc (unat (g_free_pages p))"
      using assms by (simp add: pmm_inv_def unat_word_ariths)
    then show ?thesis using True c assms by (simp add: pmm_inv_def pmm_free_page_def Let_def)
  qed
qed

lemma reserve_page_inv: "pmm_inv p \<Longrightarrow> a < PMM_MAX_PAGES \<Longrightarrow> pmm_inv (reserve_page a p)"
  using take_page_inv(1) [of p a] by (simp add: reserve_page_def free_set_def)

lemma reserve_page_test: "pmm_test_bit b (reserve_page a p) \<longleftrightarrow> b = a \<or> pmm_test_bit b p"
  by (auto simp: reserve_page_def)

lemma reserve_loop_props:
  shows "(pmm_inv p \<longrightarrow> pmm_inv (reserve_loop a l p)) \<and>
    (pmm_test_bit b (reserve_loop a l p) \<longleftrightarrow> pmm_test_bit b p \<or> a \<le> b \<and> b < l \<and> b < PMM_MAX_PAGES)"
proof (induction a l p rule: reserve_loop.induct)
  case (1 a l p)
  show ?case
  proof (cases "a < l \<and> a < PMM_MAX_PAGES")
    case True
    have "(a = b \<or> Suc a \<le> b) \<longleftrightarrow> a \<le> b" by auto
    then show ?thesis
      using True "1.IH" reserve_page_inv [of p a]
      by (auto simp: reserve_loop.simps [of a l p] reserve_page_test)
  next
    case False
    then show ?thesis by (auto simp: reserve_loop.simps [of a l p])
  qed
qed

lemma reserve_range_inv [invariants]: "pmm_inv p \<Longrightarrow> pmm_inv (reserve_range s e p)"
  using reserve_loop_props by (simp add: reserve_range_def)

lemma reserve_range_test:
  "pmm_test_bit b (reserve_range s e p) \<longleftrightarrow> pmm_test_bit b p \<or>
     unat (s div 4096) \<le> b \<and> b < unat ((e + 4095) div 4096) \<and> b < PMM_MAX_PAGES"
  using reserve_loop_props by (simp add: reserve_range_def)

lemma page_address:
  "page < PMM_MAX_PAGES \<Longrightarrow> unat (of_nat page * 4096 :: u64) = page * 4096"
  by (simp add: PMM_MAX_PAGES_def unat_word_ariths unat_of_nat)

text \<open>The page table of \<^verbatim>\<open>pmm_alloc_page\<close> provides the slot allocator contract.\<close>

definition alloc_slot :: "unit \<Rightarrow> pmm \<Rightarrow> (nat \<times> pmm) option" where
  "alloc_slot u p =
     (case scan_from (\<lambda>page. \<not> pmm_test_bit page p) 0 PMM_MAX_PAGES of
        None \<Rightarrow> None | Some page \<Rightarrow> Some (page, dec_free (pmm_set_bit page p)))"

lemma pmm_alloc_page_slot:
  "pmm_alloc_page p =
     (case alloc_slot () p of None \<Rightarrow> (0, p) | Some (page, q) \<Rightarrow> (of_nat page * 4096, q))"
  by (simp add: pmm_alloc_page_def alloc_slot_def split: option.splits)

lemma alloc_slot_SomeD:
  assumes "alloc_slot u p = Some (i, q)"
  shows "i \<in> free_set p" and "\<And>j. j < i \<Longrightarrow> j \<notin> free_set p" and "q = dec_free (pmm_set_bit i p)"
proof -
  have s: "scan_from (\<lambda>page. \<not> pmm_test_bit page p) 0 PMM_MAX_PAGES = Some i"
    using assms by (auto simp: alloc_slot_def split: option.splits)
  show "i \<in> free_set p" using scan_from_SomeD [OF s] by (simp add: free_set_def)
  show "\<And>j. j < i \<Longrightarrow> j \<notin> free_set p" using scan_from_SomeD [OF s] by (auto simp: free_set_def)
  show "q = dec_free (pmm_set_bit i p)" using assms s by (simp add: alloc_slot_def)
qed

lemma alloc_slot_None_iff: "alloc_slot u p = None \<longleftrightarrow> free_set p = {}"
proof -
  have "alloc_slot u p = None \<longleftrightarrow> scan_from (\<lambda>page. \<not> pmm_test_bit page p) 0 PMM_MAX_PAGES = None"
    by (simp add: alloc_slot_def split: option.splits)
  then show ?thesis by (auto simp: scan_from_None_iff free_set_def)
qed

interpretation pages: slot_allocator "\<lambda>p page. page \<in> free_set p" PMM_MAX_PAGES pmm_inv alloc_slot
proof
  show "alloc_slot u p = None \<longleftrightarrow> (\<forall>i<PMM_MAX_PAGES. i \<notin> free_set p)" for u p
    by (auto simp: alloc_slot_None_iff free_set_def)
  show "i < PMM_MAX_PAGES \<and> i \<in> free_set p" if "alloc_slot u p = Some (i, q)" for u p i q
    using alloc_slot_SomeD(1) [OF that] by (simp add: free_set_def)
  show "j \<notin> free_set p" if "alloc_slot u p = Some (i, q)" and "j < i" for u p i q j
    using alloc_slot_SomeD(2) [OF that] .
  show "i \<notin> free_set q" if "alloc_slot u p = Some (i, q)" for u p i q
    using alloc_slot_SomeD(3) [OF that] by (simp add: set_bit_free_set)
  show "(j \<in> free_set q) = (j \<in> free_set p)" if "alloc_slot u p = Some (i, q)" and "j \<noteq> i" for u p i q j
    using alloc_slot_SomeD(3) [OF that(1)] that(2) by (simp add: set_bit_free_set)
  show "pmm_inv q" if "pmm_inv p" and "alloc_slot u p = Some (i, q)" for u p i q
    unfolding alloc_slot_SomeD(3) [OF that(2)]
    using take_page_inv(1) [OF that(1) alloc_slot_SomeD(1) [OF that(2)]] .
qed

lemma free_count_pages: "pmm_inv p \<Longrightarrow> pages.free_count p = unat (g_free_pages p)"
  unfolding pages.free_count_def pmm_inv_def
  by (metis (no_types, lifting) Collect_cong Collect_mem_eq free_set_def mem_Collect_eq)

subsection \<open>Sequences of allocations\<close>

fun alloc_pages :: "nat \<Rightarrow> pmm \<Rightarrow> u64 list \<times> pmm" where
  "alloc_pages 0 p = ([], p)"
| "alloc_pages (Suc n) p =
     (case pmm_alloc_page p of (a, q) \<Rightarrow> (case alloc_pages n q of (as, r) \<Rightarrow> (a # as, r)))"

lemma alloc_pages_slots:
  "pages.alloc_all (replicate n ()) p = Some (is, q) \<Longrightarrow>
    alloc_pages n p = (map (\<lambda>i. of_nat i * 4096) is, q)"
  by (induction n arbitrary: p "is") (auto simp: pmm_alloc_page_slot split: option.splits)

lemma page_address_inj: "inj_on (\<lambda>i. of_nat i * 4096 :: u64) {..<PMM_MAX_PAGES}"
proof (rule inj_onI)
  fix i j assume ij: "i \<in> {..<PMM_MAX_PAGES}" "j \<in> {..<PMM_MAX_PAGES}"
    and eq: "(of_nat i * 4096 :: u64) = of_nat j * 4096"
  have "i * 4096 = unat (of_nat i * 4096 :: u64)" using ij page_address by simp
  also have "\<dots> = j * 4096" unfolding eq using ij page_address by simp
  finally show "i = j" by simp
qed

lemma alloc_slot_counts:
  "pmm_inv p \<Longrightarrow> pages.alloc_all ps p = Some (is, q) \<Longrightarrow>
    unat (g_free_pages q) + length is = unat (g_free_pages p) \<and> free_set q = free_set p - set is"
proof (induction ps arbitrary: p "is")
  case (Cons u ps)
  then obtain i p' js where a: "alloc_slot u p = Some (i, p')" and r: "pages.alloc_all ps p' = Some (js, q)"
    and "is": "is = i # js"
    by (auto split: option.splits)
  have "pmm_inv p'" using pages.alloc_inv [OF Cons.prems(1) a] .
  then have "unat (g_free_pages q) + length js = unat (g_free_pages p') \<and> free_set q = free_set p' - set js"
    using Cons.IH r by blast
  moreover have "Suc (unat (g_free_pages p')) = unat (g_free_pages p)" "free_set p' = free_set p - {i}"
    using take_page_inv(2) [OF Cons.prems(1) alloc_slot_SomeD(1) [OF a]] alloc_slot_SomeD(3) [OF a]
    by (simp_all add: set_bit_free_set)
  ultimately show ?case by (auto simp: "is")
qed simp

lemma alloc_pages_props:
  assumes "pmm_inv p" and "pmm_test_bit 0 p" and "n \<le> unat (pmm_free_pages p)"
    and "alloc_pages n p = (as, q)"
  shows "distinct as" and "length as = n" and "pmm_inv q"
    and "unat (pmm_free_pages q) + n = unat (pmm_free_pages p)"
    and "\<forall>a\<in>set as. a \<noteq> 0 \<and> unat a mod 4096 = 0 \<and> unat a < 2 ^ 32 \<and>
           \<not> pmm_test_bit (unat a div 4096) p \<and> pmm_test_bit (unat a div 4096) q"
proof -
  have "length (replicate n ()) \<le> pages.free_count p"
    using assms(1,3) by (simp add: free_count_pages pmm_free_pages_def)
  then obtain "is" r where al: "pages.alloc_all (replicate n ()) p = Some (is, r)"
    using pages.alloc_all_total [OF assms(1)] by blast
  have eq: "as = map (\<lambda>i. of_nat i * 4096) is" "q = r" using alloc_pages_slots [OF al] assms(4) by auto
  have "is": "distinct is" "set is \<subseteq> free_set p" "pmm_inv q"
    using pages.alloc_all_slots [OF assms(1) al] eq by auto
  then have sub: "set is \<subseteq> {..<PMM_MAX_PAGES}" by (auto simp: free_set_def)
  show len: "length as = n" using al eq(1)
  proof (induction n arbitrary: p "is" as)
    case (Suc n)
    then show ?case by (auto split: option.splits)
  qed simp
  show "distinct as" using "is"(1) inj_on_subset [OF page_address_inj sub] by (simp add: eq distinct_map)
  show "pmm_inv q" by (rule "is"(3))
  have cnt: "unat (g_free_pages q) + length is = unat (g_free_pages p)" "free_set q = free_set p - set is"
    using alloc_slot_counts [OF assms(1) al] by (simp_all add: eq(2))
  show "unat (pmm_free_pages q) + n = unat (pmm_free_pages p)"
    using cnt(1) len by (simp add: pmm_free_pages_def eq(1))
  show "\<forall>a\<in>set as. a \<noteq> 0 \<and> unat a mod 4096 = 0 \<and> unat a < 2 ^ 32 \<and>
           \<not> pmm_test_bit (unat a div 4096) p \<and> pmm_test_bit (unat a div 4096) q"
  proof
    fix a assume "a \<in> set as"
    then obtain i where i: "i \<in> set is" and a: "a = of_nat i * 4096" by (auto simp: eq(1))
    have u: "unat a = i * 4096" using page_address sub i a by auto
    have f: "i < PMM_MAX_PAGES" "\<not> pmm_test_bit i p" "i \<notin> free_set q" using i "is"(2) cnt(2) by (auto simp: free_set_def)
    moreover have "a \<noteq> 0" using u f(2) assms(2) by (cases "i = 0") auto
    ultimately show "a \<noteq> 0 \<and> unat a mod 4096 = 0 \<and> unat a < 2 ^ 32 \<and>
           \<not> pmm_test_bit (unat a div 4096) p \<and> pmm_test_bit (unat a div 4096) q"
      by (simp add: u free_set_def) (simp add: PMM_MAX_PAGES_def)
  qed
qed

text \<open>
  C27: Physical pages are handed out once. From a state whose counter agrees with the bitmap and in
  which page 0 is taken, as many calls of \<^verbatim>\<open>pmm_alloc_page\<close> as the counter says succeed: they return
  pairwise different, nonzero, page aligned addresses below 4 GiB, all of pages that were free before
  and are taken afterwards, and the counter has gone down by exactly the number of calls.
\<close>

theorem pmm_alloc_pages_distinct:
  assumes "pmm_inv p" and "pmm_test_bit 0 p" and "n \<le> unat (pmm_free_pages p)"
    and "alloc_pages n p = (as, q)"
  shows "distinct as \<and> length as = n \<and> pmm_inv q \<and>
    unat (pmm_free_pages q) + n = unat (pmm_free_pages p) \<and>
    (\<forall>a\<in>set as. a \<noteq> 0 \<and> unat a mod 4096 = 0 \<and> unat a < 2 ^ 32 \<and>
       \<not> pmm_test_bit (unat a div 4096) p \<and> pmm_test_bit (unat a div 4096) q)"
  using alloc_pages_props [OF assms] by blast

lemma blank_inv [invariants]: "pmm_inv pmm_blank"
  by (simp add: pmm_inv_def free_set_def) (simp add: pmm_blank_def)

theorem pmm_alloc_pages_distinct_witness:
  "\<exists>a b q. alloc_pages 2 (pmm_free_page 0x5000 (pmm_free_page 0x3000 pmm_blank)) = ([a, b], q) \<and> a \<noteq> b \<and> a \<noteq> 0 \<and> b \<noteq> 0"
proof -
  let ?p = "pmm_free_page 0x5000 (pmm_free_page 0x3000 pmm_blank)"
  have z: "pmm_test_bit 0 ?p" by (simp add: pmm_free_page_def PMM_MAX_PAGES_def)
  have n: "2 \<le> unat (pmm_free_pages ?p)"
    by (simp add: pmm_free_pages_def pmm_free_page_def PMM_MAX_PAGES_def) (simp add: pmm_blank_def)
  obtain as q where r: "alloc_pages 2 ?p = (as, q)" by (cases "alloc_pages 2 ?p")
  note w = pmm_alloc_pages_distinct [OF free_page_inv [OF free_page_inv [OF blank_inv]] z n r]
  then obtain a b where "as = [a, b]" by (auto simp: numeral_2_eq_2 length_Suc_conv)
  then show ?thesis using r w by auto
qed

subsection \<open>Release\<close>

lemma set_clear_bitmap: "\<not> pmm_test_bit a p \<Longrightarrow> g_bitmap (pmm_clear_bit a (pmm_set_bit a p)) = g_bitmap p"
  by (rule ext, rule bit_eqI)
    (auto simp: pmm_clear_bit_def pmm_set_bit_def test_bit_iff bit_simps dest: bit_imp_le_length)

text \<open>
  C40: Releasing the page that \<^verbatim>\<open>pmm_alloc_page\<close> just returned gives back the whole state of the
  allocator, and releasing it a second time does nothing: a double free is ignored.
\<close>

theorem pmm_alloc_free_roundtrip:
  assumes "pmm_inv p" and "0 < pmm_free_pages p" and "pmm_alloc_page p = (a, q)"
  shows "pmm_free_page a q = p \<and> pmm_free_page a p = p"
proof -
  have "0 < unat (g_free_pages p)" using assms(2) by (simp add: pmm_free_pages_def word_less_nat_alt)
  then have "free_set p \<noteq> {}" using assms(1) by (auto simp: pmm_inv_def)
  then obtain i where al: "alloc_slot () p = Some (i, q)" and a: "a = of_nat i * 4096"
    using assms(3) alloc_slot_None_iff [of "()" p] by (auto simp: pmm_alloc_page_slot split: option.splits)
  note d = alloc_slot_SomeD [OF al]
  have i: "i < PMM_MAX_PAGES" "\<not> pmm_test_bit i p" using d(1) by (auto simp: free_set_def)
  have u: "unat (a div 4096) = i" using page_address [OF i(1)] by (simp add: a unat_div)
  have q: "q = (pmm_set_bit i p)\<lparr>g_free_pages := g_free_pages p - 1\<rparr>"
    using d(3) \<open>0 < unat (g_free_pages p)\<close> by (auto simp: dec_free_def)
  then have "pmm_free_page a q = (pmm_clear_bit i (pmm_set_bit i p))"
    using i(1) by (simp add: pmm_free_page_def u) (simp add: pmm_clear_bit_def pmm_set_bit_def)
  also have "\<dots> = p" using set_clear_bitmap [OF i(2)] by (simp add: pmm_clear_bit_def pmm_set_bit_def)
  finally show ?thesis using i(2) by (simp add: pmm_free_page_def u)
qed

theorem pmm_alloc_free_roundtrip_witness:
  "pmm_free_page (fst (pmm_alloc_page (pmm_free_page 0x3000 pmm_blank))) (snd (pmm_alloc_page (pmm_free_page 0x3000 pmm_blank)))
    = pmm_free_page 0x3000 pmm_blank"
proof -
  let ?p = "pmm_free_page 0x3000 pmm_blank"
  have "0 < pmm_free_pages ?p"
    by (simp add: pmm_free_pages_def pmm_free_page_def PMM_MAX_PAGES_def) (simp add: pmm_blank_def)
  then show ?thesis
    using pmm_alloc_free_roundtrip [OF free_page_inv [OF blank_inv], of "0x3000"] by simp
qed

subsection \<open>Initialisation\<close>

text \<open>
  The boot information as data: \<open>mmap_walk\<close> reads the entries of one memory map tag, \<open>boot_tags\<close> the
  entries of all memory map tags up to the end tag.
\<close>

type_synonym mmap_ent = "u64 \<times> u64 \<times> u32"

inductive mmap_walk :: "mbmem \<Rightarrow> u64 \<Rightarrow> u64 \<Rightarrow> u64 \<Rightarrow> mmap_ent list \<Rightarrow> bool" for mem sz limit where
  stop: "\<not> cursor < limit \<Longrightarrow> mmap_walk mem sz limit cursor []"
| entry: "cursor < limit \<Longrightarrow> mmap_walk mem sz limit (cursor + sz) es \<Longrightarrow>
    mmap_walk mem sz limit cursor
      ((load64 mem cursor, load64 mem (cursor + 8), load32 mem (cursor + 16)) # es)"

inductive boot_tags :: "mbmem \<Rightarrow> u64 \<Rightarrow> mmap_ent list \<Rightarrow> bool" for mem where
  stop: "tag_type mem t = 0 \<Longrightarrow> boot_tags mem t []"
| mmap: "tag_type mem t = 6 \<Longrightarrow>
    mmap_walk mem (ucast (load32 mem (t + 8))) (t + ucast (tag_size mem t)) (t + 16) es \<Longrightarrow>
    boot_tags mem (multiboot2_next_tag mem t) fs \<Longrightarrow> boot_tags mem t (es @ fs)"
| other: "tag_type mem t \<noteq> 0 \<Longrightarrow> tag_type mem t \<noteq> 6 \<Longrightarrow>
    boot_tags mem (multiboot2_next_tag mem t) fs \<Longrightarrow> boot_tags mem t fs"

definition add_entry :: "mmap_ent \<Rightarrow> pmm \<Rightarrow> pmm" where
  "add_entry e p = (case e of (a, l, ty) \<Rightarrow> mmap_entry a l ty p)"

lemma mmap_loop_walk: "mmap_walk mem sz limit cursor es \<Longrightarrow> mmap_loop mem sz cursor limit p = Some (fold add_entry es p)"
proof (induction arbitrary: p rule: mmap_walk.induct)
  case (stop cursor)
  then show ?case by (simp add: mmap_loop.simps [of mem sz cursor])
next
  case (entry cursor es)
  then show ?case by (simp add: mmap_loop.simps [of mem sz cursor] add_entry_def)
qed

lemma tag_loop_tags: "boot_tags mem t es \<Longrightarrow> tag_loop mem t p = Some (fold add_entry es p)"
proof (induction arbitrary: p rule: boot_tags.induct)
  case (stop t)
  then show ?case by (simp add: tag_loop.simps [of mem t])
next
  case (mmap t es fs)
  then show ?case by (simp add: tag_loop.simps [of mem t] mmap_tag_def mmap_loop_walk)
next
  case (other t fs)
  then show ?case by (simp add: tag_loop.simps [of mem t] mmap_tag_def)
qed

text \<open>With a positive entry size, and a tag that does not reach the end of the address space, the
  walk of one tag ends.\<close>

lemma mmap_walk_total:
  assumes "sz \<noteq> 0" and "unat limit + unat sz < 2 ^ 64"
  shows "\<exists>es. mmap_walk mem sz limit cursor es"
proof (induction "unat limit - unat cursor" arbitrary: cursor rule: less_induct)
  case less
  show ?case
  proof (cases "cursor < limit")
    case False
    then show ?thesis by (blast intro: mmap_walk.stop)
  next
    case True
    then have c: "unat cursor < unat limit" by (simp add: word_less_nat_alt)
    then have "unat (cursor + sz) = unat cursor + unat sz"
      using assms(2) by (intro unat_add_lem [THEN iffD1]) simp
    moreover have "0 < unat sz" using assms(1) by (simp add: unat_gt_0)
    ultimately have "unat limit - unat (cursor + sz) < unat limit - unat cursor" using c by linarith
    then show ?thesis using less [of "cursor + sz"] True by (blast intro: mmap_walk.entry)
  qed
qed

definition entry_pages :: "mmap_ent \<Rightarrow> nat set" where
  "entry_pages e = (case e of (a, l, ty) \<Rightarrow>
     if ty = 1 then {unat a div 4096 ..< min PMM_MAX_PAGES (unat (a + l) div 4096)} else {})"

lemma free_loop_props:
  "(pmm_test_bit b (free_loop f l p) \<longleftrightarrow> pmm_test_bit b p \<and> \<not> (f \<le> b \<and> b < l)) \<and>
   g_free_pages (free_loop f l p) = g_free_pages p + of_nat (l - f) \<and>
   g_total_pages (free_loop f l p) = g_total_pages p + of_nat (l - f)"
proof (induction f l p rule: free_loop.induct)
  case (1 f l p)
  show ?case
  proof (cases "f < l")
    case True
    have "l - f = Suc (l - Suc f)" using True by simp
    then show ?thesis using True 1 by (auto simp: free_loop.simps [of f l p])
  next
    case False
    then show ?thesis by (auto simp: free_loop.simps [of f l p])
  qed
qed

lemma add_entry_props:
  "pmm_test_bit b (add_entry e p) \<longleftrightarrow> pmm_test_bit b p \<and> b \<notin> entry_pages e"
  "g_free_pages (add_entry e p) = g_free_pages p + of_nat (card (entry_pages e))"
  "g_total_pages (add_entry e p) = g_total_pages p + of_nat (card (entry_pages e))"
  using free_loop_props
  by (auto simp: add_entry_def mmap_entry_def entry_pages_def Let_def unat_div min_def split: prod.splits)

lemma fold_add_entry_props:
  "pmm_test_bit b (fold add_entry es p) \<longleftrightarrow> pmm_test_bit b p \<and> (\<forall>e\<in>set es. b \<notin> entry_pages e)"
  "g_free_pages (fold add_entry es p) = g_free_pages p + of_nat (\<Sum>e\<leftarrow>es. card (entry_pages e))"
  "g_total_pages (fold add_entry es p) = g_total_pages p + of_nat (\<Sum>e\<leftarrow>es. card (entry_pages e))"
  by (induction es arbitrary: p) (auto simp: add_entry_props)

fun disjoint_entries :: "mmap_ent list \<Rightarrow> bool" where
  "disjoint_entries [] = True"
| "disjoint_entries (e # es) \<longleftrightarrow> (\<forall>f\<in>set es. entry_pages e \<inter> entry_pages f = {}) \<and> disjoint_entries es"

lemma entry_pages_bound: "entry_pages e \<subseteq> {..<PMM_MAX_PAGES}" "finite (entry_pages e)"
  by (auto simp: entry_pages_def split: prod.splits if_splits)

lemma sum_disjoint_entries:
  "disjoint_entries es \<Longrightarrow> (\<Sum>e\<leftarrow>es. card (entry_pages e)) = card (\<Union> (entry_pages ` set es))"
proof (induction es)
  case (Cons e es)
  have "card (entry_pages e \<union> \<Union> (entry_pages ` set es)) = card (entry_pages e) + card (\<Union> (entry_pages ` set es))"
    using Cons.prems entry_pages_bound(2) by (intro card_Un_disjoint) auto
  then show ?case using Cons by simp
qed simp

lemma boot_inv:
  assumes "disjoint_entries es"
  shows "pmm_inv (fold add_entry es pmm_blank)"
proof -
  let ?A = "\<Union> (entry_pages ` set es)"
  have fs: "free_set (fold add_entry es pmm_blank) = ?A"
    using entry_pages_bound(1) by (auto simp: free_set_def fold_add_entry_props)
  have "card ?A \<le> card {..<PMM_MAX_PAGES}"
    using entry_pages_bound(1) by (intro card_mono) auto
  then have "unat (of_nat (card ?A) :: u64) = card ?A"
    by (simp add: unat_of_nat PMM_MAX_PAGES_def)
  then show ?thesis
    unfolding pmm_inv_def fs by (simp add: fold_add_entry_props sum_disjoint_entries [OF assms]) (simp add: pmm_blank_def)
qed

text \<open>
  C14: Boot. On boot information whose tags end and whose memory map entries cover disjoint pages,
  \<^verbatim>\<open>pmm_init\<close> returns; afterwards a page is free exactly when an available entry covers it and it lies
  neither in the first megabyte nor in the kernel image, the counter of free pages is the number of
  clear bits, and page 0 is never free.
\<close>

theorem pmm_init_correct:
  assumes "boot_tags mem (multiboot2_first_tag info) es" and "disjoint_entries es"
  shows "\<exists>p log. pmm_init mem info kernel_start kernel_end = Some (p, log) \<and> pmm_inv p \<and> pmm_test_bit 0 p \<and>
    (\<forall>page < PMM_MAX_PAGES. \<not> pmm_test_bit page p \<longleftrightarrow>
       (\<exists>e\<in>set es. page \<in> entry_pages e) \<and> 256 \<le> page \<and>
       \<not> (unat (kernel_start div 4096) \<le> page \<and> page < unat ((kernel_end + 4095) div 4096)))"
proof -
  have m: "unat (((0x100000 :: u64) + 4095) div 4096) = 256" by simp
  define p where "p = reserve_range kernel_start kernel_end (reserve_range 0 0x100000 (fold add_entry es pmm_blank))"
  have r: "\<exists>log. pmm_init mem info kernel_start kernel_end = Some (p, log)"
    by (simp add: pmm_init_def tag_loop_tags [OF assms(1)] p_def Let_def)
  have i: "pmm_inv p" unfolding p_def by (intro invariants boot_inv assms)
  have t: "pmm_test_bit page p \<longleftrightarrow> (\<forall>e\<in>set es. page \<notin> entry_pages e) \<or> page < 256 \<or>
      unat (kernel_start div 4096) \<le> page \<and> page < unat ((kernel_end + 4095) div 4096)"
    if "page < PMM_MAX_PAGES" for page
    unfolding p_def reserve_range_test fold_add_entry_props m using that by auto
  have z: "pmm_test_bit 0 p" using t [of 0] by (simp add: PMM_MAX_PAGES_def)
  show ?thesis using r i z t by (metis not_le)
qed

definition sample_boot :: mbmem where
  "sample_boot a = (if a = 8 then 6 else if a = 12 then 40 else if a = 16 then 24 else
     if a = 26 then 0x20 else if a = 33 then 0x30 else if a = 40 then 1 else 0)"

lemma sample_boot_tags: "boot_tags sample_boot (multiboot2_first_tag 0) [(0x200000, 0x3000, 1)]"
proof -
  have l: "load64 sample_boot 24 = 0x200000" "load64 sample_boot 32 = 0x3000" "load32 sample_boot 40 = 1"
    "load32 sample_boot 16 = 24" "tag_size sample_boot 8 = 40" "tag_type sample_boot 8 = 6" "tag_type sample_boot 48 = 0"
    by (simp_all add: load64_def load32_def tag_size_def tag_type_def sample_boot_def)
  have n: "multiboot2_next_tag sample_boot 8 = 48" by (simp add: multiboot2_next_tag_def l)
  have "mmap_walk sample_boot 24 48 24 [(0x200000, 0x3000, 1)]"
    using mmap_walk.entry [of 24 48 sample_boot 24 "[]"] mmap_walk.stop [of 48 48] by (simp add: l)
  then show ?thesis
    using boot_tags.mmap [of sample_boot 8 "[(0x200000, 0x3000, 1)]" "[]"] boot_tags.stop [of sample_boot 48]
    by (simp add: l n multiboot2_first_tag_def)
qed

theorem pmm_init_correct_witness:
  "\<exists>p log. pmm_init sample_boot 0 0x100000 0x201000 = Some (p, log) \<and> pmm_test_bit 0x200 p \<and> \<not> pmm_test_bit 0x201 p"
proof -
  obtain p log where r: "pmm_init sample_boot 0 0x100000 0x201000 = Some (p, log)"
    and f: "\<forall>page < PMM_MAX_PAGES. \<not> pmm_test_bit page p \<longleftrightarrow>
       page \<in> entry_pages (0x200000, 0x3000, 1) \<and> 256 \<le> page \<and>
       \<not> (unat ((0x100000 :: u64) div 4096) \<le> page \<and> page < unat (((0x201000 :: u64) + 4095) div 4096))"
    using pmm_init_correct [OF sample_boot_tags, of "0x100000" "0x201000"] by auto
  show ?thesis
    using r f [rule_format, of "0x200"] f [rule_format, of "0x201"] by (auto simp: PMM_MAX_PAGES_def entry_pages_def)
qed

text \<open>
  Without the disjointness of the entries the counters go wrong (a page covered twice is counted
  twice), and the release of a page that never was free makes it allocatable: page 0, whose address
  is the failure value of \<^verbatim>\<open>pmm_alloc_page\<close>, is handed out next.
\<close>

lemma pmm_free_page_zero: "fst (pmm_alloc_page (pmm_free_page 0 pmm_blank)) = 0 \<and>
    pmm_free_pages (snd (pmm_alloc_page (pmm_free_page 0 pmm_blank))) = 0 \<and>
    pmm_used_pages (pmm_free_page 0 pmm_blank) = 0xFFFFFFFFFFFFFFFF"
proof -
  have f: "pmm_free_page 0 pmm_blank = (pmm_clear_bit 0 pmm_blank)\<lparr>g_free_pages := 1\<rparr>"
    by (simp add: pmm_free_page_def PMM_MAX_PAGES_def) (simp add: pmm_blank_def)
  have "scan_from (\<lambda>page. \<not> pmm_test_bit page ((pmm_clear_bit 0 pmm_blank)\<lparr>g_free_pages := 1\<rparr>)) 0 PMM_MAX_PAGES = Some 0"
    by (simp add: scan_from_Some_iff PMM_MAX_PAGES_def)
  then show ?thesis
    by (simp add: pmm_alloc_page_def f pmm_free_pages_def dec_free_def pmm_used_pages_def) (simp add: pmm_blank_def)
qed

end
