(* ===== verification/Sched.thy ===== *)
theory Sched
  imports Task Pmm
begin

text \<open>
  Model of \<^verbatim>\<open>src/kernel/scheduler.c\<close>, \<^verbatim>\<open>src/kernel/safeboot.c\<close>, \<^verbatim>\<open>src/kernel/signal.c\<close> and of
  \<^verbatim>\<open>kernel_halt\<close>, \<^verbatim>\<open>kernel_reboot\<close> and \<^verbatim>\<open>kernel_panic\<close> of \<^verbatim>\<open>src/kernel/main.c\<close>. A function that does not
  return stops the machine: its value is the way it stops and the last state, and a caller that may
  stop returns a sum whose left side is that stop. The bytes read from the keyboard controller are an
  input, a function from the number of the read to the byte.
\<close>

datatype io_op = In8 u16 | Out8 u16 u8

datatype power = Halted | Rebooted

record machine =
  m_irq :: bool
  m_tasks :: task_table
  m_action :: int
  m_io :: "io_op list"
  m_log :: "con_call list"

definition say :: "con_call list \<Rightarrow> machine \<Rightarrow> machine" where
  "say cs m = m\<lparr>m_log := m_log m @ cs\<rparr>"

definition interrupt_disable :: "machine \<Rightarrow> machine" where
  "interrupt_disable m = m\<lparr>m_irq := False\<rparr>"

definition interrupt_enable :: "machine \<Rightarrow> machine" where
  "interrupt_enable m = m\<lparr>m_irq := True\<rparr>"

definition kernel_halt :: "machine \<Rightarrow> power \<times> machine" where
  "kernel_halt m = (Halted, m\<lparr>m_irq := False\<rparr>)"

definition reboot_polls :: "(nat \<Rightarrow> u8) \<Rightarrow> nat" where
  "reboot_polls status = (case scan_from (\<lambda>i. status i AND 2 = 0) 0 100000 of None \<Rightarrow> 100000 | Some i \<Rightarrow> Suc i)"

definition kernel_reboot :: "(nat \<Rightarrow> u8) \<Rightarrow> machine \<Rightarrow> power \<times> machine" where
  "kernel_reboot status m =
     (Rebooted, m\<lparr>m_irq := False,
        m_io := m_io m @ replicate (reboot_polls status) (In8 0x64) @ [Out8 0x64 0xFE]\<rparr>)"

subsection \<open>Safe boot\<close>

definition SAFEBOOT_ACTION_REBOOT :: int where "SAFEBOOT_ACTION_REBOOT = 0"
definition SAFEBOOT_ACTION_SHUTDOWN :: int where "SAFEBOOT_ACTION_SHUTDOWN = 1"

definition safeboot_set_action :: "int \<Rightarrow> machine \<Rightarrow> machine" where
  "safeboot_set_action action m =
     (if action = SAFEBOOT_ACTION_REBOOT \<or> action = SAFEBOOT_ACTION_SHUTDOWN then m\<lparr>m_action := action\<rparr> else m)"

definition safeboot_get_action :: "machine \<Rightarrow> int" where
  "safeboot_get_action m = m_action m"

definition vpid :: "int \<Rightarrow> varg" where
  "vpid p = vunsigned (word_of_int p)"

definition kill_suspect :: "int \<Rightarrow> machine \<Rightarrow> machine" where
  "kill_suspect suspect_pid m =
     (if suspect_pid > 1 then
        case task_kill suspect_pid 137 (m_tasks m) of (ok, tt) \<Rightarrow>
          if ok then say [Printf (''safeboot: killed suspect pid=%u'' @ [CHR 0x0A]) [vpid suspect_pid]] (m\<lparr>m_tasks := tt\<rparr>)
          else say [Printf (''safeboot: suspect pid=%u not killable'' @ [CHR 0x0A]) [vpid suspect_pid]] (m\<lparr>m_tasks := tt\<rparr>)
      else m)"

definition safeboot_trigger :: "(nat \<Rightarrow> u8) \<Rightarrow> string option \<Rightarrow> int \<Rightarrow> machine \<Rightarrow> power \<times> machine" where
  "safeboot_trigger status reason suspect_pid m =
     (let m1 = say [Printf (''safeboot: reason=%s'' @ [CHR 0x0A])
                 [VStr (Some (case reason of Some r \<Rightarrow> r | None \<Rightarrow> ''unknown''))]] (interrupt_disable m);
          m2 = kill_suspect suspect_pid m1
      in if m_action m2 = SAFEBOOT_ACTION_SHUTDOWN
         then kernel_halt (say [Writeln ''safeboot: policy=shutdown'' []] m2)
         else kernel_reboot status (say [Writeln ''safeboot: policy=reboot'' []] m2))"

definition kernel_panic :: "(nat \<Rightarrow> u8) \<Rightarrow> string \<Rightarrow> machine \<Rightarrow> power \<times> machine" where
  "kernel_panic status message m =
     (let suspect = task_find_likely_memory_leaker (m_tasks m)
      in safeboot_trigger status (Some ''kernel panic'') suspect
           (say [Printf ([CHR 0x0A] @ ''PANIC: %s'' @ [CHR 0x0A]) [VStr (Some message)]] m))"

subsection \<open>Signals\<close>

definition signal_init :: "machine \<Rightarrow> machine" where "signal_init m = m"

definition signal_send :: "int \<Rightarrow> int \<Rightarrow> task_table \<Rightarrow> int" where
  "signal_send p signum tt = (if task_find p tt \<noteq> None then 0 else -1)"

subsection \<open>Scheduler and memory guard\<close>

record sched =
  g_uptime_ticks :: u64
  g_memguard_boot_free_pages :: u64
  g_memguard_prev_free_pages :: u64
  g_memguard_critical_streak :: u32

definition MGCORE_HZ :: u64 where "MGCORE_HZ = 100"

definition scheduler_init :: "pmm \<Rightarrow> sched \<times> con_call list" where
  "scheduler_init p =
     (\<lparr>g_uptime_ticks = 0, g_memguard_boot_free_pages = pmm_free_pages p,
       g_memguard_prev_free_pages = pmm_free_pages p, g_memguard_critical_streak = 0\<rparr>,
      [Printf (''sched: round-robin %u Hz slice=%u ticks'' @ [CHR 0x0A]) [VInt 100, VInt 10]])"

definition guard_critical :: "pmm \<Rightarrow> bool" where
  "guard_critical p \<longleftrightarrow>
     \<not> (pmm_free_pages p * 100 > pmm_total_pages p * 5 \<and> pmm_free_pages p > 128)"

definition leak_signature :: "pmm \<Rightarrow> sched \<Rightarrow> bool" where
  "leak_signature p s \<longleftrightarrow>
     g_memguard_boot_free_pages s > pmm_free_pages p + 256 \<or> g_memguard_prev_free_pages s > pmm_free_pages p"

definition memory_guard_tick ::
  "(nat \<Rightarrow> u8) \<Rightarrow> pmm \<Rightarrow> sched \<times> machine \<Rightarrow> (power \<times> machine) + (sched \<times> machine)" where
  "memory_guard_tick status p sm = (case sm of (s, m) \<Rightarrow>
     let total = pmm_total_pages p; free = pmm_free_pages p
     in if total = 0 then Inr (s, m)
        else if \<not> guard_critical p
        then Inr (s\<lparr>g_memguard_critical_streak := 0, g_memguard_prev_free_pages := free\<rparr>, m)
        else
          let streak = g_memguard_critical_streak s + 1;
              sig = leak_signature p s;
              s1 = s\<lparr>g_memguard_critical_streak := streak, g_memguard_prev_free_pages := free\<rparr>
          in if \<not> sig \<or> streak < 5
             then Inr (s1, if streak mod 5 = 0
                           then say [Printf (''memguard: critical pressure free=%u/%u pages (observing)'' @ [CHR 0x0A])
                                       [vunsigned free, vunsigned total]] m
                           else m)
             else
               let suspect = task_find_likely_memory_leaker (m_tasks m)
               in if suspect > 0
                  then Inl (safeboot_trigger status (Some ''memory leak detected'') suspect
                         (say [Printf (''memguard: free=%u/%u pages suspect pid=%u'' @ [CHR 0x0A])
                                 [vunsigned free, vunsigned total, vpid suspect]] m))
                  else Inr (s1, say [Printf (''memguard: leak signature without suspect free=%u/%u pages'' @ [CHR 0x0A])
                                       [vunsigned free, vunsigned total]] m))"

definition scheduler_tick ::
  "(nat \<Rightarrow> u8) \<Rightarrow> pmm \<Rightarrow> sched \<times> machine \<Rightarrow> (power \<times> machine) + (sched \<times> machine)" where
  "scheduler_tick status p sm = (case sm of (s, m) \<Rightarrow>
     let now = g_uptime_ticks s + 1;
         s1 = s\<lparr>g_uptime_ticks := now\<rparr>;
         m1 = m\<lparr>m_tasks := task_scheduler_tick now (m_tasks m)\<rparr>
     in if now mod MGCORE_HZ = 0 then memory_guard_tick status p (s1, m1) else Inr (s1, m1))"

definition scheduler_uptime_ticks :: "sched \<Rightarrow> u64" where
  "scheduler_uptime_ticks s = g_uptime_ticks s"

definition scheduler_uptime_ms :: "sched \<Rightarrow> u64" where
  "scheduler_uptime_ms s = (g_uptime_ticks s * 1000) div MGCORE_HZ"

definition scheduler_dump :: "sched \<Rightarrow> con_call list" where
  "scheduler_dump s = [Printf (''uptime: %u ticks (%u ms)'' @ [CHR 0x0A])
     [vunsigned (g_uptime_ticks s), vunsigned (scheduler_uptime_ms s)]]"

subsection \<open>Lemmas\<close>

lemma say_sel [simp]:
  "m_tasks (say cs m) = m_tasks m" "m_action (say cs m) = m_action m" "m_irq (say cs m) = m_irq m" "m_io (say cs m) = m_io m"
  by (simp_all add: say_def)

lemma kill_suspect_tasks:
  "m_tasks (kill_suspect p m) = (if p > 1 then snd (task_kill p 137 (m_tasks m)) else m_tasks m)"
  "m_action (kill_suspect p m) = m_action m"
  by (auto simp: kill_suspect_def split: prod.splits)

lemma safeboot_trigger_props:
  "m_irq (snd (safeboot_trigger status r p m)) = False"
  "m_tasks (snd (safeboot_trigger status r p m)) = (if p > 1 then snd (task_kill p 137 (m_tasks m)) else m_tasks m)"
  "fst (safeboot_trigger status r p m) = (if m_action m = SAFEBOOT_ACTION_SHUTDOWN then Halted else Rebooted)"
  by (simp_all add: safeboot_trigger_def Let_def kernel_halt_def kernel_reboot_def kill_suspect_tasks interrupt_disable_def)

text \<open>Samples of the guard: the free page counts seen at successive guard ticks, in order.\<close>

fun guard_run :: "(nat \<Rightarrow> u8) \<Rightarrow> pmm list \<Rightarrow> sched \<times> machine \<Rightarrow> (power \<times> machine) + (sched \<times> machine)" where
  "guard_run status [] sm = Inr sm"
| "guard_run status (p # ps) sm =
     (case memory_guard_tick status p sm of Inl stop \<Rightarrow> Inl stop | Inr sm' \<Rightarrow> guard_run status ps sm')"

definition pressed :: "pmm \<Rightarrow> bool" where
  "pressed p \<longleftrightarrow> pmm_total_pages p \<noteq> 0 \<and> guard_critical p"

text \<open>The number of critical samples at the end of a history, samples of an empty memory map not counted.\<close>

definition trailing :: "pmm list \<Rightarrow> nat" where
  "trailing h = length (takeWhile pressed (rev (filter (\<lambda>p. pmm_total_pages p \<noteq> 0) h)))"

lemma trailing_snoc:
  "trailing (h @ [p]) = (if pmm_total_pages p = 0 then trailing h else if guard_critical p then Suc (trailing h) else 0)"
  by (simp add: trailing_def pressed_def)

lemma guard_tick_streak:
  assumes "memory_guard_tick status p (s, m) = Inr (s', m')"
    and "unat (g_memguard_critical_streak s) \<le> trailing h"
  shows "unat (g_memguard_critical_streak s') \<le> trailing (h @ [p])" and "m_tasks m' = m_tasks m"
proof -
  have "unat (g_memguard_critical_streak s + 1) \<le> Suc (unat (g_memguard_critical_streak s))"
    using unat_word_ariths(1) [of "g_memguard_critical_streak s" 1] by simp
  then show "unat (g_memguard_critical_streak s') \<le> trailing (h @ [p])"
    using assms by (auto simp: memory_guard_tick_def Let_def trailing_snoc split: if_splits)
  show "m_tasks m' = m_tasks m"
    using assms(1) by (auto simp: memory_guard_tick_def Let_def split: if_splits)
qed

lemma guard_tick_stop:
  assumes "memory_guard_tick status p (s, m) = Inl (pw, m')"
    and "unat (g_memguard_critical_streak s) \<le> trailing h"
  shows "5 \<le> trailing (h @ [p])" and "pressed p" and "leak_signature p s"
    and "0 < task_find_likely_memory_leaker (m_tasks m)"
    and "\<exists>m0. m_tasks m0 = m_tasks m \<and> m_action m0 = m_action m \<and>
      (pw, m') = safeboot_trigger status (Some ''memory leak detected'') (task_find_likely_memory_leaker (m_tasks m)) m0"
proof -
  have c: "pressed p" "leak_signature p s" "\<not> g_memguard_critical_streak s + 1 < 5"
    "0 < task_find_likely_memory_leaker (m_tasks m)"
    using assms(1) by (auto simp: memory_guard_tick_def Let_def pressed_def split: if_splits)
  have "5 \<le> unat (g_memguard_critical_streak s + 1)"
    using c(3) by (simp add: word_less_nat_alt)
  moreover have "unat (g_memguard_critical_streak s + 1) \<le> Suc (unat (g_memguard_critical_streak s))"
    using unat_word_ariths(1) [of "g_memguard_critical_streak s" 1] by simp
  ultimately show "5 \<le> trailing (h @ [p])" using c(1) assms(2) by (simp add: trailing_snoc pressed_def)
  show "pressed p" "leak_signature p s" "0 < task_find_likely_memory_leaker (m_tasks m)" using c by auto
  show "\<exists>m0. m_tasks m0 = m_tasks m \<and> m_action m0 = m_action m \<and>
      (pw, m') = safeboot_trigger status (Some ''memory leak detected'') (task_find_likely_memory_leaker (m_tasks m)) m0"
    using assms(1) by (auto simp: memory_guard_tick_def Let_def split: if_splits intro!: exI [of _ "say [Printf (''memguard: free=%u/%u pages suspect pid=%u'' @ [CHR 0x0A])
        [vunsigned (pmm_free_pages p), vunsigned (pmm_total_pages p), vpid (task_find_likely_memory_leaker (m_tasks m))]] m"])
qed

lemma guard_run_stop:
  "guard_run status ps (s, m) = Inl (pw, m') \<Longrightarrow> unat (g_memguard_critical_streak s) \<le> trailing h \<Longrightarrow>
   \<exists>n < length ps. 5 \<le> trailing (h @ take (Suc n) ps) \<and> 0 < task_find_likely_memory_leaker (m_tasks m) \<and>
     (\<exists>m0. m_tasks m0 = m_tasks m \<and>
       (pw, m') = safeboot_trigger status (Some ''memory leak detected'') (task_find_likely_memory_leaker (m_tasks m)) m0)"
proof (induction ps arbitrary: s m h)
  case (Cons p ps)
  show ?case
  proof (cases "memory_guard_tick status p (s, m)")
    case (Inl stop)
    then have "memory_guard_tick status p (s, m) = Inl (pw, m')" using Cons.prems(1) by simp
    from guard_tick_stop [OF this Cons.prems(2)] show ?thesis by (auto intro!: exI [of _ 0])
  next
    case (Inr sm)
    obtain s1 m1 where sm: "sm = (s1, m1)" by (cases sm)
    note t = guard_tick_streak [OF Inr [unfolded sm] Cons.prems(2)]
    have "guard_run status ps (s1, m1) = Inl (pw, m')" using Cons.prems(1) Inr sm by simp
    from Cons.IH [OF this t(1)] obtain n where "n < length ps" "5 \<le> trailing ((h @ [p]) @ take (Suc n) ps)"
      "0 < task_find_likely_memory_leaker (m_tasks m1)"
      "\<exists>m0. m_tasks m0 = m_tasks m1 \<and>
       (pw, m') = safeboot_trigger status (Some ''memory leak detected'') (task_find_likely_memory_leaker (m_tasks m1)) m0"
      by blast
    then show ?thesis using t(2) by (intro exI [of _ "Suc n"]) simp
  qed
qed simp

text \<open>
  C30: The memory guard does not stop the machine on a spike. Started with a clear streak, a run of
  guard samples ends in a safe boot only at a sample at the end of at least five consecutive samples
  of critical pressure, and only with a suspect task: interrupts are then off and a suspect other
  than process 1 is a zombie with exit code 137.
\<close>

theorem memory_guard_stops_only_under_pressure:
  assumes "task_inv (m_tasks m)" and "g_memguard_critical_streak s = 0"
    and "guard_run status ps (s, m) = Inl (pw, m')"
  defines "suspect \<equiv> task_find_likely_memory_leaker (m_tasks m)"
  shows "0 < suspect \<and> m_irq m' = False \<and>
    (\<exists>n < length ps. 5 \<le> trailing (take (Suc n) ps)) \<and>
    (1 < suspect \<longrightarrow> (\<exists>i < MGCORE_MAX_TASKS. t_pid (g_tasks (m_tasks m) ! i) = suspect \<and>
       tstate (m_tasks m') i = TASK_ZOMBIE \<and> t_exit_code (g_tasks (m_tasks m') ! i) = 137))"
proof -
  have z: "unat (g_memguard_critical_streak s) \<le> trailing []" by (simp add: assms(2))
  from guard_run_stop [OF assms(3) z] obtain n m0 where n: "n < length ps" "5 \<le> trailing (take (Suc n) ps)"
    and su: "0 < suspect" and m0: "m_tasks m0 = m_tasks m"
    and sb: "(pw, m') = safeboot_trigger status (Some ''memory leak detected'') suspect m0"
    by (auto simp: suspect_def)
  have m': "m' = snd (safeboot_trigger status (Some ''memory leak detected'') suspect m0)"
    using sb by (metis snd_conv)
  have "\<exists>i < MGCORE_MAX_TASKS. t_pid (g_tasks (m_tasks m) ! i) = suspect \<and>
       tstate (m_tasks m') i = TASK_ZOMBIE \<and> t_exit_code (g_tasks (m_tasks m') ! i) = 137" if "1 < suspect"
  proof -
    obtain i where i: "i \<in> used (m_tasks m)" "suspect_candidate (g_tasks (m_tasks m) ! i)" "suspect = t_pid (g_tasks (m_tasks m) ! i)"
      using leaker_exists [OF assms(1)] su unfolding suspect_def by blast
    have "task_find suspect (m_tasks m) = Some i" using task_find_used [OF assms(1) i(1)] i(3) by simp
    then show ?thesis
      using i that task_invD(1) [OF assms(1)]
      by (auto simp: m' safeboot_trigger_props m0 task_kill_def suspect_candidate_def tstate_def used_def)
  qed
  then show ?thesis using n su by (auto simp: m' safeboot_trigger_props)
qed

definition leaky_table :: task_table where
  "leaky_table = upd_task 1 (\<lambda>e. e\<lparr>t_mm := (t_mm e)\<lparr>brk_current := 0x900000\<rparr>\<rparr>) (run_event (Spawn ''init'') sample_table)"

lemma leaky_table_spawn:
  obtains tt where "task_alloc (''init'', TASK_RUNNABLE) sample_table = Some (1, tt)"
proof -
  have "scan_from (\<lambda>i. tstate sample_table i = TASK_UNUSED) 0 MGCORE_MAX_TASKS = Some 1"
    by (simp add: scan_from_Some_iff sample_table_def task_init_sel tstate_def zero_task_def MGCORE_MAX_TASKS_def)
  then show thesis using that by (simp add: task_alloc_def)
qed

lemma leaky_table_props:
  shows "task_inv leaky_table" and "0 < task_find_likely_memory_leaker leaky_table"
proof -
  obtain tt where al: "task_alloc (''init'', TASK_RUNNABLE) sample_table = Some (1, tt)" by (rule leaky_table_spawn)
  let ?t1 = "run_event (Spawn ''init'') sample_table"
  have i1: "task_inv ?t1" by (rule run_event_inv [OF sample_table_inv])
  note d = task_alloc_SomeD [OF sample_table_inv al]
  have c0: "g_current_index tt = 0" using d(5) by (simp add: sample_table_def task_init_sel)
  have "g_tasks tt ! 0 = g_tasks sample_table ! 0" using d(15) [of 0] by (simp add: MGCORE_MAX_TASKS_def)
  then have p0: "t_pid (task_current tt) = 1"
    by (simp add: task_current_def c0 sample_table_def task_init_sel)
  have t1: "?t1 = upd_task 1 (\<lambda>e. e\<lparr>t_ppid := 1\<rparr>) tt" using al p0 by (simp add: task_spawn_user_def)
  show inv: "task_inv leaky_table" unfolding leaky_table_def
    by (rule upd_task_inv [OF i1]) simp_all
  let ?e = "g_tasks leaky_table ! 1"
  have "?e = (g_tasks tt ! 1)\<lparr>t_ppid := 1, t_mm := (t_mm (g_tasks tt ! 1))\<lparr>brk_current := 0x900000\<rparr>\<rparr>"
    using d(1,4) unfolding leaky_table_def t1 by simp
  then have sc: "suspect_candidate ?e" "0 < task_estimated_pages ?e"
    using d(10,11) by (auto simp: suspect_candidate_def tstate_def task_estimated_pages_def vmm_address_space_init_def)
  have "?e \<in> set (g_tasks leaky_table)" using task_invD(1) [OF inv] d(1) by simp
  then obtain e where e: "e \<in> set (g_tasks leaky_table)" "suspect_candidate e" "task_find_likely_memory_leaker leaky_table = t_pid e"
    using leaker_loop_spec [of "g_tasks leaky_table" 0 0, folded task_find_likely_memory_leaker_def] sc
    by (meson leD)
  then obtain i where "i < MGCORE_MAX_TASKS" "e = g_tasks leaky_table ! i"
    using task_invD(1) [OF inv] by (metis in_set_conv_nth)
  then have "0 < t_pid e" using e(2) task_invD(6) [OF inv, of i] by (simp add: used_def suspect_candidate_def tstate_def)
  then show "0 < task_find_likely_memory_leaker leaky_table" using e(3) by simp
qed

theorem memory_guard_stops_only_under_pressure_witness:
  "\<exists>pw m'. guard_run (\<lambda>_. 0) (replicate 5 (pmm_blank\<lparr>g_total_pages := 1000\<rparr>))
     (\<lparr>g_uptime_ticks = 0, g_memguard_boot_free_pages = 900, g_memguard_prev_free_pages = 900, g_memguard_critical_streak = 0\<rparr>,
      \<lparr>m_irq = True, m_tasks = leaky_table, m_action = 0, m_io = [], m_log = []\<rparr>) = Inl (pw, m') \<and> m_irq m' = False"
proof -
  let ?p = "pmm_blank\<lparr>g_total_pages := 1000\<rparr>"
  let ?s = "\<lparr>g_uptime_ticks = 0, g_memguard_boot_free_pages = 900, g_memguard_prev_free_pages = 900, g_memguard_critical_streak = 0\<rparr>"
  let ?m = "\<lparr>m_irq = True, m_tasks = leaky_table, m_action = 0, m_io = [], m_log = []\<rparr>"
  have p: "pmm_total_pages ?p = 1000" "pmm_free_pages ?p = 0" by (simp_all add: pmm_total_pages_def pmm_free_pages_def pmm_blank_def)
  have early: "memory_guard_tick (\<lambda>_. 0) ?p (s, m) =
      Inr (s\<lparr>g_memguard_critical_streak := g_memguard_critical_streak s + 1, g_memguard_prev_free_pages := 0\<rparr>, m)"
    if "g_memguard_critical_streak s \<in> {0, 1, 2, 3}" for s m
    using that by (elim insertE) (simp_all add: memory_guard_tick_def guard_critical_def p Let_def)
  have final: "\<exists>pw m'. memory_guard_tick (\<lambda>_. 0) ?p (s, ?m) = Inl (pw, m')"
    if "g_memguard_critical_streak s = 4" "g_memguard_boot_free_pages s = 900" for s
    using that leaky_table_props(2) by (simp add: memory_guard_tick_def guard_critical_def leak_signature_def p Let_def)
  have five: "replicate 5 ?p = [?p, ?p, ?p, ?p, ?p]" by (simp add: eval_nat_numeral)
  obtain pw m' where "memory_guard_tick (\<lambda>_. 0) ?p (?s\<lparr>g_memguard_critical_streak := 4, g_memguard_prev_free_pages := 0\<rparr>, ?m) = Inl (pw, m')"
    using final [of "?s\<lparr>g_memguard_critical_streak := 4, g_memguard_prev_free_pages := 0\<rparr>"] by auto
  then have "\<exists>pw m'. guard_run (\<lambda>_. 0) (replicate 5 ?p) (?s, ?m) = Inl (pw, m')"
    unfolding five by (simp add: early)
  then obtain pw m' where r: "guard_run (\<lambda>_. 0) (replicate 5 ?p) (?s, ?m) = Inl (pw, m')" by blast
  have "m_irq m' = False"
    using memory_guard_stops_only_under_pressure [OF _ _ r] leaky_table_props(1) by simp
  then show ?thesis using r by blast
qed

text \<open>
  C29: One tick of the timer. The tick counter advances by one (modulo \<open>2 ^ 64\<close>), the task table takes
  exactly one round robin step, and when the tick is not a multiple of 100 or the system is not under
  critical pressure the machine goes on; a tick never breaks the invariant of the task table.
\<close>

theorem scheduler_tick_step:
  assumes "task_inv (m_tasks m)"
  shows "(case scheduler_tick status p (s, m) of
      Inr (s', m') \<Rightarrow> g_uptime_ticks s' = g_uptime_ticks s + 1 \<and> task_inv (m_tasks m') \<and>
        m_tasks m' = task_scheduler_tick (g_uptime_ticks s + 1) (m_tasks m)
    | Inl (pw, m') \<Rightarrow> (g_uptime_ticks s + 1) mod 100 = 0 \<and> pressed p \<and> task_inv (m_tasks m'))"
proof -
  let ?now = "g_uptime_ticks s + 1"
  let ?s = "s\<lparr>g_uptime_ticks := ?now\<rparr>"
  let ?m = "m\<lparr>m_tasks := task_scheduler_tick ?now (m_tasks m)\<rparr>"
  have i: "task_inv (m_tasks ?m)" using task_scheduler_tick_inv [OF assms] by simp
  show ?thesis
  proof (cases "?now mod 100 = 0")
    case False
    then show ?thesis using i by (simp add: scheduler_tick_def Let_def MGCORE_HZ_def)
  next
    case True
    then have st: "scheduler_tick status p (s, m) = memory_guard_tick status p (?s, ?m)"
      by (simp add: scheduler_tick_def Let_def MGCORE_HZ_def)
    show ?thesis
    proof (cases "memory_guard_tick status p (?s, ?m)")
      case (Inl stop)
      obtain pw m' where stop: "stop = (pw, m')" by (cases stop)
      have t: "\<exists>h. unat (g_memguard_critical_streak ?s) \<le> trailing h"
        by (rule exI [of _ "replicate (unat (g_memguard_critical_streak s)) (pmm_blank\<lparr>g_total_pages := 1000\<rparr>)"])
          (simp add: trailing_def pressed_def pmm_total_pages_def guard_critical_def pmm_free_pages_def takeWhile_replicate, simp add: pmm_blank_def)
      then obtain h where h: "unat (g_memguard_critical_streak ?s) \<le> trailing h" by blast
      note g = guard_tick_stop [OF Inl [unfolded stop] h]
      obtain m0 where "m_tasks m0 = m_tasks ?m" "m' = snd (safeboot_trigger status (Some ''memory leak detected'')
          (task_find_likely_memory_leaker (m_tasks ?m)) m0)"
        using g(5) by (metis snd_conv)
      then have "task_inv (m_tasks m')" using i task_kill_inv [OF i prod.collapse [symmetric]] by (simp add: safeboot_trigger_props)
      then show ?thesis using True g(2) by (simp add: st Inl stop)
    next
      case (Inr sm)
      obtain s1 m1 where sm: "sm = (s1, m1)" by (cases sm)
      have "g_uptime_ticks s1 = ?now" "m_tasks m1 = m_tasks ?m"
        using Inr sm by (auto simp: memory_guard_tick_def Let_def split: if_splits)
      then show ?thesis using i by (simp add: st Inr sm)
    qed
  qed
qed

theorem scheduler_tick_step_witness:
  "\<exists>s' m'. scheduler_tick (\<lambda>_. 0) pmm_blank (fst (scheduler_init pmm_blank),
      \<lparr>m_irq = True, m_tasks = sample_table, m_action = 0, m_io = [], m_log = []\<rparr>) = Inr (s', m') \<and>
     g_uptime_ticks s' = 1 \<and> m_tasks m' = task_scheduler_tick 1 sample_table"
  using scheduler_tick_step [where m = "\<lparr>m_irq = True, m_tasks = sample_table, m_action = 0, m_io = [], m_log = []\<rparr>"
      and status = "\<lambda>_. 0" and p = pmm_blank and s = "fst (scheduler_init pmm_blank)"] sample_table_inv
  by (auto simp: scheduler_init_def split: sum.splits prod.splits)

end
