(* ===== verification/Net.thy ===== *)
theory Net
  imports Net_Codec Sched
begin

text \<open>
  The network stack of \<^verbatim>\<open>src/kernel/net.c\<close>: the RTL8139 driver, ARP, IPv4, ICMP echo, UDP and the DHCP
  client. The static variables of the file are the fields of \<open>net\<close>. The adapter is an arbitrary
  device: a \<open>world\<close> gives the value of every port read, the contents of the receive buffer after
  each of them, and what ends each \<^verbatim>\<open>hlt\<close> (a timer tick, a network interrupt or another interrupt);
  the state counts the reads and the waits. Interrupts are taken at \<^verbatim>\<open>hlt\<close>. The fields \<open>w_out\<close>,
  \<open>w_sent\<close> and \<open>w_log\<close> record the port writes, the frames handed to the adapter and the console
  output. A read or write outside of a buffer, and a wait that never ends, is \<open>None\<close>.
\<close>

subsection \<open>State\<close>

record net_adapter =
  a_bus :: u8
  a_slot :: u8
  a_func :: u8
  a_vendor_id :: u16
  a_device_id :: u16
  a_bar0 :: u32
  a_irq_line :: u8
  a_bound :: bool

record arp_entry =
  e_ip :: u32
  e_mac :: "u8 list"
  e_valid :: bool
  e_updated_tick :: u64

record ping_wait =
  pw_active :: bool
  pw_identifier :: u16
  pw_sequence :: u16
  pw_target_ip :: u32
  pw_received :: bool
  pw_reply_ttl :: u8
  pw_reply_ms :: u32

record dhcp_lease =
  dl_active :: bool
  dl_xid :: u32
  dl_offered_ip :: u32
  dl_server_ip :: u32
  dl_subnet_mask :: u32
  dl_router :: u32
  dl_got_offer :: bool
  dl_got_ack :: bool

datatype nic_op = NOut8 u16 u8 | NOut16 u16 u16 | NOut32 u16 u32

record net =
  g_adapters :: "net_adapter list"
  g_rtl_io_base :: u16
  g_rtl_irq_line :: u8
  g_rtl_ready :: bool
  g_mac :: "u8 list"
  g_tx_buffer :: "u8 list list"
  g_rx_read_offset :: u16
  g_tx_index :: u8
  g_ip_addr :: u32
  g_ip_gw :: u32
  g_ip_mask :: u32
  g_connected :: bool
  g_rx_frames :: u64
  g_tx_frames :: u64
  g_rx_dropped :: u64
  g_arp_cache :: "arp_entry list"
  g_ping_wait :: ping_wait
  g_dhcp :: dhcp_lease
  w_ticks :: u64
  w_reads :: nat
  w_waits :: nat
  w_out :: "nic_op list"
  w_sent :: "u8 list list"
  w_log :: "con_call list"

datatype wakeup = Timer_Irq | Nic_Irq | Other_Irq

record world =
  d_in :: "nat \<Rightarrow> u32"
  d_rx :: "nat \<Rightarrow> nat \<Rightarrow> u8"
  d_wakeup :: "nat \<Rightarrow> wakeup"
  d_rx_base :: u32
  d_tx_base :: u32

definition NET_MAX_ADAPTERS :: nat where "NET_MAX_ADAPTERS = 8"
definition NET_MAX_ARP_CACHE :: nat where "NET_MAX_ARP_CACHE = 4"
definition RTL_RX_BUFFER_SIZE :: nat where "RTL_RX_BUFFER_SIZE = 8192 + 16 + 1500"
definition RTL_TX_BUFFER_SIZE :: nat where "RTL_TX_BUFFER_SIZE = 2048"
definition RTL_TX_DESC_COUNT :: nat where "RTL_TX_DESC_COUNT = 4"
definition ETH_TYPE_ARP :: u16 where "ETH_TYPE_ARP = 0x0806"
definition ETH_TYPE_IPV4 :: u16 where "ETH_TYPE_IPV4 = 0x0800"
definition IP_PROTO_ICMP :: u8 where "IP_PROTO_ICMP = 1"
definition IP_PROTO_UDP :: u8 where "IP_PROTO_UDP = 17"
definition DHCP_MAGIC_COOKIE :: u32 where "DHCP_MAGIC_COOKIE = 0x63825363"
definition NET_IPV4_BROADCAST :: u32 where "NET_IPV4_BROADCAST = 0xFFFFFFFF"
definition NET_DEFAULT_IP :: u32 where "NET_DEFAULT_IP = 0x0A00020F"
definition NET_DEFAULT_GW :: u32 where "NET_DEFAULT_GW = 0x0A000202"
definition NET_DEFAULT_MASK :: u32 where "NET_DEFAULT_MASK = 0xFFFFFF00"

lemmas net_consts = NET_MAX_ADAPTERS_def NET_MAX_ARP_CACHE_def RTL_RX_BUFFER_SIZE_def RTL_TX_BUFFER_SIZE_def
  RTL_TX_DESC_COUNT_def ETH_TYPE_ARP_def ETH_TYPE_IPV4_def IP_PROTO_ICMP_def IP_PROTO_UDP_def DHCP_MAGIC_COOKIE_def
  NET_IPV4_BROADCAST_def NET_DEFAULT_IP_def NET_DEFAULT_GW_def NET_DEFAULT_MASK_def

definition zero_arp :: arp_entry where
  "zero_arp = \<lparr>e_ip = 0, e_mac = replicate 6 0, e_valid = False, e_updated_tick = 0\<rparr>"

definition zero_ping :: ping_wait where
  "zero_ping = \<lparr>pw_active = False, pw_identifier = 0, pw_sequence = 0, pw_target_ip = 0, pw_received = False,
     pw_reply_ttl = 0, pw_reply_ms = 0\<rparr>"

definition zero_lease :: dhcp_lease where
  "zero_lease = \<lparr>dl_active = False, dl_xid = 0, dl_offered_ip = 0, dl_server_ip = 0, dl_subnet_mask = 0, dl_router = 0,
     dl_got_offer = False, dl_got_ack = False\<rparr>"

subsection \<open>Ports\<close>

definition io_in :: "world \<Rightarrow> net \<Rightarrow> u32 \<times> net" where
  "io_in w s = (d_in w (w_reads s), s\<lparr>w_reads := Suc (w_reads s)\<rparr>)"

definition io_out :: "nic_op \<Rightarrow> net \<Rightarrow> net" where
  "io_out p s = s\<lparr>w_out := w_out s @ [p]\<rparr>"

definition net_log :: "con_call list \<Rightarrow> net \<Rightarrow> net" where
  "net_log cs s = s\<lparr>w_log := w_log s @ cs\<rparr>"

text \<open>Polling: ports are read until a value satisfies the test, at most \<open>n\<close> times.\<close>

definition spin :: "world \<Rightarrow> (u32 \<Rightarrow> bool) \<Rightarrow> nat \<Rightarrow> net \<Rightarrow> bool \<times> net" where
  "spin w test n s =
     (case scan_from (\<lambda>k. test (d_in w (w_reads s + k))) 0 n of
        None \<Rightarrow> (False, s\<lparr>w_reads := w_reads s + n\<rparr>)
      | Some k \<Rightarrow> (True, s\<lparr>w_reads := w_reads s + Suc k\<rparr>))"

definition pci_address :: "u8 \<Rightarrow> u8 \<Rightarrow> u8 \<Rightarrow> u8 \<Rightarrow> u32" where
  "pci_address bus slot func offset =
     push_bit 31 1 OR push_bit 16 (ucast bus) OR push_bit 11 (ucast slot) OR push_bit 8 (ucast func) OR (ucast offset AND 0xFC)"

definition pci_config_read32 :: "world \<Rightarrow> u8 \<Rightarrow> u8 \<Rightarrow> u8 \<Rightarrow> u8 \<Rightarrow> net \<Rightarrow> u32 \<times> net" where
  "pci_config_read32 w bus slot func offset s = io_in w (io_out (NOut32 0xCF8 (pci_address bus slot func offset)) s)"

definition pci_config_write32 :: "u8 \<Rightarrow> u8 \<Rightarrow> u8 \<Rightarrow> u8 \<Rightarrow> u32 \<Rightarrow> net \<Rightarrow> net" where
  "pci_config_write32 bus slot func offset v s =
     io_out (NOut32 0xCFC v) (io_out (NOut32 0xCF8 (pci_address bus slot func offset)) s)"

subsection \<open>Transmission\<close>

definition rtl_out_of_bounds_tx :: "nat \<Rightarrow> bool" where
  "rtl_out_of_bounds_tx n \<longleftrightarrow> n > RTL_TX_BUFFER_SIZE"

definition rtl_send_raw_frame :: "world \<Rightarrow> u8 list \<Rightarrow> net \<Rightarrow> int \<times> net" where
  "rtl_send_raw_frame w frame s =
     (if \<not> g_rtl_ready s \<or> frame = [] \<or> rtl_out_of_bounds_tx (length frame) then (-1, s)
      else
        let send_length = (if length frame < 60 then 60 else length frame);
            i = unat (g_tx_index s);
            padded = frame @ replicate (send_length - length frame) 0;
            s1 = s\<lparr>g_tx_buffer := (g_tx_buffer s)[i := padded @ drop send_length (g_tx_buffer s ! i)], w_sent := w_sent s @ [padded]\<rparr>;
            s2 = io_out (NOut32 (g_rtl_io_base s + 0x20 + ucast (g_tx_index s) * 4) (d_tx_base w + of_nat (RTL_TX_BUFFER_SIZE * i))) s1;
            s3 = io_out (NOut32 (g_rtl_io_base s + 0x10 + ucast (g_tx_index s) * 4) (of_nat send_length)) s2;
            s4 = snd (spin w (\<lambda>tsd. tsd AND push_bit 15 1 \<noteq> 0) 100000 s3)
        in (0, s4\<lparr>g_tx_index := of_nat ((i + 1) mod RTL_TX_DESC_COUNT), g_tx_frames := g_tx_frames s + 1\<rparr>))"

subsection \<open>ARP\<close>

definition arp_slot :: "u32 \<Rightarrow> arp_entry list \<Rightarrow> nat option" where
  "arp_slot ip cache = scan_from (\<lambda>i. e_valid (cache ! i) \<and> e_ip (cache ! i) = ip) 0 NET_MAX_ARP_CACHE"

definition arp_cache_update :: "u32 \<Rightarrow> u8 list \<Rightarrow> net \<Rightarrow> net" where
  "arp_cache_update ip mac s =
     (let cache = g_arp_cache s
      in case arp_slot ip cache of
           Some i \<Rightarrow> s\<lparr>g_arp_cache := cache[i := (cache ! i)\<lparr>e_mac := mac, e_updated_tick := w_ticks s\<rparr>]\<rparr>
         | None \<Rightarrow>
             let free_slot = (case scan_from (\<lambda>i. \<not> e_valid (cache ! i)) 0 NET_MAX_ARP_CACHE of None \<Rightarrow> 0 | Some i \<Rightarrow> i)
             in s\<lparr>g_arp_cache := cache[free_slot := \<lparr>e_ip = ip, e_mac = mac, e_valid = True, e_updated_tick = w_ticks s\<rparr>]\<rparr>)"

definition arp_cache_lookup :: "u32 \<Rightarrow> net \<Rightarrow> u8 list option" where
  "arp_cache_lookup ip s = map_option (\<lambda>i. e_mac (g_arp_cache s ! i)) (arp_slot ip (g_arp_cache s))"

definition arp_request_frame :: "u32 \<Rightarrow> net \<Rightarrow> u8 list option" where
  "arp_request_frame target_ip s = do {
     f \<leftarrow> put 0 (replicate 6 0xFF) (replicate 42 0);
     f \<leftarrow> put 6 (g_mac s) f;
     f \<leftarrow> be16_store 12 ETH_TYPE_ARP f;
     f \<leftarrow> be16_store 14 1 f;
     f \<leftarrow> be16_store 16 0x0800 f;
     f \<leftarrow> put 18 [6] f;
     f \<leftarrow> put 19 [4] f;
     f \<leftarrow> be16_store 20 1 f;
     f \<leftarrow> put 22 (g_mac s) f;
     f \<leftarrow> be32_store 28 (g_ip_addr s) f;
     f \<leftarrow> put 32 (replicate 6 0) f;
     be32_store 38 target_ip f
   }"

definition arp_send_request :: "world \<Rightarrow> u32 \<Rightarrow> net \<Rightarrow> (int \<times> net) option" where
  "arp_send_request w target_ip s = map_option (\<lambda>f. rtl_send_raw_frame w f s) (arp_request_frame target_ip s)"

definition arp_reply_frame :: "u8 list \<Rightarrow> u32 \<Rightarrow> net \<Rightarrow> u8 list option" where
  "arp_reply_frame target_mac target_ip s = do {
     f \<leftarrow> put 0 target_mac (replicate 42 0);
     f \<leftarrow> put 6 (g_mac s) f;
     f \<leftarrow> be16_store 12 ETH_TYPE_ARP f;
     f \<leftarrow> be16_store 14 1 f;
     f \<leftarrow> be16_store 16 0x0800 f;
     f \<leftarrow> put 18 [6] f;
     f \<leftarrow> put 19 [4] f;
     f \<leftarrow> be16_store 20 2 f;
     f \<leftarrow> put 22 (g_mac s) f;
     f \<leftarrow> be32_store 28 (g_ip_addr s) f;
     f \<leftarrow> put 32 target_mac f;
     be32_store 38 target_ip f
   }"

definition arp_send_reply :: "world \<Rightarrow> u8 list \<Rightarrow> u32 \<Rightarrow> net \<Rightarrow> (int \<times> net) option" where
  "arp_send_reply w target_mac target_ip s = map_option (\<lambda>f. rtl_send_raw_frame w f s) (arp_reply_frame target_mac target_ip s)"

subsection \<open>IPv4, ICMP and UDP output\<close>

definition icmp_echo_frame :: "u32 \<Rightarrow> u8 list \<Rightarrow> u16 \<Rightarrow> u16 \<Rightarrow> net \<Rightarrow> u8 list option" where
  "icmp_echo_frame target_ip dst_mac identifier sequence s = do {
     f \<leftarrow> put 0 dst_mac (replicate 66 0);
     f \<leftarrow> put 6 (g_mac s) f;
     f \<leftarrow> be16_store 12 ETH_TYPE_IPV4 f;
     f \<leftarrow> put 14 [0x45, 0] f;
     f \<leftarrow> be16_store 16 (20 + 32) f;
     f \<leftarrow> be16_store 18 sequence f;
     f \<leftarrow> be16_store 20 0 f;
     f \<leftarrow> put 22 [64, IP_PROTO_ICMP] f;
     f \<leftarrow> be32_store 26 (g_ip_addr s) f;
     f \<leftarrow> be32_store 30 target_ip f;
     ip \<leftarrow> slice 14 20 f;
     f \<leftarrow> be16_store 24 (checksum16 ip) f;
     f \<leftarrow> put 34 [8, 0] f;
     f \<leftarrow> be16_store 38 identifier f;
     f \<leftarrow> be16_store 40 sequence f;
     f \<leftarrow> put 42 (map of_nat [8..<32]) f;
     icmp \<leftarrow> slice 34 32 f;
     be16_store 36 (checksum16 icmp) f
   }"

definition ip_send_icmp_echo :: "world \<Rightarrow> u32 \<Rightarrow> u8 list \<Rightarrow> u16 \<Rightarrow> u16 \<Rightarrow> net \<Rightarrow> (int \<times> net) option" where
  "ip_send_icmp_echo w target_ip dst_mac identifier sequence s =
     map_option (\<lambda>f. rtl_send_raw_frame w f s) (icmp_echo_frame target_ip dst_mac identifier sequence s)"

definition udp_frame :: "u32 \<Rightarrow> u32 \<Rightarrow> u16 \<Rightarrow> u16 \<Rightarrow> u8 list \<Rightarrow> u8 list \<Rightarrow> net \<Rightarrow> u8 list option" where
  "udp_frame src_ip dst_ip src_port dst_port payload dst_mac s = do {
     f \<leftarrow> put 0 dst_mac (replicate (42 + length payload) 0);
     f \<leftarrow> put 6 (g_mac s) f;
     f \<leftarrow> be16_store 12 ETH_TYPE_IPV4 f;
     f \<leftarrow> put 14 [0x45, 0] f;
     f \<leftarrow> be16_store 16 (of_nat (28 + length payload)) f;
     f \<leftarrow> be16_store 18 (ucast (w_ticks s AND 0xFFFF)) f;
     f \<leftarrow> be16_store 20 0 f;
     f \<leftarrow> put 22 [64, IP_PROTO_UDP] f;
     f \<leftarrow> be32_store 26 src_ip f;
     f \<leftarrow> be32_store 30 dst_ip f;
     ip \<leftarrow> slice 14 20 f;
     f \<leftarrow> be16_store 24 (checksum16 ip) f;
     f \<leftarrow> be16_store 34 src_port f;
     f \<leftarrow> be16_store 36 dst_port f;
     f \<leftarrow> be16_store 38 (of_nat (8 + length payload)) f;
     f \<leftarrow> be16_store 40 0 f;
     put 42 payload f
   }"

definition ip_send_udp :: "world \<Rightarrow> u32 \<Rightarrow> u32 \<Rightarrow> u16 \<Rightarrow> u16 \<Rightarrow> u8 list \<Rightarrow> u8 list \<Rightarrow> net \<Rightarrow> (int \<times> net) option" where
  "ip_send_udp w src_ip dst_ip src_port dst_port payload dst_mac s =
     (if length payload > 548 then Some (-1, s)
      else map_option (\<lambda>f. rtl_send_raw_frame w f s) (udp_frame src_ip dst_ip src_port dst_port payload dst_mac s))"

subsection \<open>DHCP\<close>

definition dhcp_option :: "u8 \<Rightarrow> u8 \<Rightarrow> u8 list \<Rightarrow> u8 \<times> dhcp_lease \<Rightarrow> (u8 \<times> dhcp_lease) option" where
  "dhcp_option code opt_len body acc =
     (case acc of (msg_type, l) \<Rightarrow>
        if code = 53 \<and> opt_len = 1 then map_option (\<lambda>b. (b, l)) (load body 0)
        else if code = 54 \<and> opt_len = 4 then map_option (\<lambda>v. (msg_type, l\<lparr>dl_server_ip := v\<rparr>)) (be32_load body 0)
        else if code = 1 \<and> opt_len = 4 then map_option (\<lambda>v. (msg_type, l\<lparr>dl_subnet_mask := v\<rparr>)) (be32_load body 0)
        else if code = 3 \<and> opt_len \<ge> 4 then map_option (\<lambda>v. (msg_type, l\<lparr>dl_router := v\<rparr>)) (be32_load body 0)
        else Some acc)"

text \<open>The loop over the options; the first argument is what follows position \<^verbatim>\<open>i\<close>.\<close>

function options_loop :: "u8 list \<Rightarrow> u8 \<times> dhcp_lease \<Rightarrow> (u8 \<times> dhcp_lease) option" where
  "options_loop [] acc = Some acc"
| "options_loop (code # rest) acc =
     (if code = 255 then Some acc
      else if code = 0 then options_loop rest acc
      else case rest of
        [] \<Rightarrow> Some acc
      | opt_len # body \<Rightarrow>
          if unat opt_len > length body then Some acc
          else case dhcp_option code opt_len body acc of
            None \<Rightarrow> None
          | Some acc' \<Rightarrow> options_loop (drop (unat opt_len) body) acc')"
  by pat_completeness auto
termination
  by (relation "measure (length \<circ> fst)") auto

definition dhcp_parse_options :: "u8 list \<Rightarrow> dhcp_lease \<Rightarrow> (u8 \<times> dhcp_lease) option" where
  "dhcp_parse_options options l = options_loop options (0, l)"

definition lease_defaults :: "u32 \<Rightarrow> dhcp_lease \<Rightarrow> dhcp_lease" where
  "lease_defaults yiaddr l = l\<lparr>dl_offered_ip := yiaddr,
     dl_subnet_mask := (if dl_subnet_mask l = 0 then NET_DEFAULT_MASK else dl_subnet_mask l),
     dl_router := (if dl_router l = 0 then NET_DEFAULT_GW else dl_router l)\<rparr>"

definition dhcp_process_packet :: "u8 list \<Rightarrow> net \<Rightarrow> net option" where
  "dhcp_process_packet payload s =
     (if \<not> dl_active (g_dhcp s) \<or> length payload < 240 then Some s
      else do {
        op \<leftarrow> load payload 0;
        htype \<leftarrow> load payload 1;
        hlen \<leftarrow> load payload 2;
        xid \<leftarrow> be32_load payload 4;
        chaddr \<leftarrow> slice 28 6 payload;
        cookie \<leftarrow> be32_load payload 236;
        yiaddr \<leftarrow> be32_load payload 16;
        if op \<noteq> 2 \<or> htype \<noteq> 1 \<or> hlen \<noteq> 6 \<or> xid \<noteq> dl_xid (g_dhcp s) \<or> kmemcmp chaddr (g_mac s) 6 \<noteq> 0 \<or> cookie \<noteq> DHCP_MAGIC_COOKIE
        then Some s
        else do {
          (msg_type, l) \<leftarrow> dhcp_parse_options (drop 240 payload) (g_dhcp s);
          Some (s\<lparr>g_dhcp :=
            (if msg_type = 2 then (lease_defaults yiaddr l)\<lparr>dl_got_offer := True\<rparr>
             else if msg_type = 5 then (lease_defaults yiaddr l)\<lparr>dl_got_ack := True\<rparr>
             else l)\<rparr>)
        }
      })"

definition dhcp_header :: "net \<Rightarrow> u8 list option" where
  "dhcp_header s = do {
     p \<leftarrow> put 0 [1, 1, 6] (replicate 300 0);
     p \<leftarrow> be32_store 4 (dl_xid (g_dhcp s)) p;
     p \<leftarrow> be16_store 10 0x8000 p;
     p \<leftarrow> put 28 (g_mac s) p;
     be32_store 236 DHCP_MAGIC_COOKIE p
   }"

definition dhcp_discover :: "net \<Rightarrow> u8 list option" where
  "dhcp_discover s = do {
     p \<leftarrow> dhcp_header s;
     p \<leftarrow> put 240 [53, 1, 1, 55, 3, 1, 3, 54, 255] p;
     slice 0 249 p
   }"

definition dhcp_send_discover :: "world \<Rightarrow> net \<Rightarrow> (int \<times> net) option" where
  "dhcp_send_discover w s =
     Option.bind (dhcp_discover s) (\<lambda>p. ip_send_udp w 0 NET_IPV4_BROADCAST 68 67 p (replicate 6 0xFF) s)"

definition dhcp_request :: "net \<Rightarrow> u8 list option" where
  "dhcp_request s = do {
     p \<leftarrow> dhcp_header s;
     p \<leftarrow> put 240 [53, 1, 3, 50, 4] p;
     p \<leftarrow> be32_store 245 (dl_offered_ip (g_dhcp s)) p;
     p \<leftarrow> put 249 [54, 4] p;
     p \<leftarrow> be32_store 251 (dl_server_ip (g_dhcp s)) p;
     p \<leftarrow> put 255 [255] p;
     slice 0 256 p
   }"

definition dhcp_send_request :: "world \<Rightarrow> net \<Rightarrow> (int \<times> net) option" where
  "dhcp_send_request w s =
     (if \<not> dl_got_offer (g_dhcp s) \<or> dl_server_ip (g_dhcp s) = 0 \<or> dl_offered_ip (g_dhcp s) = 0 then Some (-1, s)
      else Option.bind (dhcp_request s) (\<lambda>p. ip_send_udp w 0 NET_IPV4_BROADCAST 68 67 p (replicate 6 0xFF) s))"

definition route_next_hop :: "u32 \<Rightarrow> net \<Rightarrow> u32" where
  "route_next_hop dst_ip s = (if dst_ip AND g_ip_mask s = g_ip_addr s AND g_ip_mask s then dst_ip else g_ip_gw s)"

subsection \<open>Input\<close>

definition uptime_ms :: "net \<Rightarrow> u64" where
  "uptime_ms s = (w_ticks s * 1000) div MGCORE_HZ"

definition net_process_arp :: "world \<Rightarrow> u8 list \<Rightarrow> net \<Rightarrow> net option" where
  "net_process_arp w payload s =
     (if length payload < 28 then Some s
      else do {
        htype \<leftarrow> be16_load payload 0;
        ptype \<leftarrow> be16_load payload 2;
        hlen \<leftarrow> load payload 4;
        plen \<leftarrow> load payload 5;
        oper \<leftarrow> be16_load payload 6;
        if htype \<noteq> 1 \<or> ptype \<noteq> 0x0800 \<or> hlen \<noteq> 6 \<or> plen \<noteq> 4 then Some s
        else do {
          sha \<leftarrow> slice 8 6 payload;
          sip \<leftarrow> be32_load payload 14;
          tip \<leftarrow> be32_load payload 24;
          let s1 = arp_cache_update sip sha s;
          if oper = 1 \<and> tip = g_ip_addr s then map_option snd (arp_send_reply w sha sip s1) else Some s1
        }
      })"

definition ip_header_len :: "u8 \<Rightarrow> nat" where
  "ip_header_len b = unat ((b AND 0x0F) * 4)"

definition net_process_icmp :: "u8 list \<Rightarrow> net \<Rightarrow> net option" where
  "net_process_icmp ip s = do {
     b \<leftarrow> load ip 0;
     let ihl = ip_header_len b;
     if length ip < 20 \<or> ihl < 20 \<or> length ip < ihl + 8 then Some s
     else do {
       let icmp = drop ihl ip;
       if checksum16 icmp \<noteq> 0 then Some s
       else do {
         ty \<leftarrow> load icmp 0;
         ident \<leftarrow> be16_load icmp 4;
         seq \<leftarrow> be16_load icmp 6;
         ttl \<leftarrow> load ip 8;
         let p = g_ping_wait s;
         Some (if ty = 0 \<and> pw_active p \<and> pw_identifier p = ident \<and> pw_sequence p = seq
               then s\<lparr>g_ping_wait := p\<lparr>pw_received := True, pw_reply_ttl := ttl, pw_reply_ms := ucast (uptime_ms s)\<rparr>\<rparr>
               else s)
       }
     }
   }"

definition net_process_udp :: "u8 list \<Rightarrow> net \<Rightarrow> net option" where
  "net_process_udp ip s = do {
     b \<leftarrow> load ip 0;
     let ihl = ip_header_len b;
     if length ip < 20 \<or> ihl < 20 \<or> length ip < ihl + 8 then Some s
     else do {
       let udp = drop ihl ip;
       udp_len \<leftarrow> be16_load udp 4;
       if udp_len < 8 \<or> length ip < ihl + unat udp_len then Some s
       else do {
         src_port \<leftarrow> be16_load udp 0;
         dst_port \<leftarrow> be16_load udp 2;
         if src_port = 67 \<and> dst_port = 68 then Option.bind (slice 8 (unat udp_len - 8) udp) (\<lambda>p. dhcp_process_packet p s)
         else Some s
       }
     }
   }"

definition net_process_ipv4 :: "u8 list \<Rightarrow> net \<Rightarrow> net option" where
  "net_process_ipv4 payload s =
     (if length payload < 20 then Some s
      else do {
        b \<leftarrow> load payload 0;
        let version = drop_bit 4 b AND 0x0F;
        let ihl = ip_header_len b;
        if version \<noteq> 4 \<or> ihl < 20 \<or> length payload < ihl then Some s
        else do {
          total_length \<leftarrow> be16_load payload 2;
          if unat total_length < ihl \<or> unat total_length > length payload then Some s
          else do {
            header \<leftarrow> slice 0 ihl payload;
            if checksum16 header \<noteq> 0 then Some s
            else do {
              flags_fragment \<leftarrow> be16_load payload 6;
              if flags_fragment AND 0x3FFF \<noteq> 0 then Some s
              else do {
                dst_ip \<leftarrow> be32_load payload 16;
                protocol \<leftarrow> load payload 9;
                if protocol = IP_PROTO_UDP \<and> \<not> (dst_ip = g_ip_addr s \<or> dst_ip = NET_IPV4_BROADCAST \<or> g_ip_addr s = 0) then Some s
                else if protocol \<noteq> IP_PROTO_UDP \<and> dst_ip \<noteq> g_ip_addr s then Some s
                else if protocol = IP_PROTO_ICMP then net_process_icmp (take (unat total_length) payload) s
                else if protocol = IP_PROTO_UDP then net_process_udp (take (unat total_length) payload) s
                else Some s
              }
            }
          }
        }
      })"

definition net_process_frame :: "world \<Rightarrow> u8 list \<Rightarrow> net \<Rightarrow> net option" where
  "net_process_frame w frame s =
     (if length frame < 14 then Some s
      else do {
        eth_type \<leftarrow> be16_load frame 12;
        if eth_type = ETH_TYPE_ARP then net_process_arp w (drop 14 frame) s
        else if eth_type = ETH_TYPE_IPV4 then net_process_ipv4 (drop 14 frame) s
        else Some s
      })"

subsection \<open>The receive ring\<close>

text \<open>
  The packet header is two little-endian 16-bit words, status and length. Positions past the end of
  the receive buffer are the memory that follows it.
\<close>

definition rx_le16 :: "world \<Rightarrow> net \<Rightarrow> nat \<Rightarrow> u16" where
  "rx_le16 w s a = ucast (d_rx w (w_reads s) a) OR push_bit 8 (ucast (d_rx w (w_reads s) (a + 1)))"

definition rx_frame :: "world \<Rightarrow> net \<Rightarrow> nat \<Rightarrow> nat \<Rightarrow> u8 list" where
  "rx_frame w s a n = map (d_rx w (w_reads s)) [a ..< a + n]"

definition rx_advance :: "u16 \<Rightarrow> u16 \<Rightarrow> u16" where
  "rx_advance off len = ucast ((ucast off + ucast len + 4 + 3) AND NOT 3 :: u32) mod 8192"

definition rx_packet :: "world \<Rightarrow> net \<Rightarrow> net option" where
  "rx_packet w s =
     (let off = g_rx_read_offset s;
          status = rx_le16 w s (unat off);
          len = rx_le16 w s (unat off + 2)
      in do {
        s1 \<leftarrow> (if status AND 1 \<noteq> 0
               then map_option (\<lambda>t. t\<lparr>g_rx_frames := g_rx_frames t + 1\<rparr>)
                      (net_process_frame w (rx_frame w s (unat off + 4) (unat len - 4)) s)
               else Some (s\<lparr>g_rx_dropped := g_rx_dropped s + 1\<rparr>));
        let off' = rx_advance off len;
        Some (io_out (NOut16 (g_rtl_io_base s + 0x38) (ucast ((ucast off' - 16 :: u32) AND 0x1FFF)))
                (s1\<lparr>g_rx_read_offset := off'\<rparr>))
      })"

text \<open>Up to 65 packets are taken; the argument counts those that remain.\<close>

fun poll_loop :: "world \<Rightarrow> nat \<Rightarrow> net \<Rightarrow> net option" where
  "poll_loop w 0 s = Some s"
| "poll_loop w (Suc n) s =
     (case io_in w s of (cr, s1) \<Rightarrow>
        if cr AND 0x01 \<noteq> 0 then Some s1
        else
          let len = rx_le16 w s1 (unat (g_rx_read_offset s1) + 2)
          in if len < 4 \<or> len > 1792 then Some (s1\<lparr>g_rx_dropped := g_rx_dropped s1 + 1\<rparr>)
             else Option.bind (rx_packet w s1) (poll_loop w n))"

definition rtl_poll_rx :: "world \<Rightarrow> net \<Rightarrow> net option" where
  "rtl_poll_rx w s = (if \<not> g_rtl_ready s then Some s else poll_loop w 65 s)"

definition net_handle_irq :: "world \<Rightarrow> net \<Rightarrow> net option" where
  "net_handle_irq w s =
     (if \<not> g_rtl_ready s then Some s
      else case io_in w s of (v, s1) \<Rightarrow>
        let isr = ucast v :: u16
        in if isr = 0 then Some s1
           else
             let s2 = io_out (NOut16 (g_rtl_io_base s + 0x3E) isr) s1
             in if isr AND (0x0001 OR 0x0002 OR 0x0010 OR 0x0040 OR 0x2000) \<noteq> 0 then rtl_poll_rx w s2 else Some s2)"

subsection \<open>Bringing up the adapter\<close>

definition rtl_wait_for_reset_clear :: "world \<Rightarrow> net \<Rightarrow> bool \<times> net" where
  "rtl_wait_for_reset_clear w s = spin w (\<lambda>cr. cr AND 0x10 = 0) 1000000 s"

definition read_mac :: "world \<Rightarrow> net \<Rightarrow> net" where
  "read_mac w s = s\<lparr>g_mac := map (\<lambda>i. ucast (d_in w (w_reads s + i))) [0..<6], w_reads := w_reads s + 6\<rparr>"

definition rtl_hw_init :: "world \<Rightarrow> net_adapter \<Rightarrow> net \<Rightarrow> bool \<times> net" where
  "rtl_hw_init w adapter s =
     (let base = ucast (a_bar0 adapter AND NOT 3);
          s1 = s\<lparr>g_rtl_io_base := base, g_rtl_irq_line := a_irq_line adapter\<rparr>
      in if a_bar0 adapter AND 1 = 0 then (False, s1)
         else case pci_config_read32 w (a_bus adapter) (a_slot adapter) (a_func adapter) 0x04 s1 of (command, s2) \<Rightarrow>
           let s3 = pci_config_write32 (a_bus adapter) (a_slot adapter) (a_func adapter) 0x04 (command OR 5) s2;
               s4 = io_out (NOut8 (base + 0x37) 0x10) (io_out (NOut8 (base + 0x52) 0) s3)
           in case rtl_wait_for_reset_clear w s4 of (ok, s5) \<Rightarrow>
                if \<not> ok then (False, s5)
                else
                  let s6 = fold io_out
                        [NOut32 (base + 0x30) (d_rx_base w),
                         NOut16 (base + 0x3C) (0x0001 OR 0x0002 OR 0x0004 OR 0x0008 OR 0x0010 OR 0x0040 OR 0x2000 OR 0x8000),
                         NOut16 (base + 0x3E) 0xFFFF,
                         NOut32 (base + 0x44) (push_bit 7 1 OR push_bit 3 1 OR push_bit 2 1 OR push_bit 1 1 OR 1 OR push_bit 13 7),
                         NOut32 (base + 0x40) 0x03000700,
                         NOut16 (base + 0x38) 0xFFF0,
                         NOut8 (base + 0x37) (0x08 OR 0x04)] (s5\<lparr>g_rx_read_offset := 0\<rparr>)
                  in (True, (read_mac w s6)\<lparr>g_tx_index := 0, g_rtl_ready := True\<rparr>))"

definition probe_function :: "world \<Rightarrow> u8 \<Rightarrow> u8 \<Rightarrow> u8 \<Rightarrow> net \<Rightarrow> net" where
  "probe_function w bus slot func s =
     (case pci_config_read32 w bus slot func 0x00 s of (ident, s1) \<Rightarrow>
        let vendor = ucast (ident AND 0xFFFF) :: u16; device = ucast (drop_bit 16 ident AND 0xFFFF) :: u16
        in if vendor = 0xFFFF then s1
           else case pci_config_read32 w bus slot func 0x08 s1 of (class_reg, s2) \<Rightarrow>
             if ucast (drop_bit 24 class_reg AND 0xFF) \<noteq> (0x02 :: u8) \<or> ucast (drop_bit 16 class_reg AND 0xFF) \<noteq> (0x00 :: u8) then s2
             else if length (g_adapters s2) < NET_MAX_ADAPTERS then
               (case pci_config_read32 w bus slot func 0x10 s2 of (bar0, s3) \<Rightarrow>
                case pci_config_read32 w bus slot func 0x3C s3 of (irq_reg, s4) \<Rightarrow>
                  let adapter = \<lparr>a_bus = bus, a_slot = slot, a_func = func, a_vendor_id = vendor, a_device_id = device,
                                 a_bar0 = bar0, a_irq_line = ucast (irq_reg AND 0xFF), a_bound = False\<rparr>
                  in if \<not> g_rtl_ready s4 \<and> vendor = 0x10EC \<and> device = 0x8139 then
                       (case rtl_hw_init w adapter s4 of (ok, s5) \<Rightarrow> s5\<lparr>g_adapters := g_adapters s5 @ [adapter\<lparr>a_bound := ok\<rparr>]\<rparr>)
                     else s4\<lparr>g_adapters := g_adapters s4 @ [adapter]\<rparr>)
             else s2)"

definition probe_slot :: "world \<Rightarrow> u8 \<Rightarrow> u8 \<Rightarrow> net \<Rightarrow> net" where
  "probe_slot w bus slot s =
     (case pci_config_read32 w bus slot 0 0x00 s of (id0, s1) \<Rightarrow>
        if ucast (id0 AND 0xFFFF) = (0xFFFF :: u16) then s1
        else case pci_config_read32 w bus slot 0 0x0C s1 of (hdr, s2) \<Rightarrow>
          let header = ucast (drop_bit 16 hdr AND 0xFF) :: u8;
              max_func = (if header AND 0x80 \<noteq> 0 then 8 else 1)
          in fold (\<lambda>func. probe_function w bus slot (of_nat func)) [0..<max_func] s2)"

definition net_init :: "world \<Rightarrow> net \<Rightarrow> net" where
  "net_init w s =
     (let s0 = s\<lparr>g_adapters := [], g_rtl_ready := False, g_connected := False, g_ip_addr := 0, g_ip_gw := NET_DEFAULT_GW,
                 g_ip_mask := NET_DEFAULT_MASK, g_rx_frames := 0, g_tx_frames := 0, g_rx_dropped := 0,
                 g_arp_cache := replicate NET_MAX_ARP_CACHE zero_arp, g_ping_wait := zero_ping, g_dhcp := zero_lease\<rparr>;
          s1 = fold (\<lambda>bus. fold (\<lambda>slot. probe_slot w (of_nat bus) (of_nat slot)) [0..<32]) [0..<256] s0
      in net_log
           (Printf (''net: ethernet adapters detected=%u'' @ [CHR 0x0A]) [vunsigned (of_nat (length (g_adapters s1)))]
            # (if g_rtl_ready s1
               then [Printf (''net0: rtl8139 ready io=0x%x irq=%u mac=%x:%x:%x:%x:%x:%x'' @ [CHR 0x0A])
                       (vunsigned (ucast (g_rtl_io_base s1)) # vunsigned (ucast (g_rtl_irq_line s1)) # map (\<lambda>b. vunsigned (ucast b)) (g_mac s1))]
               else [Writeln ''net0: rtl8139 not bound'' []])) s1)"

subsection \<open>Waiting\<close>

definition net_wait_event_tick :: "world \<Rightarrow> net \<Rightarrow> net option" where
  "net_wait_event_tick w s =
     (let s1 = s\<lparr>w_waits := Suc (w_waits s)\<rparr>
      in case d_wakeup w (w_waits s) of
           Timer_Irq \<Rightarrow> Some (s1\<lparr>w_ticks := w_ticks s + 1\<rparr>)
         | Nic_Irq \<Rightarrow> net_handle_irq w s1
         | Other_Irq \<Rightarrow> Some s1)"

partial_function (option) arp_wait :: "world \<Rightarrow> u32 \<Rightarrow> u64 \<Rightarrow> u64 \<Rightarrow> u64 \<Rightarrow> net \<Rightarrow> (u8 list option \<times> net) option" where
  "arp_wait w target_ip start timeout next_probe s =
     (if w_ticks s - start < timeout then do {
        (next_probe', s1) \<leftarrow>
          (if w_ticks s \<ge> next_probe
           then map_option (\<lambda>(r, t). (w_ticks s + MGCORE_HZ div 2, t)) (arp_send_request w target_ip s)
           else Some (next_probe, s));
        s2 \<leftarrow> rtl_poll_rx w s1;
        case arp_cache_lookup target_ip s2 of
          Some mac \<Rightarrow> Some (Some mac, s2)
        | None \<Rightarrow> Option.bind (net_wait_event_tick w s2) (arp_wait w target_ip start timeout next_probe')
      }
      else Some (None, s))"

definition net_resolve_arp :: "world \<Rightarrow> u32 \<Rightarrow> u64 \<Rightarrow> net \<Rightarrow> (u8 list option \<times> net) option" where
  "net_resolve_arp w target_ip timeout s =
     (case arp_cache_lookup target_ip s of
        Some mac \<Rightarrow> Some (Some mac, s)
      | None \<Rightarrow> arp_wait w target_ip (w_ticks s) timeout (w_ticks s) s)"

text \<open>The two loops of the DHCP client, the loop of \<^verbatim>\<open>net_ping\<close>: poll until a flag is set or the time is up.\<close>

partial_function (option) wait_flag :: "world \<Rightarrow> (net \<Rightarrow> bool) \<Rightarrow> u64 \<Rightarrow> u64 \<Rightarrow> net \<Rightarrow> (bool \<times> net) option" where
  "wait_flag w flag start timeout s =
     (if w_ticks s - start < timeout then do {
        s1 \<leftarrow> rtl_poll_rx w s;
        if flag s1 then Some (True, s1) else Option.bind (net_wait_event_tick w s1) (wait_flag w flag start timeout)
      }
      else Some (False, s))"

definition dhcp_stop :: "net \<Rightarrow> net" where
  "dhcp_stop s = s\<lparr>g_dhcp := (g_dhcp s)\<lparr>dl_active := False\<rparr>\<rparr>"

definition net_dhcp_acquire :: "world \<Rightarrow> u64 \<Rightarrow> net \<Rightarrow> (bool \<times> net) option" where
  "net_dhcp_acquire w timeout s =
     (if \<not> g_rtl_ready s then Some (False, s)
      else do {
        let s0 = s\<lparr>g_dhcp := zero_lease\<lparr>dl_active := True, dl_xid := ucast (push_bit 16 (w_ticks s) XOR 0x4D474443)\<rparr>\<rparr>;
        (r, s1) \<leftarrow> dhcp_send_discover w s0;
        if r \<noteq> 0 then Some (False, dhcp_stop s1)
        else do {
          (_, s2) \<leftarrow> wait_flag w (\<lambda>t. dl_got_offer (g_dhcp t)) (w_ticks s1) timeout s1;
          if \<not> dl_got_offer (g_dhcp s2) then Some (False, dhcp_stop s2)
          else do {
            (r2, s3) \<leftarrow> dhcp_send_request w s2;
            if r2 \<noteq> 0 then Some (False, dhcp_stop s3)
            else do {
              (acked, s4) \<leftarrow> wait_flag w (\<lambda>t. dl_got_ack (g_dhcp t)) (w_ticks s3) timeout s3;
              let l = g_dhcp s4;
              Some (if acked
                then (True, dhcp_stop (s4\<lparr>g_ip_addr := dl_offered_ip l,
                   g_ip_mask := (if dl_subnet_mask l \<noteq> 0 then dl_subnet_mask l else NET_DEFAULT_MASK),
                   g_ip_gw := (if dl_router l \<noteq> 0 then dl_router l else NET_DEFAULT_GW)\<rparr>))
                else (False, dhcp_stop s4))
            }
          }
        }
      })"

subsection \<open>Commands of the network component\<close>

definition nl :: string where "nl = [CHR 0x0A]"

definition vtext :: "string \<Rightarrow> varg" where "vtext t = VStr (Some t)"

definition net_startup_connect :: "world \<Rightarrow> net \<Rightarrow> net option" where
  "net_startup_connect w s =
     (if \<not> g_rtl_ready s then Some s
      else do {
        (ok, s1) \<leftarrow> net_dhcp_acquire w (MGCORE_HZ * 3) (net_log [Writeln ''net0: startup DHCP begin'' []] s);
        Some (if ok then
                (let s2 = s1\<lparr>g_connected := True\<rparr>
                 in net_log [Printf (''net0: DHCP lease acquired ip=%s gw=%s'' @ nl) [vtext (ip_text (g_ip_addr s2)), vtext (ip_text (g_ip_gw s2))]] s2)
              else
                (let s2 = s1\<lparr>g_ip_addr := NET_DEFAULT_IP, g_ip_gw := NET_DEFAULT_GW, g_ip_mask := NET_DEFAULT_MASK, g_connected := True\<rparr>
                 in net_log [Printf (''net0: DHCP timeout, fallback static ip=%s gw=%s'' @ nl) [vtext (ip_text (g_ip_addr s2)), vtext (ip_text (g_ip_gw s2))]] s2))
      })"

definition net_adapter_count :: "net \<Rightarrow> nat" where
  "net_adapter_count s = length (g_adapters s)"

definition net_dump_adapters :: "net \<Rightarrow> con_call list" where
  "net_dump_adapters s =
     (if g_adapters s = [] then [Writeln ''net: no ethernet controller detected'' []]
      else map (\<lambda>(i, a). Printf (''eth%u: pci=%u:%u.%u vendor=%x device=%x irq=%u driver=%s state=%s'' @ nl)
        [vunsigned (of_nat i), vunsigned (ucast (a_bus a)), vunsigned (ucast (a_slot a)), vunsigned (ucast (a_func a)),
         vunsigned (ucast (a_vendor_id a)), vunsigned (ucast (a_device_id a)), vunsigned (ucast (a_irq_line a)),
         vtext (if a_vendor_id a = 0x10EC \<and> a_device_id a = 0x8139 then ''rtl8139'' else ''unbound''),
         vtext (if a_bound a then ''up'' else ''down'')]) (enumerate 0 (g_adapters s)))"

definition net_dump_driver_tools :: "con_call list" where
  "net_dump_driver_tools =
     [Writeln ''network drivers:'' [],
      Writeln ''  rtl8139       : implemented (active target)'' [],
      Writeln ''  e1000/e1000e  : not implemented'' [],
      Writeln ''  virtio-net    : not implemented'' [],
      Writeln ''  ne2k-pci      : not implemented'' []]"

definition net_scan_nearby :: "world \<Rightarrow> net \<Rightarrow> net option" where
  "net_scan_nearby w s =
     (if \<not> g_rtl_ready s then Some (net_log [Writeln ''scan: net0 down (rtl8139 not ready)'' []] s)
      else do {
        s1 \<leftarrow> rtl_poll_rx w s;
        (r, s2) \<leftarrow> net_resolve_arp w (g_ip_gw s1) MGCORE_HZ s1;
        Some (net_log [Writeln (if r \<noteq> None then ''scan: gateway ARP reachable'' else ''scan: gateway ARP timeout'') []] s2)
      })"

definition net_dump_nearby :: "net \<Rightarrow> con_call list" where
  "net_dump_nearby s =
     [Printf (''net0: driver=rtl8139 state=%s connected=%s'' @ nl)
        [vtext (if g_rtl_ready s then ''up'' else ''down''), vtext (if g_connected s then ''yes'' else ''no'')],
      Printf (''net0: ip=%s mask=%s gw=%s'' @ nl) [vtext (ip_text (g_ip_addr s)), vtext (ip_text (g_ip_mask s)), vtext (ip_text (g_ip_gw s))],
      Printf (''net0: rx=%u tx=%u drop=%u arp_entries=%u'' @ nl)
        [vunsigned (g_rx_frames s), vunsigned (g_tx_frames s), vunsigned (g_rx_dropped s),
         vunsigned (of_nat (length (filter e_valid (g_arp_cache s))))]]"

definition net_connect_target :: "world \<Rightarrow> string option \<Rightarrow> net \<Rightarrow> (int \<times> net) option" where
  "net_connect_target w target s =
     (case target of
        None \<Rightarrow> Some (-1, s)
      | Some t \<Rightarrow>
          if char_at t = NUL then Some (-1, s)
          else if \<not> g_rtl_ready s then Some (-2, s)
          else if kstrcmp t ''net0'' \<noteq> 0 \<and> kstrcmp t ''default'' \<noteq> 0 \<and> kstrcmp t ''up'' \<noteq> 0 then Some (-4, s)
          else do {
            (r, s1) \<leftarrow> net_resolve_arp w (g_ip_gw s) MGCORE_HZ s;
            Some (if r = None then (-3, s1) else (0, s1\<lparr>g_connected := True\<rparr>))
          })"

definition net_connected_name :: "net \<Rightarrow> string option" where
  "net_connected_name s = (if g_connected s then Some ''net0'' else None)"

text \<open>One echo request of \<^verbatim>\<open>net_ping\<close>: whether it was answered, and the state afterwards.\<close>

definition ping_once :: "world \<Rightarrow> u32 \<Rightarrow> u8 list \<Rightarrow> u16 \<Rightarrow> u64 \<Rightarrow> net \<Rightarrow> (bool \<times> net) option" where
  "ping_once w dst_ip dst_mac identifier seq s =
     (let number = ucast (seq + 1) :: u16;
          s0 = s\<lparr>g_ping_wait := zero_ping\<lparr>pw_active := True, pw_identifier := identifier, pw_sequence := number, pw_target_ip := dst_ip\<rparr>\<rparr>;
          stop = (\<lambda>t. t\<lparr>g_ping_wait := (g_ping_wait t)\<lparr>pw_active := False\<rparr>\<rparr>)
      in do {
        (r, s1) \<leftarrow> ip_send_icmp_echo w dst_ip dst_mac identifier number s0;
        if r \<noteq> 0 then Some (False, stop (net_log [Printf (''icmp_seq=%u send failed'' @ nl) [vunsigned (seq + 1)]] s1))
        else do {
          (ok, s2) \<leftarrow> wait_flag w (\<lambda>t. pw_received (g_ping_wait t)) (w_ticks s) MGCORE_HZ s1;
          Some (ok, stop (net_log
            [if ok then Printf (''64 bytes from %s: icmp_seq=%u ttl=%u time=%u ms'' @ nl)
                  [vtext (ip_text dst_ip), vunsigned (seq + 1), vunsigned (ucast (pw_reply_ttl (g_ping_wait s2))), vunsigned (uptime_ms s2 - uptime_ms s)]
             else Printf (''icmp_seq=%u timeout'' @ nl) [vunsigned (seq + 1)]] s2))
        }
      })"

fun ping_loop :: "world \<Rightarrow> u32 \<Rightarrow> u8 list \<Rightarrow> u16 \<Rightarrow> u64 \<Rightarrow> nat \<Rightarrow> nat \<Rightarrow> net \<Rightarrow> (nat \<times> net) option" where
  "ping_loop w dst_ip dst_mac identifier seq 0 received s = Some (received, s)"
| "ping_loop w dst_ip dst_mac identifier seq (Suc n) received s =
     (case ping_once w dst_ip dst_mac identifier seq s of
        None \<Rightarrow> None
      | Some (ok, s1) \<Rightarrow> ping_loop w dst_ip dst_mac identifier (seq + 1) n (if ok then received + 1 else received) s1)"

definition net_ping :: "world \<Rightarrow> string option \<Rightarrow> u64 \<Rightarrow> net \<Rightarrow> (int \<times> net) option" where
  "net_ping w target count s =
     (let say = (\<lambda>t. net_log [Writeln t []]); count' = (if count = 0 then 4 else count)
      in case target of
        None \<Rightarrow> Some (-1, say ''ping: target required'' s)
      | Some t \<Rightarrow>
          if char_at t = NUL then Some (-1, say ''ping: target required'' s)
          else if kstrcmp t ''localhost'' = 0 \<or> kstrcmp t ''127.0.0.1'' = 0 then
            Some (0, net_log (Writeln ''PING localhost (loopback):'' []
              # map (\<lambda>seq. Printf (''64 bytes from 127.0.0.1: icmp_seq=%u ttl=64 time=0 ms'' @ nl) [vunsigned (of_nat (seq + 1))]) [0..<unat count']) s)
          else case parse_ipv4 target of
            None \<Rightarrow> Some (-1, say ''ping: target must be literal IPv4 (example: 8.8.8.8)'' s)
          | Some dst_ip \<Rightarrow>
              if \<not> g_rtl_ready s then Some (-1, say ''ping: network adapter down'' s)
              else do {
                let next_hop = route_next_hop dst_ip s;
                (mac, s1) \<leftarrow> net_resolve_arp w next_hop (MGCORE_HZ * 2) s;
                case mac of
                  None \<Rightarrow> Some (-1, net_log [Printf (''ping: ARP resolve failed for next-hop %s'' @ nl) [vtext (ip_text next_hop)]] s1)
                | Some dst_mac \<Rightarrow> do {
                    let s2 = net_log [Printf (''PING %s from net0:'' @ nl) [vtext (ip_text dst_ip)]] s1;
                    let identifier = ucast ((w_ticks s2 AND 0xFFFF) XOR 0x4D47);
                    (received, s3) \<leftarrow> ping_loop w dst_ip dst_mac identifier 0 (unat count') 0 s2;
                    let s4 = net_log [Printf (''--- %s ping statistics ---'' @ nl) [vtext (ip_text dst_ip)],
                       Printf (''%u packets transmitted, %u received, %u%% packet loss'' @ nl)
                         [vunsigned count', vunsigned (of_nat received), vunsigned (((count' - of_nat received) * 100) div count')]] s3;
                    Some (if received > 0 then 0 else -1, s4)
                  }
              })"

end
