(* ===== verification/Net_Props.thy ===== *)
theory Net_Props
  imports Net
begin

text \<open>
  Properties of the network stack: every received frame is processed without a read outside of it,
  the invariant of the driver state (descriptor index, ring offset, cache without duplicates), an
  ARP exchange between two hosts, and the waits, which end as long as the timer ticks.
\<close>

subsection \<open>Loads, stores and frames\<close>

lemma load_Some [simp]: "i < length p \<Longrightarrow> load p i = Some (p ! i)" "p \<noteq> [] \<Longrightarrow> load p 0 = Some (p ! 0)"
  by (simp_all add: load_def)

lemma be_load_Some:
  "i + 1 < length p \<Longrightarrow> be16_load p i = Some (push_bit 8 (ucast (p ! i)) OR ucast (p ! (i + 1)))"
  "i + 3 < length p \<Longrightarrow> be32_load p i =
     Some (push_bit 24 (ucast (p ! i)) OR push_bit 16 (ucast (p ! (i + 1))) OR push_bit 8 (ucast (p ! (i + 2))) OR ucast (p ! (i + 3)))"
  by (simp_all add: be16_load_def be32_load_def)

lemma slice_Some: "i + n \<le> length p \<Longrightarrow> slice i n p = Some (take n (drop i p))"
  by (simp add: slice_def)

lemma bit_low_byte: "bit (w AND 0xFF) k \<longleftrightarrow> k < 8 \<and> bit w k" for w :: "'a::len word"
proof -
  have "(0xFF :: 'a word) = mask 8" by (simp add: mask_numeral)
  then show ?thesis by (simp only: bit_and_iff bit_mask_iff possible_bit_word) (auto dest: bit_imp_le_length)
qed

lemma be16_join: "push_bit 8 (ucast (ucast (drop_bit 8 v AND 0xFF) :: u8)) OR ucast (ucast (v AND 0xFF) :: u8) = v" for v :: u16
proof (rule bit_eqI)
  fix n assume "possible_bit TYPE(u16) n"
  then have n: "n < 16" by simp
  have d: "k \<le> n \<Longrightarrow> bit (drop_bit k v) (n - k) = bit v n" for k by (simp only: bit_drop_bit_eq comp_def) simp
  consider "n < 8" | "8 \<le> n" by linarith
  then show "bit (push_bit 8 (ucast (ucast (drop_bit 8 v AND 0xFF) :: u8)) OR ucast (ucast (v AND 0xFF) :: u8) :: u16) n = bit v n"
    by cases (use n in \<open>auto simp: bit_or_iff bit_push_bit_iff bit_unsigned_iff bit_low_byte d\<close>)
qed

lemma be32_join:
  "push_bit 24 (ucast (octets v ! 0)) OR push_bit 16 (ucast (octets v ! 1)) OR push_bit 8 (ucast (octets v ! 2)) OR ucast (octets v ! 3) = v"
proof -
  have "push_bit 8 (push_bit 8 (push_bit 8 a OR b) OR c) OR d = push_bit 24 a OR push_bit 16 b OR push_bit 8 c OR d" for a b c d :: u32
    by (simp add: push_bit_or or.assoc)
  then show ?thesis using octets_join [of v] by simp
qed

lemma be_bytes_load:
  "be16_load (be16_bytes v) 0 = Some v" "be32_load (be32_bytes x) 0 = Some x"
  using be16_join [of v] be32_join [of x]
  by (simp_all add: be_load_Some be16_bytes_def be32_bytes_def octets_def)

lemma bind_put:
  assumes "i + length bs \<le> length p" and "\<And>q. length q = length p \<Longrightarrow> \<exists>r. F q = Some r \<and> P r"
  shows "\<exists>r. Option.bind (put i bs p) F = Some r \<and> P r"
  using assms by (simp add: put_def)

lemma put_ok: "i + length bs \<le> n \<Longrightarrow> length p = n \<Longrightarrow> \<exists>q. put i bs p = Some q \<and> length q = n"
  by (auto simp: put_def)

lemma bind_slice:
  assumes "i + n \<le> length p" and "\<And>q. length q = n \<Longrightarrow> \<exists>r. F q = Some r \<and> P r"
  shows "\<exists>r. Option.bind (slice i n p) F = Some r \<and> P r"
  using assms by (simp add: slice_def)

lemma slice_ok: "i + n \<le> length p \<Longrightarrow> \<exists>q. slice i n p = Some q \<and> length q = n"
  by (auto simp: slice_def)

lemma be_bytes_length [simp]: "length (be16_bytes v) = 2" "length (be32_bytes x) = 4"
  by (simp_all add: be16_bytes_def be32_bytes_def)

lemmas frame_rules = bind_put bind_slice put_ok slice_ok

lemma frames_total:
  assumes "length (g_mac s) = 6"
  shows "\<exists>f. arp_request_frame ip s = Some f \<and> length f = 42"
    and "length mac = 6 \<Longrightarrow> \<exists>f. arp_reply_frame mac ip s = Some f \<and> length f = 42"
    and "length mac = 6 \<Longrightarrow> \<exists>f. icmp_echo_frame ip mac ident seq s = Some f \<and> length f = 66"
    and "length mac = 6 \<Longrightarrow> \<exists>f. udp_frame src dst sp dp payload mac s = Some f \<and> length f = 42 + length payload"
    and "\<exists>p. dhcp_header s = Some p \<and> length p = 300"
  unfolding arp_request_frame_def arp_reply_frame_def icmp_echo_frame_def udp_frame_def dhcp_header_def be16_store_def be32_store_def
  by (intro frame_rules; simp add: assms)+

lemma bind_total: "\<exists>q. m = Some q \<and> Q q \<Longrightarrow> (\<And>q. Q q \<Longrightarrow> \<exists>r. F q = Some r \<and> P r) \<Longrightarrow> \<exists>r. Option.bind m F = Some r \<and> P r"
  by auto

lemma dhcp_messages_total:
  assumes "length (g_mac s) = 6"
  shows "\<exists>p. dhcp_discover s = Some p \<and> length p = 249" and "\<exists>p. dhcp_request s = Some p \<and> length p = 256"
  unfolding dhcp_discover_def dhcp_request_def be32_store_def
  by (rule bind_total [OF frames_total(5) [OF assms]], intro frame_rules; simp)+

lemma dhcp_option_total: "unat opt_len \<le> length body \<Longrightarrow> \<exists>r. dhcp_option code opt_len body acc = Some r"
  by (cases acc) (auto simp: dhcp_option_def load_def be_load_Some word_le_nat_alt)

lemma options_loop_total: "\<exists>r. options_loop opts acc = Some r"
proof (induction opts acc rule: options_loop.induct)
  case (2 code rest acc)
  show ?case
  proof (cases rest)
    case (Cons opt_len body)
    show ?thesis
    proof (cases "unat opt_len > length body")
      case False
      then obtain r where "dhcp_option code opt_len body acc = Some r" using dhcp_option_total [of opt_len body code acc] by (metis not_less)
      then show ?thesis using 2 Cons False by auto
    qed (use 2 Cons in auto)
  qed (use 2 in auto)
qed simp

subsection \<open>The invariant\<close>

definition arp_inv :: "arp_entry list \<Rightarrow> bool" where
  "arp_inv c \<longleftrightarrow> length c = NET_MAX_ARP_CACHE \<and> (\<forall>e \<in> set c. length (e_mac e) = 6) \<and>
     (\<forall>i < NET_MAX_ARP_CACHE. \<forall>j < NET_MAX_ARP_CACHE. e_valid (c ! i) \<longrightarrow> e_valid (c ! j) \<longrightarrow> e_ip (c ! i) = e_ip (c ! j) \<longrightarrow> i = j)"

definition net_inv :: "net \<Rightarrow> bool" where
  "net_inv s \<longleftrightarrow> length (g_mac s) = 6 \<and> length (g_tx_buffer s) = RTL_TX_DESC_COUNT \<and>
     (\<forall>b \<in> set (g_tx_buffer s). length b = RTL_TX_BUFFER_SIZE) \<and> unat (g_tx_index s) < RTL_TX_DESC_COUNT \<and>
     unat (g_rx_read_offset s) < 8192 \<and> 4 dvd unat (g_rx_read_offset s) \<and> arp_inv (g_arp_cache s) \<and>
     length (g_adapters s) \<le> NET_MAX_ADAPTERS"

text \<open>What a transmission may change: the transmit ring and the records of the environment.\<close>

definition tx_only :: "net \<Rightarrow> net \<Rightarrow> bool" where
  "tx_only s t \<longleftrightarrow> t = s\<lparr>g_tx_buffer := g_tx_buffer t, g_tx_index := g_tx_index t, g_tx_frames := g_tx_frames t, w_reads := w_reads t,
     w_out := w_out t, w_sent := w_sent t\<rparr>"

lemma tx_onlyD:
  assumes "tx_only s t"
  shows "g_adapters t = g_adapters s" "g_rtl_io_base t = g_rtl_io_base s" "g_rtl_ready t = g_rtl_ready s" "g_mac t = g_mac s"
    "g_rx_read_offset t = g_rx_read_offset s" "g_ip_addr t = g_ip_addr s" "g_arp_cache t = g_arp_cache s" "g_ping_wait t = g_ping_wait s"
    "g_dhcp t = g_dhcp s" "w_ticks t = w_ticks s" "w_waits t = w_waits s" "w_log t = w_log s"
  using assms by (cases s; cases t; simp add: tx_only_def)+

lemma io_sel [simp]:
  "io_out p s = s\<lparr>w_out := w_out s @ [p]\<rparr>" "io_in w s = (d_in w (w_reads s), s\<lparr>w_reads := Suc (w_reads s)\<rparr>)"
  by (simp_all add: io_out_def io_in_def)

lemma spin_sel: "\<exists>ok k. spin w test n s = (ok, s\<lparr>w_reads := k\<rparr>)"
  by (auto simp: spin_def split: option.split)

lemma rtl_send_cases:
  obtains "rtl_send_raw_frame w f s = (-1, s)" "\<not> g_rtl_ready s \<or> f = [] \<or> length f > 2048"
  | n t where "g_rtl_ready s" "f \<noteq> []" "length f \<le> 2048" "rtl_send_raw_frame w f s = (0, t)" "tx_only s t"
      "w_sent t = w_sent s @ [f @ replicate n 0]" "n = 60 - length f"
      "g_tx_index t = of_nat ((unat (g_tx_index s) + 1) mod 4)"
      "g_tx_buffer t = (g_tx_buffer s)[unat (g_tx_index s) := f @ replicate n 0 @ drop (length f + n) (g_tx_buffer s ! unat (g_tx_index s))]"
proof (cases "\<not> g_rtl_ready s \<or> f = [] \<or> length f > 2048")
  case True
  then show thesis using that(1) by (simp add: rtl_send_raw_frame_def rtl_out_of_bounds_tx_def RTL_TX_BUFFER_SIZE_def)
next
  case False
  let ?n = "60 - length f"
  have l: "(if length f < 60 then 60 else length f) = length f + ?n" by simp
  obtain r t where rt: "rtl_send_raw_frame w f s = (r, t)" by (cases "rtl_send_raw_frame w f s")
  show thesis
  proof (rule that(2) [of t ?n])
    show "rtl_send_raw_frame w f s = (0, t)" "tx_only s t" "w_sent t = w_sent s @ [f @ replicate ?n 0]"
      "g_tx_index t = of_nat ((unat (g_tx_index s) + 1) mod 4)"
      "g_tx_buffer t = (g_tx_buffer s)[unat (g_tx_index s) := f @ replicate ?n 0 @ drop (length f + ?n) (g_tx_buffer s ! unat (g_tx_index s))]"
      using rt False unfolding rtl_send_raw_frame_def Let_def l
      by (auto simp: rtl_out_of_bounds_tx_def net_consts spin_def tx_only_def split: option.splits)
  qed (use False in auto)
qed

lemma rtl_send_inv [invariants]:
  assumes "net_inv s" and "rtl_send_raw_frame w f s = (r, t)"
  shows "net_inv t" and "tx_only s t"
proof -
  have "net_inv t \<and> tx_only s t"
  proof (rule rtl_send_cases [of w f s])
    assume "rtl_send_raw_frame w f s = (-1, s)"
    then show ?thesis using assms by (simp add: tx_only_def)
  next
    fix n t' assume c: "length f \<le> 2048" "rtl_send_raw_frame w f s = (0, t')" "tx_only s t'" "n = 60 - length f"
      "g_tx_index t' = of_nat ((unat (g_tx_index s) + 1) mod 4)"
      "g_tx_buffer t' = (g_tx_buffer s)[unat (g_tx_index s) := f @ replicate n 0 @ drop (length f + n) (g_tx_buffer s ! unat (g_tx_index s))]"
    have i: "unat (g_tx_index s) < 4" "length (g_tx_buffer s) = 4" "\<forall>b \<in> set (g_tx_buffer s). length b = 2048"
      using assms(1) by (simp_all add: net_inv_def net_consts)
    then have "length (g_tx_buffer s ! unat (g_tx_index s)) = 2048" by simp
    then have "length (f @ replicate n 0 @ drop (length f + n) (g_tx_buffer s ! unat (g_tx_index s))) = 2048" using c(1,4) by simp
    then have "\<forall>b \<in> set (g_tx_buffer t'). length b = 2048"
      using i(3) set_update_subset_insert unfolding c(6) by fastforce
    moreover have "unat (g_tx_index t') < 4"
    proof -
      have "unat (of_nat m :: u8) < 4" if "m < 4" for m using that by (simp add: unat_of_nat take_bit_nat_eq_self)
      then show ?thesis unfolding c(5) by simp
    qed
    moreover have "length (g_tx_buffer t') = 4" using i(2) unfolding c(6) by simp
    ultimately have "net_inv t'" using assms(1) unfolding net_inv_def tx_onlyD [OF c(3)] net_consts by blast
    then show ?thesis using assms(2) c(2,3) by simp
  qed
  then show "net_inv t" "tx_only s t" by blast+
qed

subsection \<open>The ARP cache\<close>

lemma arp_slot_SomeD:
  assumes "arp_slot ip c = Some i"
  shows "i < 4" "e_valid (c ! i)" "e_ip (c ! i) = ip"
  using scan_from_SomeD [OF assms [unfolded arp_slot_def]] by (simp_all add: NET_MAX_ARP_CACHE_def)

lemma arp_slot_None_iff: "arp_slot ip c = None \<longleftrightarrow> (\<forall>i < 4. e_valid (c ! i) \<longrightarrow> e_ip (c ! i) \<noteq> ip)"
  by (auto simp: arp_slot_def scan_from_None_iff NET_MAX_ARP_CACHE_def)

lemma arp_invD:
  assumes "arp_inv c"
  shows "length c = 4" "\<And>i. i < 4 \<Longrightarrow> length (e_mac (c ! i)) = 6"
    "\<And>i j. i < 4 \<Longrightarrow> j < 4 \<Longrightarrow> e_valid (c ! i) \<Longrightarrow> e_valid (c ! j) \<Longrightarrow> e_ip (c ! i) = e_ip (c ! j) \<Longrightarrow> i = j"
  using assms by (auto simp: arp_inv_def NET_MAX_ARP_CACHE_def)

lemma arp_slot_eq_Some:
  assumes "arp_inv c" and "i < 4" and "e_valid (c ! i)" and "e_ip (c ! i) = ip"
  shows "arp_slot ip c = Some i"
proof (cases "arp_slot ip c")
  case None
  then show ?thesis using assms(2-4) by (auto simp: arp_slot_None_iff)
next
  case (Some j)
  note j = arp_slot_SomeD [OF Some]
  have "j = i" by (rule arp_invD(3) [OF assms(1) j(1) assms(2) j(2) assms(3)]) (simp add: j(3) assms(4))
  then show ?thesis using Some by simp
qed

text \<open>Where an address goes: its own slot, else the first free one, else slot 0.\<close>

definition arp_target :: "u32 \<Rightarrow> arp_entry list \<Rightarrow> nat" where
  "arp_target ip c =
     (case arp_slot ip c of Some i \<Rightarrow> i
      | None \<Rightarrow> (case scan_from (\<lambda>i. \<not> e_valid (c ! i)) 0 4 of None \<Rightarrow> 0 | Some i \<Rightarrow> i))"

lemma arp_target_props:
  "arp_target ip c < 4"
  "e_valid (c ! arp_target ip c) \<Longrightarrow> e_ip (c ! arp_target ip c) \<noteq> ip \<Longrightarrow> arp_target ip c = 0 \<and> (\<forall>i < 4. e_valid (c ! i)) \<and> arp_slot ip c = None"
  "i < 4 \<Longrightarrow> e_valid (c ! i) \<Longrightarrow> e_ip (c ! i) = ip \<Longrightarrow> arp_inv c \<Longrightarrow> arp_target ip c = i"
  by (auto simp: arp_target_def scan_from_None_iff scan_from_Some_iff arp_slot_eq_Some dest: arp_slot_SomeD split: option.splits)

lemma arp_update_cache:
  assumes "arp_inv (g_arp_cache s)" and "length mac = 6"
  obtains e where "arp_cache_update ip mac s = s\<lparr>g_arp_cache := (g_arp_cache s)[arp_target ip (g_arp_cache s) := e]\<rparr>"
    "e_valid e" "e_ip e = ip" "e_mac e = mac" "arp_inv ((g_arp_cache s)[arp_target ip (g_arp_cache s) := e])"
proof -
  let ?c = "g_arp_cache s" and ?i = "arp_target ip (g_arp_cache s)"
  let ?e = "\<lparr>e_ip = ip, e_mac = mac, e_valid = True, e_updated_tick = w_ticks s\<rparr>"
  have u: "arp_cache_update ip mac s = s\<lparr>g_arp_cache := ?c[?i := ?e]\<rparr>"
  proof (cases "arp_slot ip ?c")
    case (Some k)
    have "(?c ! k)\<lparr>e_mac := mac, e_updated_tick := w_ticks s\<rparr> = ?e" using arp_slot_SomeD [OF Some] by simp
    then show ?thesis using Some by (simp add: arp_cache_update_def arp_target_def)
  qed (simp add: arp_cache_update_def arp_target_def Let_def NET_MAX_ARP_CACHE_def)
  note d = arp_invD [OF assms(1)]
  have l: "?i < 4" by (rule arp_target_props)
  have m: "\<forall>x \<in> set (?c[?i := ?e]). length (e_mac x) = 6"
  proof
    fix x assume "x \<in> set (?c[?i := ?e])"
    then have "x = ?e \<or> x \<in> set ?c" using set_update_subset_insert by fast
    then show "length (e_mac x) = 6" using assms by (auto simp: arp_inv_def)
  qed
  have x: "k = ?i" if "k < 4" "e_valid (?c ! k)" "e_ip (?c ! k) = ip" for k
    using arp_target_props(3) [OF that assms(1)] by simp
  have q: "a = b" if "a < 4" "b < 4" "e_valid (?c[?i := ?e] ! a)" "e_valid (?c[?i := ?e] ! b)" "e_ip (?c[?i := ?e] ! a) = e_ip (?c[?i := ?e] ! b)" for a b
  proof -
    have n: "?c[?i := ?e] ! k = (if k = ?i then ?e else ?c ! k)" if "k < 4" for k using that d(1) by (simp add: nth_list_update)
    have own: "k = ?i" if "k < 4" "e_valid (?c[?i := ?e] ! k)" "e_ip (?c[?i := ?e] ! k) = ip" for k
      using that n [OF that(1)] x [OF that(1)] by metis
    have ip: "e_ip (?c[?i := ?e] ! ?i) = ip" using n [OF l] by simp
    show ?thesis
    proof (cases "a = ?i \<or> b = ?i")
      case True
      then have "e_ip (?c[?i := ?e] ! a) = ip" "e_ip (?c[?i := ?e] ! b) = ip" using ip that(5) by metis+
      then show ?thesis using own [OF that(1,3)] own [OF that(2,4)] by metis
    next
      case False
      then show ?thesis using that n [OF that(1)] n [OF that(2)] d(3) [OF that(1,2)] by metis
    qed
  qed
  have "arp_inv (?c[?i := ?e])" using d(1) m q by (auto simp: arp_inv_def NET_MAX_ARP_CACHE_def)
  then show thesis by (intro that [OF u]) simp_all
qed

lemma arp_lookup_own:
  assumes "arp_inv (g_arp_cache s)" and "length mac = 6"
  shows "arp_cache_lookup ip (arp_cache_update ip mac s) = Some mac"
proof -
  let ?c = "g_arp_cache s" and ?i = "arp_target ip (g_arp_cache s)"
  obtain e where e: "arp_cache_update ip mac s = s\<lparr>g_arp_cache := ?c[?i := e]\<rparr>" "e_valid e" "e_ip e = ip" "e_mac e = mac" "arp_inv (?c[?i := e])"
    using arp_update_cache [OF assms] by blast
  have l: "?i < 4" "length ?c = 4" using arp_target_props(1) arp_invD(1) [OF assms(1)] by auto
  have "arp_slot ip (?c[?i := e]) = Some ?i" by (rule arp_slot_eq_Some [OF e(5) l(1)]) (use l e in simp_all)
  then show ?thesis using e l by (simp add: arp_cache_lookup_def)
qed

text \<open>
  The ARP cache behaves as a map with a fixed capacity. After an update the address maps to the
  given hardware address; the entry of every other address stays as it was, unless the address was
  new, all four entries were in use and the entry in slot 0 was replaced.
\<close>

lemma arp_cache_update_lookup:
  assumes "arp_inv (g_arp_cache s)" and "length mac = 6"
  shows "arp_cache_lookup ip (arp_cache_update ip mac s) = Some mac \<and>
    (\<forall>other. other \<noteq> ip \<longrightarrow> arp_cache_lookup other (arp_cache_update ip mac s) =
       (if arp_cache_lookup ip s = None \<and> (\<forall>i < 4. e_valid (g_arp_cache s ! i)) \<and> e_ip (g_arp_cache s ! 0) = other
        then None else arp_cache_lookup other s))"
proof -
  let ?c = "g_arp_cache s" and ?i = "arp_target ip (g_arp_cache s)"
  obtain e where e: "arp_cache_update ip mac s = s\<lparr>g_arp_cache := ?c[?i := e]\<rparr>" "e_valid e" "e_ip e = ip" "e_mac e = mac" "arp_inv (?c[?i := e])"
    using arp_update_cache [OF assms] by blast
  have l: "?i < 4" "length ?c = 4" using arp_target_props(1) arp_invD(1) [OF assms(1)] by auto
  have "arp_cache_lookup ip (arp_cache_update ip mac s) = Some mac" by (rule arp_lookup_own [OF assms])
  moreover have "arp_cache_lookup other (arp_cache_update ip mac s) =
       (if arp_cache_lookup ip s = None \<and> (\<forall>i < 4. e_valid (?c ! i)) \<and> e_ip (?c ! 0) = other then None else arp_cache_lookup other s)"
    if ne: "other \<noteq> ip" for other
  proof (cases "arp_slot other ?c")
    case None
    then have "arp_slot other (?c[?i := e]) = None" using e(3) ne l by (auto simp: arp_slot_None_iff nth_list_update)
    then show ?thesis using None e(1) by (simp add: arp_cache_lookup_def)
  next
    case (Some k)
    note k = arp_slot_SomeD [OF Some]
    show ?thesis
    proof (cases "k = ?i")
      case True
      then have ev: "?i = 0" "\<forall>i < 4. e_valid (?c ! i)" "arp_slot ip ?c = None" using arp_target_props(2) [of ?c ip] k ne by auto
      have "arp_slot other (?c[?i := e]) = None"
        using arp_invD(3) [OF assms(1), of k] True k e(3) ne l(2) by (fastforce simp: arp_slot_None_iff nth_list_update)
      then show ?thesis using e(1) ev k True by (simp add: arp_cache_lookup_def)
    next
      case False
      have "arp_slot other (?c[?i := e]) = Some k" by (rule arp_slot_eq_Some [OF e(5) k(1)]) (use False k l in simp_all)
      moreover have "\<not> (arp_slot ip ?c = None \<and> (\<forall>i < 4. e_valid (?c ! i)) \<and> e_ip (?c ! 0) = other)"
      proof
        assume a: "arp_slot ip ?c = None \<and> (\<forall>i < 4. e_valid (?c ! i)) \<and> e_ip (?c ! 0) = other"
        then have "?i = 0" by (auto simp: arp_target_def scan_from_Some_iff split: option.splits)
        moreover have "k = 0" using arp_invD(3) [OF assms(1) k(1), of 0] k a by auto
        ultimately show False using False by simp
      qed
      ultimately show ?thesis using Some False e(1) by (simp add: arp_cache_lookup_def)
    qed
  qed
  ultimately show ?thesis by blast
qed

subsection \<open>Receiving\<close>

text \<open>What processing a frame leaves alone.\<close>

definition rx_keeps :: "net \<Rightarrow> net \<Rightarrow> bool" where
  "rx_keeps s t \<longleftrightarrow> g_rtl_ready t = g_rtl_ready s \<and> g_mac t = g_mac s \<and> g_rtl_io_base t = g_rtl_io_base s \<and> g_ip_addr t = g_ip_addr s \<and>
     w_ticks t = w_ticks s \<and> w_waits t = w_waits s \<and> w_log t = w_log s"

definition handled :: "net \<Rightarrow> net option \<Rightarrow> bool" where
  "handled s r \<longleftrightarrow> (\<exists>t. r = Some t \<and> net_inv t \<and> rx_keeps s t \<and> g_rx_read_offset t = g_rx_read_offset s)"

lemma handled_refl [simp]: "net_inv s \<Longrightarrow> handled s (Some s)"
  by (simp add: handled_def rx_keeps_def)

lemma arp_handled:
  assumes "net_inv s"
  shows "handled s (net_process_arp w p s)"
proof (cases "length p < 28")
  case True
  then show ?thesis using assms by (simp add: net_process_arp_def)
next
  case False
  define sha where "sha = take 6 (drop 8 p)"
  define sip where "sip = (push_bit 24 (ucast (p ! 14)) OR push_bit 16 (ucast (p ! 15)) OR push_bit 8 (ucast (p ! 16)) OR ucast (p ! 17) :: u32)"
  let ?s = "arp_cache_update sip sha s"
  have l: "length sha = 6" using False by (simp add: sha_def)
  have ai: "arp_inv (g_arp_cache s)" using assms by (simp add: net_inv_def)
  obtain c where c: "?s = s\<lparr>g_arp_cache := c\<rparr>" "arp_inv c" using arp_update_cache [OF ai l] by metis
  have i1: "net_inv ?s" using assms c(2) unfolding c(1) by (simp add: net_inv_def)
  have k1: "rx_keeps s ?s" "g_rx_read_offset ?s = g_rx_read_offset s" unfolding c(1) by (simp_all add: rx_keeps_def)
  have "length (g_mac ?s) = 6" using i1 by (simp add: net_inv_def)
  then obtain f where f: "arp_reply_frame sha sip ?s = Some f" using frames_total(2) l by blast
  obtain r t where rt: "rtl_send_raw_frame w f ?s = (r, t)" by (cases "rtl_send_raw_frame w f ?s")
  have t: "net_inv t" "tx_only ?s t" using rtl_send_inv [OF i1 rt] by auto
  have k2: "rx_keeps s t" "g_rx_read_offset t = g_rx_read_offset s"
    using tx_onlyD [OF t(2)] k1 by (auto simp: rx_keeps_def)
  have "map_option snd (arp_send_reply w sha sip ?s) = Some t" using f rt by (simp add: arp_send_reply_def)
  then show ?thesis
    using False assms t(1) i1 k1 k2
    by (auto simp: net_process_arp_def be_load_Some slice_Some Let_def sha_def sip_def handled_def rx_keeps_def)
qed

lemma handled_upd [simp]:
  "net_inv s \<Longrightarrow> handled s (Some (s\<lparr>g_dhcp := l\<rparr>))" "net_inv s \<Longrightarrow> handled s (Some (s\<lparr>g_ping_wait := p\<rparr>))"
  by (simp_all add: handled_def rx_keeps_def net_inv_def)

lemma dhcp_handled:
  assumes "net_inv s"
  shows "handled s (dhcp_process_packet p s)"
proof (cases "\<not> dl_active (g_dhcp s) \<or> length p < 240")
  case True
  then show ?thesis using assms by (auto simp: dhcp_process_packet_def)
next
  case False
  obtain m l where "dhcp_parse_options (drop 240 p) (g_dhcp s) = Some (m, l)"
    using options_loop_total [of "drop 240 p" "(0, g_dhcp s)"] by (auto simp: dhcp_parse_options_def)
  moreover have "p \<noteq> []" using False by auto
  ultimately show ?thesis
    using False assms unfolding dhcp_process_packet_def by (simp add: be_load_Some slice_Some split del: if_split) (simp split: if_split)
qed

lemma udp_handled: "net_inv s \<Longrightarrow> p \<noteq> [] \<Longrightarrow> handled s (net_process_udp p s)"
  by (auto simp: net_process_udp_def be_load_Some slice_Some Let_def dhcp_handled word_less_nat_alt)

lemma icmp_handled: "net_inv s \<Longrightarrow> p \<noteq> [] \<Longrightarrow> handled s (net_process_icmp p s)"
  by (auto simp: net_process_icmp_def be_load_Some Let_def)

lemma ipv4_handled:
  assumes "net_inv s"
  shows "handled s (net_process_ipv4 p s)"
proof (cases "length p < 20")
  case False
  then have "p \<noteq> []" by auto
  then show ?thesis
    using False assms udp_handled [OF assms] icmp_handled [OF assms]
    unfolding net_process_ipv4_def Let_def by (simp add: be_load_Some slice_Some)
qed (use assms in \<open>simp add: net_process_ipv4_def\<close>)

lemma frame_handled: "net_inv s \<Longrightarrow> handled s (net_process_frame w f s)"
  by (auto simp: net_process_frame_def be_load_Some arp_handled ipv4_handled)

text \<open>
  C16: No received frame can make the kernel read outside of it. Whatever bytes arrive, of whatever
  length, the ARP, IPv4, ICMP, UDP and DHCP parsers read only bytes of the frame (below the length
  the IP and UDP headers claim, once those were checked), the reply fits its buffer, and the state
  of the stack keeps its invariant; neither the own address nor the hardware address nor the clock
  is touched.
\<close>

theorem net_process_frame_safe:
  assumes "net_inv s"
  shows "\<exists>t. net_process_frame w frame s = Some t \<and> net_inv t \<and> g_ip_addr t = g_ip_addr s \<and> g_mac t = g_mac s \<and> w_ticks t = w_ticks s"
  using frame_handled [OF assms, of w frame] by (auto simp: handled_def rx_keeps_def)

lemma rx_keeps_trans: "rx_keeps a b \<Longrightarrow> rx_keeps b c \<Longrightarrow> rx_keeps a c"
  by (auto simp: rx_keeps_def)

lemma rx_advance_ring: "unat (rx_advance off len) < 8192" "4 dvd unat (rx_advance off len)"
proof -
  let ?x = "(ucast off + ucast len + 4 + 3) AND NOT 3 :: u32"
  have u: "unat (rx_advance off len) = unat ?x mod 65536 mod 8192"
    by (simp add: rx_advance_def unat_mod_distrib unsigned_ucast_eq take_bit_eq_mod)
  then show "unat (rx_advance off len) < 8192" by simp
  have "(3 :: u32) = mask 2" by (simp add: mask_eq_exp_minus_1)
  then have "unat ?x = unat (ucast off + ucast len + 4 + 3 :: u32) div 4 * 4"
    using unat_and_not_mask [of "ucast off + ucast len + 4 + 3 :: u32" 2] by simp
  then have "4 dvd unat ?x" by simp
  then show "4 dvd unat (rx_advance off len)" unfolding u by (intro dvd_mod) simp_all
qed

lemma rx_packet_ok:
  assumes "net_inv s"
  shows "\<exists>t. rx_packet w s = Some t \<and> net_inv t \<and> rx_keeps s t"
proof -
  define len where "len = rx_le16 w s (unat (g_rx_read_offset s) + 2)"
  obtain f where f: "net_process_frame w (rx_frame w s (unat (g_rx_read_offset s) + 4) (unat len - 4)) s = Some f" "net_inv f" "rx_keeps s f"
    using frame_handled [OF assms] by (auto simp: handled_def)
  show ?thesis
    unfolding rx_packet_def Let_def len_def [symmetric]
    using f assms by (auto simp: net_inv_def rx_keeps_def rx_advance_ring)
qed

lemma poll_loop_ok: "net_inv s \<Longrightarrow> \<exists>t. poll_loop w n s = Some t \<and> net_inv t \<and> rx_keeps s t"
proof (induction n arbitrary: s)
  case (Suc n)
  let ?s = "s\<lparr>w_reads := Suc (w_reads s)\<rparr>"
  have i: "net_inv ?s" "rx_keeps s ?s" using Suc.prems by (simp_all add: net_inv_def rx_keeps_def)
  obtain t u where t: "rx_packet w ?s = Some t" "net_inv t" "rx_keeps ?s t" and u: "poll_loop w n t = Some u" "net_inv u" "rx_keeps t u"
    using rx_packet_ok [OF i(1)] Suc.IH by blast
  have "rx_keeps s u" using i(2) t(3) u(3) rx_keeps_trans by blast
  then show ?case using t(1) u i Suc.prems by (auto simp: Let_def net_inv_def rx_keeps_def)
qed (simp add: rx_keeps_def)

lemma rtl_poll_rx_ok: "net_inv s \<Longrightarrow> \<exists>t. rtl_poll_rx w s = Some t \<and> net_inv t \<and> rx_keeps s t"
  using poll_loop_ok [of s w 65] by (auto simp: rtl_poll_rx_def rx_keeps_def)

lemma net_handle_irq_ok:
  assumes "net_inv s"
  shows "\<exists>t. net_handle_irq w s = Some t \<and> net_inv t \<and> rx_keeps s t"
proof -
  let ?s = "s\<lparr>w_reads := Suc (w_reads s)\<rparr>"
  let ?t = "io_out (NOut16 (g_rtl_io_base s + 0x3E) (ucast (d_in w (w_reads s)))) ?s"
  have i: "net_inv ?s" "rx_keeps s ?s" "net_inv ?t" "rx_keeps s ?t" using assms by (simp_all add: net_inv_def rx_keeps_def)
  obtain u where u: "rtl_poll_rx w ?t = Some u" "net_inv u" "rx_keeps ?t u" using rtl_poll_rx_ok [OF i(3)] by blast
  have "rx_keeps s u" using i(4) u(3) rx_keeps_trans by blast
  then show ?thesis using u(1,2) i assms by (simp add: net_handle_irq_def Let_def rx_keeps_def)
qed

lemma net_wait_ok:
  assumes "net_inv s"
  shows "\<exists>t. net_wait_event_tick w s = Some t \<and> net_inv t \<and> g_rtl_ready t = g_rtl_ready s \<and> g_mac t = g_mac s \<and> w_waits t = Suc (w_waits s) \<and>
    w_log t = w_log s \<and> w_ticks t = (if d_wakeup w (w_waits s) = Timer_Irq then w_ticks s + 1 else w_ticks s)"
proof (cases "d_wakeup w (w_waits s)")
  case Nic_Irq
  let ?s = "s\<lparr>w_waits := Suc (w_waits s)\<rparr>"
  have "net_inv ?s" using assms by (simp add: net_inv_def)
  then show ?thesis using Nic_Irq net_handle_irq_ok [of ?s w] by (auto simp: net_wait_event_tick_def rx_keeps_def)
qed (use assms in \<open>auto simp: net_wait_event_tick_def net_inv_def\<close>)

theorem net_process_frame_safe_witness:
  "\<exists>s t :: net. \<exists>w. g_rtl_ready s \<and> net_process_frame w [1, 2, 3] s = Some t \<and> net_inv t"
proof -
  let ?s = "undefined\<lparr>g_mac := replicate 6 1, g_tx_buffer := replicate 4 (replicate 2048 0), g_tx_index := 0, g_rx_read_offset := 0,
    g_arp_cache := replicate 4 zero_arp, g_adapters := [], g_rtl_ready := True\<rparr> :: net"
  have "net_inv ?s" by (simp add: net_inv_def arp_inv_def zero_arp_def net_consts)
  moreover have "g_rtl_ready ?s" by simp
  ultimately show ?thesis using net_process_frame_safe [of ?s] by blast
qed

subsection \<open>Waiting ends\<close>

definition timer_runs :: "world \<Rightarrow> bool" where
  "timer_runs w \<longleftrightarrow> (\<forall>k. \<exists>j \<ge> k. d_wakeup w j = Timer_Irq)"

definition until_timer :: "world \<Rightarrow> nat \<Rightarrow> nat" where
  "until_timer w k = (LEAST n. d_wakeup w (k + n) = Timer_Irq)"

lemma until_timer_Suc:
  assumes "timer_runs w" and "d_wakeup w k \<noteq> Timer_Irq"
  shows "until_timer w k = Suc (until_timer w (Suc k))"
proof -
  obtain j where "k \<le> j" "d_wakeup w j = Timer_Irq" using assms(1) by (auto simp: timer_runs_def)
  then have "d_wakeup w (k + (j - k)) = Timer_Irq" by simp
  then show ?thesis
    using Least_Suc [of "\<lambda>n. d_wakeup w (k + n) = Timer_Irq" "j - k"] assms(2) by (simp add: until_timer_def)
qed

text \<open>The measure of the waiting loops: the ticks that are left, then the interrupts before the next tick.\<close>

definition wait_order :: "world \<Rightarrow> u64 \<Rightarrow> u64 \<Rightarrow> (net \<times> net) set" where
  "wait_order w start timeout = measures [\<lambda>s. unat (timeout - (w_ticks s - start)), \<lambda>s. until_timer w (w_waits s)]"

lemma wait_order_step:
  assumes "timer_runs w" and "w_ticks s - start < timeout" and "w_waits t = Suc (w_waits s)"
    and "w_ticks t = (if d_wakeup w (w_waits s) = Timer_Irq then w_ticks s + 1 else w_ticks s)"
  shows "(t, s) \<in> wait_order w start timeout"
proof (cases "d_wakeup w (w_waits s) = Timer_Irq")
  case True
  let ?x = "w_ticks s - start"
  have "w_ticks t - start = ?x + 1" using assms(4) True by simp
  moreover have "unat (timeout - (?x + 1)) < unat (timeout - ?x)"
  proof -
    have a: "unat ?x < unat timeout" using assms(2) by (simp add: word_less_nat_alt)
    then have "unat (?x + 1) = unat ?x + 1" using unat_bound [of timeout] by (simp add: unat_word_ariths)
    then show ?thesis using a by (simp add: unat_sub word_le_nat_alt)
  qed
  ultimately have "unat (timeout - (w_ticks t - start)) < unat (timeout - (w_ticks s - start))" by metis
  then show ?thesis by (simp add: wait_order_def)
next
  case False
  then show ?thesis using assms until_timer_Suc [OF assms(1) False] by (simp add: wait_order_def)
qed

lemma wf_wait_order: "wf (wait_order w start timeout)"
  by (simp add: wait_order_def)

lemma wait_flag_returns:
  assumes "timer_runs w"
  shows "net_inv s \<Longrightarrow> \<exists>ok t. wait_flag w flag start timeout s = Some (ok, t) \<and> net_inv t \<and> (ok \<longrightarrow> flag t) \<and> w_log t = w_log s"
proof (induction s rule: wf_induct_rule [OF wf_wait_order [of w start timeout]])
  case (1 s)
  obtain p where p: "rtl_poll_rx w s = Some p" "net_inv p" "rx_keeps s p" using rtl_poll_rx_ok [OF 1(2)] by blast
  obtain t where t: "net_wait_event_tick w p = Some t" "net_inv t" "w_waits t = Suc (w_waits p)"
    "w_ticks t = (if d_wakeup w (w_waits p) = Timer_Irq then w_ticks p + 1 else w_ticks p)" "w_log t = w_log p"
    using net_wait_ok [OF p(2)] by blast
  have lg: "w_waits p = w_waits s" "w_ticks p = w_ticks s" "w_log p = w_log s" using p(3) by (simp_all add: rx_keeps_def)
  then have "w_ticks s - start < timeout \<Longrightarrow> (t, s) \<in> wait_order w start timeout"
    using t(3,4) by (intro wait_order_step [OF assms]) simp_all
  then have "w_ticks s - start < timeout \<Longrightarrow> \<exists>ok u. wait_flag w flag start timeout t = Some (ok, u) \<and> net_inv u \<and> (ok \<longrightarrow> flag u) \<and> w_log u = w_log s"
    using 1(1) [OF _ t(2)] t(5) lg(3) by simp
  then show ?case using 1(2) p(1,2) t(1) lg(3) by (subst wait_flag.simps) auto
qed

lemma arp_wait_returns:
  assumes "timer_runs w"
  shows "net_inv s \<Longrightarrow> \<exists>m t. arp_wait w ip start timeout probe s = Some (m, t) \<and> net_inv t \<and> (m \<noteq> None \<longrightarrow> m = arp_cache_lookup ip t)"
proof (induction s arbitrary: probe rule: wf_induct_rule [OF wf_wait_order [of w start timeout]])
  case (1 s)
  have "length (g_mac s) = 6" using 1(2) by (simp add: net_inv_def)
  then obtain f where f: "arp_request_frame ip s = Some f" using frames_total(1) by blast
  obtain r t0 where r: "rtl_send_raw_frame w f s = (r, t0)" by (cases "rtl_send_raw_frame w f s")
  note ri = rtl_send_inv [OF 1(2) r]
  define pr where "pr = (if w_ticks s \<ge> probe then (w_ticks s + MGCORE_HZ div 2, t0) else (probe, s))"
  have pi: "net_inv (snd pr)" "w_ticks (snd pr) = w_ticks s" "w_waits (snd pr) = w_waits s"
    using ri 1(2) tx_onlyD [OF ri(2)] by (simp_all add: pr_def)
  obtain p where p: "rtl_poll_rx w (snd pr) = Some p" "net_inv p" "rx_keeps (snd pr) p" using rtl_poll_rx_ok [OF pi(1)] by blast
  obtain t where t: "net_wait_event_tick w p = Some t" "net_inv t" "w_waits t = Suc (w_waits p)"
    "w_ticks t = (if d_wakeup w (w_waits p) = Timer_Irq then w_ticks p + 1 else w_ticks p)" using net_wait_ok [OF p(2)] by blast
  have "w_waits p = w_waits s" "w_ticks p = w_ticks s" using p(3) pi by (simp_all add: rx_keeps_def)
  then have o: "w_ticks s - start < timeout \<Longrightarrow> (t, s) \<in> wait_order w start timeout"
    using t(3,4) by (intro wait_order_step [OF assms]) simp_all
  have e: "(if w_ticks s \<ge> probe then map_option (\<lambda>(r, t). (w_ticks s + MGCORE_HZ div 2, t)) (arp_send_request w ip s) else Some (probe, s)) = Some pr"
    using f r by (simp add: pr_def arp_send_request_def)
  show ?case
  proof (cases "w_ticks s - start < timeout")
    case True
    show ?thesis
    proof (cases "arp_cache_lookup ip p")
      case None
      obtain m u where "arp_wait w ip start timeout (fst pr) t = Some (m, u)" "net_inv u" "m \<noteq> None \<longrightarrow> m = arp_cache_lookup ip u"
        using 1(1) [OF o [OF True] t(2)] by blast
      then show ?thesis using None True p t(1) by (subst arp_wait.simps) (simp add: e split_beta)
    next
      case (Some m)
      then show ?thesis using True p by (subst arp_wait.simps) (simp add: e split_beta)
    qed
  next
    case False
    then show ?thesis using 1(2) by (subst arp_wait.simps) simp
  qed
qed

lemma net_resolve_arp_returns:
  assumes "timer_runs w" and "net_inv s"
  obtains m t where "net_resolve_arp w ip timeout s = Some (m, t)" "net_inv t" "m \<noteq> None \<longrightarrow> m = arp_cache_lookup ip t"
  using arp_wait_returns [OF assms, of ip "w_ticks s" timeout "w_ticks s"] assms(2)
  by (cases "arp_cache_lookup ip s") (auto simp: net_resolve_arp_def)

lemma lookup_mac_length: "net_inv s \<Longrightarrow> arp_cache_lookup ip s = Some mac \<Longrightarrow> length mac = 6"
  by (auto simp: arp_cache_lookup_def net_inv_def arp_invD(2) dest: arp_slot_SomeD)

lemma ip_send_udp_ok:
  assumes "net_inv s" and "length mac = 6"
  obtains r t where "ip_send_udp w src dst sp dp payload mac s = Some (r, t)" "net_inv t" "tx_only s t"
proof -
  have "length (g_mac s) = 6" using assms(1) by (simp add: net_inv_def)
  then obtain f where f: "udp_frame src dst sp dp payload mac s = Some f" using frames_total(4) assms(2) by blast
  obtain r t where r: "rtl_send_raw_frame w f s = (r, t)" by (cases "rtl_send_raw_frame w f s")
  show thesis
  proof (cases "length payload > 548")
    case True
    then show thesis using that [of "-1" s] assms(1) by (simp add: ip_send_udp_def tx_only_def)
  next
    case False
    then show thesis using that [of r t] rtl_send_inv [OF assms(1) r] f r by (simp add: ip_send_udp_def)
  qed
qed

lemma dhcp_sends_ok:
  assumes "net_inv s"
  obtains r t r' t' where "dhcp_send_discover w s = Some (r, t)" "net_inv t" "w_log t = w_log s"
    "dhcp_send_request w s = Some (r', t')" "net_inv t'" "w_log t' = w_log s"
proof -
  have m: "length (g_mac s) = 6" using assms by (simp add: net_inv_def)
  obtain p q where pq: "dhcp_discover s = Some p" "dhcp_request s = Some q" using dhcp_messages_total [OF m] by blast
  obtain r t where t: "ip_send_udp w 0 NET_IPV4_BROADCAST 68 67 p (replicate 6 0xFF) s = Some (r, t)" "net_inv t" "tx_only s t" using ip_send_udp_ok [OF assms] by (metis length_replicate)
  obtain r' t' where t': "ip_send_udp w 0 NET_IPV4_BROADCAST 68 67 q (replicate 6 0xFF) s = Some (r', t')" "net_inv t'" "tx_only s t'" using ip_send_udp_ok [OF assms] by (metis length_replicate)
  have "\<exists>r t. dhcp_send_request w s = Some (r, t) \<and> net_inv t \<and> w_log t = w_log s"
    using assms pq(2) t' tx_onlyD(12) [OF t'(3)] by (simp add: dhcp_send_request_def)
  then show thesis using that t tx_onlyD(12) [OF t(3)] pq(1) by (auto simp: dhcp_send_discover_def)
qed

lemma net_inv_upd [simp]:
  "net_inv (s\<lparr>g_dhcp := l\<rparr>) = net_inv s" "net_inv (s\<lparr>g_ping_wait := q\<rparr>) = net_inv s" "net_inv (s\<lparr>g_connected := c\<rparr>) = net_inv s"
  "net_inv (s\<lparr>g_ip_addr := a, g_ip_mask := b, g_ip_gw := d\<rparr>) = net_inv s" "net_inv (s\<lparr>w_log := e\<rparr>) = net_inv s"
  "net_inv (s\<lparr>w_reads := n\<rparr>) = net_inv s" "net_inv (s\<lparr>w_out := x\<rparr>) = net_inv s"
  "net_inv (dhcp_stop s) = net_inv s" "net_inv (net_log cs s) = net_inv s"
  by (simp_all add: net_inv_def dhcp_stop_def net_log_def)

lemma net_dhcp_acquire_returns:
  assumes "timer_runs w" and "net_inv s"
  shows "\<exists>ok t. net_dhcp_acquire w timeout s = Some (ok, t) \<and> net_inv t \<and> w_log t = w_log s \<and>
    (ok \<longrightarrow> g_ip_addr t = dl_offered_ip (g_dhcp t) \<and> dl_got_ack (g_dhcp t) \<and> \<not> dl_active (g_dhcp t))"
proof -
  let ?s0 = "s\<lparr>g_dhcp := zero_lease\<lparr>dl_active := True, dl_xid := ucast (push_bit 16 (w_ticks s) XOR 0x4D474443)\<rparr>\<rparr>"
  have "net_inv ?s0" using assms(2) by simp
  then obtain r s1 where s1: "dhcp_send_discover w ?s0 = Some (r, s1)" "net_inv s1" "w_log s1 = w_log ?s0" by (rule dhcp_sends_ok)
  obtain ok2 s2 where s2: "wait_flag w (\<lambda>t. dl_got_offer (g_dhcp t)) (w_ticks s1) timeout s1 = Some (ok2, s2)" "net_inv s2" "w_log s2 = w_log s1"
    using wait_flag_returns [OF assms(1) s1(2)] by blast
  obtain r3 s3 where s3: "dhcp_send_request w s2 = Some (r3, s3)" "net_inv s3" "w_log s3 = w_log s2" using s2(2) by (rule dhcp_sends_ok)
  obtain ok4 s4 where s4: "wait_flag w (\<lambda>t. dl_got_ack (g_dhcp t)) (w_ticks s3) timeout s3 = Some (ok4, s4)" "net_inv s4" "ok4 \<longrightarrow> dl_got_ack (g_dhcp s4)" "w_log s4 = w_log s3"
    using wait_flag_returns [OF assms(1) s3(2)] by blast
  show ?thesis
    using s1 s2 s3 s4 assms(2) by (auto simp: net_dhcp_acquire_def Let_def dhcp_stop_def)
qed

lemma ping_once_returns:
  assumes "timer_runs w" and "net_inv s" and "length mac = 6"
  shows "\<exists>ok t. ping_once w ip mac ident seq s = Some (ok, t) \<and> net_inv t"
proof -
  let ?s0 = "s\<lparr>g_ping_wait := zero_ping\<lparr>pw_active := True, pw_identifier := ident, pw_sequence := ucast (seq + 1), pw_target_ip := ip\<rparr>\<rparr>"
  have i: "net_inv ?s0" "length (g_mac ?s0) = 6" using assms(2) by (simp, simp add: net_inv_def)
  obtain f where f: "icmp_echo_frame ip mac ident (ucast (seq + 1)) ?s0 = Some f" using frames_total(3) [OF i(2) assms(3)] by blast
  obtain r s1 where r: "rtl_send_raw_frame w f ?s0 = (r, s1)" by (cases "rtl_send_raw_frame w f ?s0")
  note s1 = rtl_send_inv(1) [OF i(1) r]
  obtain ok s2 where "wait_flag w (\<lambda>t. pw_received (g_ping_wait t)) (w_ticks s) MGCORE_HZ s1 = Some (ok, s2)" "net_inv s2"
    using wait_flag_returns [OF assms(1) s1] by blast
  then show ?thesis using f r s1 by (auto simp: ping_once_def Let_def ip_send_icmp_echo_def)
qed

lemma ping_loop_returns:
  assumes "timer_runs w" and "length mac = 6"
  shows "net_inv s \<Longrightarrow> \<exists>k t. ping_loop w ip mac ident seq n received s = Some (k, t) \<and> net_inv t \<and> received \<le> k \<and> k \<le> received + n"
proof (induction n arbitrary: seq received s)
  case (Suc n)
  obtain ok t where t: "ping_once w ip mac ident seq s = Some (ok, t)" "net_inv t" using ping_once_returns [OF assms(1) Suc.prems assms(2)] by blast
  then show ?case using Suc.IH [OF t(2), of "seq + 1" "if ok then received + 1 else received"] by (cases ok) auto
qed simp

lemma startup_returns:
  assumes "timer_runs w" and "net_inv s"
  shows "\<exists>t. net_startup_connect w s = Some t \<and> net_inv t"
proof -
  obtain ok t where "net_dhcp_acquire w (MGCORE_HZ * 3) (net_log [Writeln ''net0: startup DHCP begin'' []] s) = Some (ok, t)" "net_inv t"
    using net_dhcp_acquire_returns [OF assms(1), of "net_log [Writeln ''net0: startup DHCP begin'' []] s" "MGCORE_HZ * 3"] assms(2) by auto
  then show ?thesis using assms(2) by (cases ok) (auto simp: net_startup_connect_def Let_def net_inv_def net_log_def)
qed

lemma scan_returns:
  assumes "timer_runs w" and "net_inv s"
  shows "\<exists>t. net_scan_nearby w s = Some t \<and> net_inv t"
proof -
  obtain p where p: "rtl_poll_rx w s = Some p" "net_inv p" using rtl_poll_rx_ok [OF assms(2)] by blast
  obtain m t where "net_resolve_arp w (g_ip_gw p) MGCORE_HZ p = Some (m, t)" "net_inv t" by (rule net_resolve_arp_returns [OF assms(1) p(2)])
  then show ?thesis using p assms(2) by (auto simp: net_scan_nearby_def)
qed

lemma connect_returns:
  assumes "timer_runs w" and "net_inv s"
  shows "\<exists>r t. net_connect_target w target s = Some (r, t) \<and> net_inv t"
proof -
  obtain m t where "net_resolve_arp w (g_ip_gw s) MGCORE_HZ s = Some (m, t)" "net_inv t" by (rule net_resolve_arp_returns [OF assms])
  then show ?thesis using assms(2) by (auto simp: net_connect_target_def split: option.splits)
qed

lemma ping_returns:
  assumes "timer_runs w" and "net_inv s"
  shows "\<exists>r t. net_ping w target count s = Some (r, t) \<and> net_inv t"
proof -
  have run: "\<exists>r t. (net_resolve_arp w hop (MGCORE_HZ * 2) s \<bind> (\<lambda>(mac, s1). F mac s1)) = Some (r, t) \<and> net_inv t"
    if "\<And>mac s1. net_inv s1 \<Longrightarrow> (case mac of None \<Rightarrow> True | Some m \<Rightarrow> length m = 6) \<Longrightarrow> \<exists>r t. F mac s1 = Some (r, t) \<and> net_inv t" for hop F
  proof -
    obtain m t where m: "net_resolve_arp w hop (MGCORE_HZ * 2) s = Some (m, t)" "net_inv t" "m \<noteq> None \<longrightarrow> m = arp_cache_lookup hop t"
      by (rule net_resolve_arp_returns [OF assms])
    then have "case m of None \<Rightarrow> True | Some m \<Rightarrow> length m = 6" using lookup_mac_length [OF m(2), of hop] by (auto split: option.splits)
    then show ?thesis using that [OF m(2)] m(1) by simp
  qed
  have loop: "\<exists>k t. ping_loop w ip mac ident 0 n 0 u = Some (k, t) \<and> net_inv t" if "net_inv u" "length mac = 6" for ip mac ident n u
    using ping_loop_returns [OF assms(1) that(2,1)] by blast
  show ?thesis
  proof (cases "target = None \<or> char_at (the target) = NUL \<or> kstrcmp (the target) ''localhost'' = 0 \<or> kstrcmp (the target) ''127.0.0.1'' = 0
      \<or> parse_ipv4 target = None \<or> \<not> g_rtl_ready s")
    case True
    then show ?thesis using assms(2) by (auto simp: net_ping_def Let_def split: option.splits)
  next
    case False
    then obtain t ip where t: "target = Some t" "parse_ipv4 (Some t) = Some ip" by auto
    have step: "\<exists>r t. (ping_loop w ip mac ident 0 n 0 u \<bind> (\<lambda>(k, v). Some (G k, H k v))) = Some (r, t) \<and> net_inv t"
      if "net_inv u" "length mac = 6" "\<And>k v. net_inv v \<Longrightarrow> net_inv (H k v)" for mac ident n u G H
      using loop [OF that(1,2), of ip ident n] that(3) by auto
    show ?thesis
      using False t
      apply (simp add: net_ping_def Let_def split del: if_split)
      apply (rule run)
      subgoal for mac u by (cases mac) (auto simp: Let_def split del: if_split intro!: step)
      done
  qed
qed

text \<open>
  C17: The blocking operations of the network stack come to an end. If the timer interrupt keeps coming
  (however many other interrupts come between two ticks and whatever the adapter does), resolving
  an address, acquiring a lease, the startup, a scan, a connect and a ping of any length all
  return, with the invariant of the stack kept; a resolved hardware address is the one in the
  cache, and a successful lease sets the address of the interface to the acknowledged one.
\<close>

theorem net_operations_return:
  assumes "timer_runs w" and "net_inv s"
  shows "(\<exists>m t. net_resolve_arp w ip timeout s = Some (m, t) \<and> net_inv t \<and> (m \<noteq> None \<longrightarrow> m = arp_cache_lookup ip t)) \<and>
    (\<exists>ok t. net_dhcp_acquire w timeout s = Some (ok, t) \<and> net_inv t \<and> (ok \<longrightarrow> g_ip_addr t = dl_offered_ip (g_dhcp t) \<and> dl_got_ack (g_dhcp t))) \<and>
    (\<exists>t. net_startup_connect w s = Some t \<and> net_inv t) \<and> (\<exists>t. net_scan_nearby w s = Some t \<and> net_inv t) \<and>
    (\<exists>r t. net_connect_target w target s = Some (r, t) \<and> net_inv t) \<and> (\<exists>r t. net_ping w target count s = Some (r, t) \<and> net_inv t)"
proof (intro conjI)
  show "\<exists>m t. net_resolve_arp w ip timeout s = Some (m, t) \<and> net_inv t \<and> (m \<noteq> None \<longrightarrow> m = arp_cache_lookup ip t)"
    by (rule net_resolve_arp_returns [OF assms]) blast
  show "\<exists>ok t. net_dhcp_acquire w timeout s = Some (ok, t) \<and> net_inv t \<and> (ok \<longrightarrow> g_ip_addr t = dl_offered_ip (g_dhcp t) \<and> dl_got_ack (g_dhcp t))"
    using net_dhcp_acquire_returns [OF assms] by blast
  show "\<exists>t. net_startup_connect w s = Some t \<and> net_inv t" by (rule startup_returns [OF assms])
  show "\<exists>t. net_scan_nearby w s = Some t \<and> net_inv t" by (rule scan_returns [OF assms])
  show "\<exists>r t. net_connect_target w target s = Some (r, t) \<and> net_inv t" by (rule connect_returns [OF assms])
  show "\<exists>r t. net_ping w target count s = Some (r, t) \<and> net_inv t" by (rule ping_returns [OF assms])
qed

definition sample_net :: net where
  "sample_net = undefined\<lparr>g_mac := [0x52, 0x54, 0, 0x12, 0x34, 0x56], g_tx_buffer := replicate 4 (replicate 2048 0), g_tx_index := 0,
     g_rx_read_offset := 0, g_arp_cache := replicate 4 zero_arp, g_adapters := [], g_rtl_ready := True, g_ip_addr := 0x0A00020F,
     g_ip_mask := 0xFFFFFF00, g_ip_gw := 0x0A000202, w_sent := [], w_ticks := 0, w_waits := 0, w_reads := 0\<rparr>"

lemma sample_net_inv: "net_inv sample_net"
  by (simp add: sample_net_def net_inv_def arp_inv_def zero_arp_def net_consts)

definition idle_world :: world where
  "idle_world = \<lparr>d_in = (\<lambda>_. 1), d_rx = (\<lambda>_ _. 0), d_wakeup = (\<lambda>_. Timer_Irq), d_rx_base = 0, d_tx_base = 0\<rparr>"

theorem net_operations_return_witness:
  "\<exists>r t. net_ping idle_world (Some ''8.8.8.8'') 4 sample_net = Some (r, t) \<and> net_inv t"
proof -
  have "timer_runs idle_world" by (auto simp: timer_runs_def idle_world_def)
  from net_operations_return [OF this sample_net_inv, of 0 0 "Some ''8.8.8.8''" 4] show ?thesis by blast
qed

subsection \<open>Address resolution between two hosts\<close>

definition arp_frame :: "u16 \<Rightarrow> u8 list \<Rightarrow> u8 list \<Rightarrow> u32 \<Rightarrow> u8 list \<Rightarrow> u32 \<Rightarrow> u8 list" where
  "arp_frame oper dst sha sip tha tip =
     dst @ sha @ be16_bytes ETH_TYPE_ARP @ be16_bytes 1 @ be16_bytes 0x0800 @ [6, 4] @ be16_bytes oper @ sha @ be32_bytes sip @ tha @ be32_bytes tip"

lemma arp_frames:
  assumes "length (g_mac s) = 6"
  shows "arp_request_frame ip s = Some (arp_frame 1 (replicate 6 0xFF) (g_mac s) (g_ip_addr s) (replicate 6 0) ip)"
    and "length mac = 6 \<Longrightarrow> arp_reply_frame mac ip s = Some (arp_frame 2 mac (g_mac s) (g_ip_addr s) mac ip)"
  using assms
  by (simp_all add: arp_request_frame_def arp_reply_frame_def arp_frame_def be16_store_def be32_store_def put_def)

lemma six: "length xs = 6 \<Longrightarrow> \<exists>a b c d e f. xs = [a, b, c, d, e, f]"
  by (auto simp: numeral_eq_Suc length_Suc_conv)

lemma be16_pair: "push_bit 8 (ucast (be16_bytes v ! 0)) OR ucast (be16_bytes v ! 1) = v"
  using be16_join [of v] by (simp add: be16_bytes_def)

lemma arp_receive:
  assumes "length dst = 6" and "length sha = 6" and "length tha = 6"
  shows "net_process_frame w (arp_frame oper dst sha sip tha tip @ pad) s =
    (let s1 = arp_cache_update sip sha s
     in if oper = 1 \<and> tip = g_ip_addr s then map_option snd (arp_send_reply w sha sip s1) else Some s1)"
proof -
  obtain d0 d1 d2 d3 d4 d5 where dst: "dst = [d0, d1, d2, d3, d4, d5]" using six [OF assms(1)] by blast
  obtain a0 a1 a2 a3 a4 a5 where sha: "sha = [a0, a1, a2, a3, a4, a5]" using six [OF assms(2)] by blast
  obtain t0 t1 t2 t3 t4 t5 where tha: "tha = [t0, t1, t2, t3, t4, t5]" using six [OF assms(3)] by blast
  obtain o0 o1 where oper: "be16_bytes oper = [o0, o1]" "push_bit 8 (ucast o0) OR ucast o1 = oper" using be16_pair [of oper] by (auto simp: be16_bytes_def)
  obtain s0 s1 s2 s3 where sip: "be32_bytes sip = [s0, s1, s2, s3]"
    "push_bit 24 (ucast s0) OR push_bit 16 (ucast s1) OR push_bit 8 (ucast s2) OR ucast s3 = sip"
    using be32_join [of sip] by (auto simp: be32_bytes_def octets_def)
  obtain p0 p1 p2 p3 where tip: "be32_bytes tip = [p0, p1, p2, p3]"
    "push_bit 24 (ucast p0) OR push_bit 16 (ucast p1) OR push_bit 8 (ucast p2) OR ucast p3 = tip"
    using be32_join [of tip] by (auto simp: be32_bytes_def octets_def)
  show ?thesis
    unfolding net_process_frame_def net_process_arp_def arp_frame_def dst sha tha oper(1) sip(1) tip(1)
    by (simp add: be16_bytes_def ETH_TYPE_ARP_def be_load_Some slice_Some oper(2) sip(2) tip(2))
qed

text \<open>
  C19: Address resolution works between two hosts that run this code. Host \<open>a\<close> broadcasts a request for
  the address of host \<open>b\<close>; when \<open>b\<close> processes the frame as it was sent (padded to 60 bytes) it records
  the address of \<open>a\<close> and sends one reply; when \<open>a\<close> processes that reply, it knows the hardware address
  of \<open>b\<close>.
\<close>

theorem arp_exchange:
  assumes "net_inv a" and "net_inv b" and "g_rtl_ready a" and "g_rtl_ready b"
  shows "\<exists>a1 request b1 reply a2. arp_send_request w (g_ip_addr b) a = Some (0, a1) \<and> w_sent a1 = w_sent a @ [request] \<and> length request = 60 \<and>
    net_process_frame v request b = Some b1 \<and> arp_cache_lookup (g_ip_addr a) b1 = Some (g_mac a) \<and> w_sent b1 = w_sent b @ [reply] \<and>
    net_process_frame w reply a1 = Some a2 \<and> arp_cache_lookup (g_ip_addr b) a2 = Some (g_mac b)"
proof -
  have m: "length (g_mac a) = 6" "length (g_mac b) = 6" "arp_inv (g_arp_cache a)" "arp_inv (g_arp_cache b)" using assms(1,2) by (simp_all add: net_inv_def)
  let ?req = "arp_frame 1 (replicate 6 0xFF) (g_mac a) (g_ip_addr a) (replicate 6 0) (g_ip_addr b)"
  let ?b = "arp_cache_update (g_ip_addr a) (g_mac a) b"
  let ?rep = "arp_frame 2 (g_mac a) (g_mac b) (g_ip_addr b) (g_mac a) (g_ip_addr a)"
  obtain a1 where a1: "rtl_send_raw_frame w ?req a = (0, a1)" "w_sent a1 = w_sent a @ [?req @ replicate 18 0]" "tx_only a a1"
    by (rule rtl_send_cases [of w ?req a]) (use assms(3) m in \<open>auto simp: arp_frame_def\<close>)
  obtain c where b: "?b = b\<lparr>g_arp_cache := c\<rparr>" "arp_inv c" by (rule arp_update_cache [OF m(4,1)])
  have f: "arp_reply_frame (g_mac a) (g_ip_addr a) ?b = Some ?rep" using arp_frames(2) [of ?b] m unfolding b(1) by simp
  obtain b1 where b1: "rtl_send_raw_frame v ?rep ?b = (0, b1)" "w_sent b1 = w_sent ?b @ [?rep @ replicate 18 0]" "tx_only ?b b1"
    by (rule rtl_send_cases [of v ?rep ?b]) (use assms(4) m in \<open>auto simp: b(1) arp_frame_def\<close>)
  let ?a2 = "arp_cache_update (g_ip_addr b) (g_mac b) a1"
  have "arp_send_request w (g_ip_addr b) a = Some (0, a1)" using arp_frames(1) [OF m(1)] a1(1) by (simp add: arp_send_request_def)
  moreover have "net_process_frame v (?req @ replicate 18 0) b = Some b1"
    using b1(1) f m by (simp add: arp_receive arp_send_reply_def)
  moreover have "arp_cache_lookup (g_ip_addr a) b1 = Some (g_mac a)"
    using arp_lookup_own [OF m(4,1)] tx_onlyD(7) [OF b1(3)] by (simp add: arp_cache_lookup_def)
  moreover have "w_sent b1 = w_sent b @ [?rep @ replicate 18 0]" using b1(2) unfolding b(1) by simp
  moreover have "net_process_frame w (?rep @ replicate 18 0) a1 = Some ?a2" using m by (simp add: arp_receive)
  moreover have "arp_cache_lookup (g_ip_addr b) ?a2 = Some (g_mac b)" using m tx_onlyD(7) [OF a1(3)] by (intro arp_lookup_own) simp_all
  moreover have "length (?req @ replicate 18 0) = 60" using m by (simp add: arp_frame_def)
  ultimately show ?thesis using a1(2) by blast
qed

theorem arp_exchange_witness:
  "\<exists>a1 request b1. arp_send_request idle_world 0x0A000202 sample_net = Some (0, a1) \<and>
     net_process_frame idle_world request (sample_net\<lparr>g_ip_addr := 0x0A000202\<rparr>) = Some b1 \<and>
     arp_cache_lookup 0x0A00020F b1 = Some [0x52, 0x54, 0, 0x12, 0x34, 0x56]"
proof -
  let ?b = "sample_net\<lparr>g_ip_addr := 0x0A000202\<rparr>"
  have "net_inv ?b" using sample_net_inv by (simp add: net_inv_def)
  from arp_exchange [OF sample_net_inv this, of idle_world idle_world] show ?thesis by (auto simp: sample_net_def)
qed

subsection \<open>Datagrams between two hosts\<close>

definition ip_header :: "u16 \<Rightarrow> u16 \<Rightarrow> u8 \<Rightarrow> u32 \<Rightarrow> u32 \<Rightarrow> u16 \<Rightarrow> u8 list" where
  "ip_header len ident proto src dst ck =
     [0x45, 0] @ be16_bytes len @ be16_bytes ident @ [0, 0] @ [64, proto] @ be16_bytes ck @ be32_bytes src @ be32_bytes dst"

lemma length_ip_header [simp]: "length (ip_header len ident proto src dst ck) = 20"
  by (simp add: ip_header_def)

lemma ip_header_verifies:
  "checksum16 (ip_header len ident proto src dst (checksum16 (ip_header len ident proto src dst 0))) = 0"
  by (rule checksum_stored_verifies [of "ip_header len ident proto src dst 0" 10])
    (simp_all add: ip_header_def slice_def be16_store_def put_def be16_bytes_def be32_bytes_def)

definition udp_packet :: "u8 list \<Rightarrow> u8 list \<Rightarrow> u16 \<Rightarrow> u32 \<Rightarrow> u32 \<Rightarrow> u16 \<Rightarrow> u16 \<Rightarrow> u8 list \<Rightarrow> u8 list" where
  "udp_packet dst_mac src_mac ident src dst sp dp payload =
     (let len = of_nat (28 + length payload)
      in dst_mac @ src_mac @ be16_bytes ETH_TYPE_IPV4 @
         ip_header len ident IP_PROTO_UDP src dst (checksum16 (ip_header len ident IP_PROTO_UDP src dst 0)) @
         be16_bytes sp @ be16_bytes dp @ be16_bytes (of_nat (8 + length payload)) @ [0, 0] @ payload)"

lemma udp_frame_packet:
  assumes "length (g_mac s) = 6" and "length mac = 6"
  shows "udp_frame src dst sp dp payload mac s = Some (udp_packet mac (g_mac s) (ucast (w_ticks s AND 0xFFFF)) src dst sp dp payload)"
proof -
  have z: "replicate 2 (0 :: u8) = be16_bytes 0" "[0, 0 :: u8] = be16_bytes 0" by (simp_all add: numeral_2_eq_2 be16_bytes_def)
  show ?thesis
    using assms
    by (simp add: udp_frame_def udp_packet_def ip_header_def be16_store_def be32_store_def put_def slice_def Let_def z)
qed

lemma be16_load_prefix: "length xs = n \<Longrightarrow> be16_load (xs @ be16_bytes v @ ys) n = Some v"
  using be16_pair [of v] by (auto simp: be_load_Some nth_append be16_bytes_def)

lemma be32_load_prefix: "length xs = n \<Longrightarrow> be32_load (xs @ be32_bytes v @ ys) n = Some v"
  using be32_join [of v] by (auto simp: be_load_Some nth_append be32_bytes_def octets_def)

lemma udp_receive:
  assumes "length dst_mac = 6" and "length src_mac = 6" and "length payload \<le> 548"
    and "dst = g_ip_addr s \<or> dst = NET_IPV4_BROADCAST \<or> g_ip_addr s = 0"
  shows "net_process_frame w (udp_packet dst_mac src_mac ident src dst sp dp payload @ pad) s =
    (if sp = 67 \<and> dp = 68 then dhcp_process_packet payload s else Some s)"
proof -
  let ?len = "of_nat (28 + length payload) :: u16" and ?ulen = "of_nat (8 + length payload) :: u16"
  let ?hd = "ip_header ?len ident IP_PROTO_UDP src dst (checksum16 (ip_header ?len ident IP_PROTO_UDP src dst 0))"
  let ?udp = "be16_bytes sp @ be16_bytes dp @ be16_bytes ?ulen @ [0, 0] @ payload"
  let ?ip = "?hd @ ?udp @ pad"
  have ul: "unat ?len = 28 + length payload" "unat ?ulen = 8 + length payload"
    using assms(3) by (simp_all only: unat_of_nat take_bit_nat_eq_self_iff) (simp_all add: take_bit_nat_eq_self)
  have f: "udp_packet dst_mac src_mac ident src dst sp dp payload @ pad = (dst_mac @ src_mac) @ be16_bytes ETH_TYPE_IPV4 @ ?ip"
    by (simp add: udp_packet_def Let_def)
  have "net_process_frame w (udp_packet dst_mac src_mac ident src dst sp dp payload @ pad) s = net_process_ipv4 ?ip s"
    using be16_load_prefix [of "dst_mac @ src_mac" 12 ETH_TYPE_IPV4 ?ip] assms(1,2) unfolding f
    by (simp add: net_process_frame_def ETH_TYPE_ARP_def ETH_TYPE_IPV4_def)
  also have "\<dots> = net_process_udp (?hd @ ?udp) s"
  proof -
    let ?ck = "be16_bytes (checksum16 (ip_header ?len ident IP_PROTO_UDP src dst 0))"
    have e: "?ip = [0x45, 0] @ be16_bytes ?len @ be16_bytes ident @ [0, 0, 64, IP_PROTO_UDP] @ ?ck @ be32_bytes src @ be32_bytes dst @ ?udp @ pad"
      by (simp add: ip_header_def)
    have "be16_load ?ip 2 = Some ?len" using be16_load_prefix [of "[0x45, 0]" 2 ?len] unfolding e by simp
    moreover have "be16_load ?ip 6 = Some 0"
      using be16_load_prefix [of "[0x45, 0] @ be16_bytes ?len @ be16_bytes ident" 6 0] unfolding e by (simp add: be16_bytes_def)
    moreover have "be32_load ?ip 16 = Some dst"
      using be32_load_prefix [of "[0x45, 0] @ be16_bytes ?len @ be16_bytes ident @ [0, 0, 64, IP_PROTO_UDP] @ ?ck @ be32_bytes src" 16 dst]
      unfolding e by simp
    moreover have "load ?ip 9 = Some IP_PROTO_UDP" unfolding e by (simp add: load_def be16_bytes_def)
    moreover have "load ?ip 0 = Some 0x45" "slice 0 20 ?ip = Some ?hd" unfolding e by (simp_all add: load_def slice_def ip_header_def)
    moreover have "take (28 + length payload) ?ip = ?hd @ ?udp" by simp
    ultimately show ?thesis
      using assms(4) ul(1) ip_header_verifies
      by (simp add: net_process_ipv4_def Let_def ip_header_len_def IP_PROTO_ICMP_def IP_PROTO_UDP_def) blast
  qed
  also have "\<dots> = (if sp = 67 \<and> dp = 68 then dhcp_process_packet payload s else Some s)"
  proof -
    have "be16_load ?udp 0 = Some sp" "be16_load ?udp 2 = Some dp" "be16_load ?udp 4 = Some ?ulen"
      using be16_load_prefix [of "[]" 0 sp] be16_load_prefix [of "be16_bytes sp" 2 dp] be16_load_prefix [of "be16_bytes sp @ be16_bytes dp" 4 ?ulen] by simp_all
    moreover have "load (?hd @ ?udp) 0 = Some 0x45" by (simp add: load_def ip_header_def)
    moreover have "slice 8 (length payload) ?udp = Some payload" by (simp add: slice_def)
    moreover have "\<not> ?ulen < 8" using ul(2) by (simp only: word_less_nat_alt) simp
    ultimately show ?thesis
      using ul(2) by (auto simp: net_process_udp_def Let_def ip_header_len_def)
  qed
  finally show ?thesis .
qed



text \<open>
  The guard of the receive loop admits packets that end past the receive buffer: at the last slot of
  the ring a length of 1792 passes, and the frame extends 272 bytes beyond the end of the array.
\<close>

lemma rx_guard_exceeds_buffer:
  "\<exists>(off :: u16) (len :: u16). unat off < 8192 \<and> 4 dvd unat off \<and> \<not> (len < 4 \<or> len > 1792) \<and> unat off + unat len = RTL_RX_BUFFER_SIZE + 272"
  by (rule exI [of _ 8188], rule exI [of _ 1792]) (simp add: RTL_RX_BUFFER_SIZE_def)

subsection \<open>Initialisation\<close>

definition bound_count :: "net \<Rightarrow> nat" where
  "bound_count s = length (filter a_bound (g_adapters s))"

definition probing :: "net \<Rightarrow> bool" where
  "probing s \<longleftrightarrow> net_inv s \<and> bound_count s = (if g_rtl_ready s then 1 else 0)"

lemma pci_read_ok:
  assumes "probing s"
  obtains v t where "pci_config_read32 w bus slot func off s = (v, t)" "probing t" "g_adapters t = g_adapters s" "g_rtl_ready t = g_rtl_ready s"
  using assms by (auto simp: pci_config_read32_def probing_def bound_count_def net_inv_def)

lemma rtl_hw_init_ok:
  assumes "net_inv s" and "\<not> g_rtl_ready s" and "rtl_hw_init w a s = (ok, t)"
  shows "net_inv t \<and> g_rtl_ready t = ok \<and> g_adapters t = g_adapters s"
  using assms
  by (auto simp: rtl_hw_init_def Let_def pci_config_read32_def pci_config_write32_def rtl_wait_for_reset_clear_def spin_def read_mac_def net_inv_def net_consts
      split: if_splits option.splits)

lemma probe_function_ok: "probing s \<Longrightarrow> probing (probe_function w bus slot func s)"
proof -
  assume p: "probing s"
  have add: "probing (t\<lparr>g_adapters := g_adapters t @ [a]\<rparr>)"
    if "net_inv t" "g_rtl_ready t = a_bound a" "bound_count t = 0" "length (g_adapters t) < 8" for t a
    using that by (simp add: probing_def bound_count_def net_inv_def net_consts)
  have keep: "probing (t\<lparr>g_adapters := g_adapters t @ [a]\<rparr>)" if "probing t" "\<not> a_bound a" "length (g_adapters t) < 8" for t a
    using that by (simp add: probing_def bound_count_def net_inv_def net_consts)
  have init: "probing (case rtl_hw_init w a t of (ok, u) \<Rightarrow> u\<lparr>g_adapters := g_adapters u @ [b ok]\<rparr>)"
    if t: "probing t" "\<not> g_rtl_ready t" "length (g_adapters t) < 8" and b: "\<And>ok. a_bound (b ok) = ok" for t a b
  proof -
    obtain ok u where u: "rtl_hw_init w a t = (ok, u)" by (cases "rtl_hw_init w a t")
    have i: "net_inv u \<and> g_rtl_ready u = ok \<and> g_adapters u = g_adapters t" by (rule rtl_hw_init_ok [OF _ t(2) u]) (use t(1) in \<open>simp add: probing_def\<close>)
    then have "bound_count u = 0" using t(1,2) by (simp add: probing_def bound_count_def)
    then show ?thesis using add [of u "b ok"] i t(3) u b by simp
  qed
  obtain v1 s1 where s1: "pci_config_read32 w bus slot func 0 s = (v1, s1)" "probing s1" by (rule pci_read_ok [OF p])
  obtain v2 s2 where s2: "pci_config_read32 w bus slot func 8 s1 = (v2, s2)" "probing s2" by (rule pci_read_ok [OF s1(2)])
  obtain v3 s3 where s3: "pci_config_read32 w bus slot func 0x10 s2 = (v3, s3)" "probing s3" "g_adapters s3 = g_adapters s2" by (rule pci_read_ok [OF s2(2)])
  obtain v4 s4 where s4: "pci_config_read32 w bus slot func 0x3C s3 = (v4, s4)" "probing s4" "g_adapters s4 = g_adapters s3" by (rule pci_read_ok [OF s3(2)])
  have l: "length (g_adapters s2) < 8 \<longleftrightarrow> length (g_adapters s4) < 8" using s3(3) s4(3) by simp
  show ?thesis
    unfolding probe_function_def s1(1) Let_def prod.case s2(1) s3(1) s4(1)
    using s1(2) s2(2) s4(2) l by (auto simp: net_consts intro!: keep init)
qed

lemma fold_probing: "(\<And>x s. probing s \<Longrightarrow> probing (f x s)) \<Longrightarrow> probing s \<Longrightarrow> probing (fold f xs s)"
  by (induction xs arbitrary: s) auto

lemma probe_slot_ok: "probing s \<Longrightarrow> probing (probe_slot w bus slot s)"
proof -
  assume p: "probing s"
  obtain v1 s1 where s1: "pci_config_read32 w bus slot 0 0 s = (v1, s1)" "probing s1" by (rule pci_read_ok [OF p])
  obtain v2 s2 where s2: "pci_config_read32 w bus slot 0 0x0C s1 = (v2, s2)" "probing s2" by (rule pci_read_ok [OF s1(2)])
  show ?thesis
    unfolding probe_slot_def s1(1) s2(1) prod.case Let_def using s1(2) s2(2) by (auto intro!: fold_probing probe_function_ok)
qed

lemma net_init_probing:
  assumes "length (g_mac s) = 6" and "g_tx_buffer s = replicate 4 (replicate 2048 0)" and "g_tx_index s = 0" and "g_rx_read_offset s = 0"
  shows "probing (net_init w s)"
proof -
  let ?s0 = "s\<lparr>g_adapters := [], g_rtl_ready := False, g_connected := False, g_ip_addr := 0, g_ip_gw := NET_DEFAULT_GW,
                 g_ip_mask := NET_DEFAULT_MASK, g_rx_frames := 0, g_tx_frames := 0, g_rx_dropped := 0,
                 g_arp_cache := replicate NET_MAX_ARP_CACHE zero_arp, g_ping_wait := zero_ping, g_dhcp := zero_lease\<rparr>"
  have "probing ?s0" using assms(1-4) by (simp add: probing_def bound_count_def net_inv_def arp_inv_def zero_arp_def net_consts)
  then have "probing (fold (\<lambda>bus. fold (\<lambda>slot. probe_slot w (of_nat bus) (of_nat slot)) [0..<32]) [0..<256] ?s0)"
    by (intro fold_probing probe_slot_ok)
  moreover have "probing (net_log cs u) = probing u" for cs u by (simp add: probing_def bound_count_def net_log_def)
  ultimately show ?thesis unfolding net_init_def Let_def by (simp only:)
qed

text \<open>
  After \<^verbatim>\<open>net_init\<close>, whatever devices answer on the PCI bus, at most eight adapters are listed, the driver
  is ready exactly when one adapter is bound and then no second one is, the cache is empty, and the
  invariant of the stack that the other properties need holds.
\<close>

lemma net_init_establishes:
  fixes w :: world
  assumes "length (g_mac s) = 6" and "g_tx_buffer s = replicate 4 (replicate 2048 0)" and "g_tx_index s = 0" and "g_rx_read_offset s = 0"
  defines "t \<equiv> net_init w s"
  shows "net_inv t \<and> net_adapter_count t \<le> 8 \<and> length (filter a_bound (g_adapters t)) = (if g_rtl_ready t then 1 else 0)"
  using net_init_probing [OF assms(1-4), of w]
  by (simp add: t_def probing_def bound_count_def net_inv_def net_consts net_adapter_count_def)

inductive net_step :: "world \<Rightarrow> net \<Rightarrow> net \<Rightarrow> bool" for w :: world where
  "net_handle_irq w s = Some t \<Longrightarrow> net_step w s t"
| "net_wait_event_tick w s = Some t \<Longrightarrow> net_step w s t"
| "net_startup_connect w s = Some t \<Longrightarrow> timer_runs w \<Longrightarrow> net_step w s t"
| "net_scan_nearby w s = Some t \<Longrightarrow> timer_runs w \<Longrightarrow> net_step w s t"
| "net_connect_target w target s = Some (r, t) \<Longrightarrow> timer_runs w \<Longrightarrow> net_step w s t"
| "net_ping w target count s = Some (r, t) \<Longrightarrow> timer_runs w \<Longrightarrow> net_step w s t"

lemma net_step_inv:
  assumes i: "net_inv s"
  shows "net_step w s t \<Longrightarrow> net_inv t"
proof (induction rule: net_step.cases)
  case (1 s' t')
  then show ?case using net_handle_irq_ok [OF i, of w] by simp
next
  case (2 s' t')
  then show ?case using net_wait_ok [OF i, of w] by auto
next
  case (3 s' t')
  then show ?case using startup_returns [OF _ i, of w] by simp
next
  case (4 s' t')
  then show ?case using scan_returns [OF _ i, of w] by simp
next
  case (5 target s' r t')
  then show ?case using connect_returns [OF _ i, of w target] by simp
next
  case (6 target count s' r t')
  then show ?case using ping_returns [OF _ i, of w target count] by simp
qed

interpretation netm: state_machine "\<lambda>t. \<exists>s. length (g_mac s) = 6 \<and> g_tx_buffer s = replicate 4 (replicate 2048 0) \<and> g_tx_index s = 0 \<and>
    g_rx_read_offset s = 0 \<and> t = net_init w s" "net_step w" net_inv for w
  using net_init_probing net_step_inv by unfold_locales (auto simp: probing_def)

end
