(* ===== verification/Tmpfs.thy ===== *)
theory Tmpfs
  imports Console
begin

text \<open>
  Model of \<^verbatim>\<open>src/kernel/tmpfs.c\<close> with the node structure of \<^verbatim>\<open>include/mgcore/fs.h\<close>. Node identifiers are
  C \<^verbatim>\<open>int\<close>s that index the table of 256 nodes; a directory is the chain of its children through
  \<^verbatim>\<open>next_sibling_id\<close>. File data live in one arena; a data pointer is an offset into it. The character
  array \<^verbatim>\<open>name\<close> is represented by the C string it holds. The value \<open>None\<close> of an operation means that
  the C function does not come back properly: it follows a cyclic chain for ever or it reads or writes
  outside an array.
\<close>

datatype vfs_node_type = VFS_NODE_NONE | VFS_NODE_FILE | VFS_NODE_DIR | VFS_NODE_CHARDEV

definition MGCORE_PATH_MAX :: nat where "MGCORE_PATH_MAX = 256"
definition MGCORE_NAME_MAX :: nat where "MGCORE_NAME_MAX = 32"
definition MGCORE_MAX_NODES :: nat where "MGCORE_MAX_NODES = 256"
definition TMPFS_DATA_ARENA_SIZE :: nat where "TMPFS_DATA_ARENA_SIZE = 1024 * 1024"

record vfs_node =
  n_id :: int
  n_parent_id :: int
  n_first_child_id :: int
  n_next_sibling_id :: int
  n_type :: vfs_node_type
  n_name :: string
  n_data :: "u64 option"
  n_size :: u64
  n_capacity :: u64
  n_mode :: u32
  n_device_id :: int

record tmpfs =
  g_nodes :: "vfs_node list"
  g_data_arena :: memory
  g_data_offset :: u64

abbreviation node_at :: "tmpfs \<Rightarrow> int \<Rightarrow> vfs_node" where
  "node_at fs i \<equiv> g_nodes fs ! nat i"

definition upd_node :: "int \<Rightarrow> (vfs_node \<Rightarrow> vfs_node) \<Rightarrow> tmpfs \<Rightarrow> tmpfs" where
  "upd_node i f fs = fs\<lparr>g_nodes := (g_nodes fs)[nat i := f (node_at fs i)]\<rparr>"

definition zero_node :: vfs_node where
  "zero_node = \<lparr>n_id = 0, n_parent_id = 0, n_first_child_id = 0, n_next_sibling_id = 0, n_type = VFS_NODE_NONE,
     n_name = [], n_data = None, n_size = 0, n_capacity = 0, n_mode = 0, n_device_id = 0\<rparr>"

definition alloc_node :: "tmpfs \<Rightarrow> int \<times> tmpfs" where
  "alloc_node fs =
     (case scan_from (\<lambda>i. n_type (g_nodes fs ! i) = VFS_NODE_NONE) 0 MGCORE_MAX_NODES of
        None \<Rightarrow> (- ENOSPC, fs)
      | Some i \<Rightarrow>
          (int i, upd_node (int i) (\<lambda>n. n\<lparr>n_id := int i, n_parent_id := -1, n_first_child_id := -1,
             n_next_sibling_id := -1, n_data := None, n_size := 0, n_capacity := 0, n_mode := 0,
             n_device_id := 0\<rparr>) fs))"

text \<open>The masks \<^verbatim>\<open>~15U\<close> and \<^verbatim>\<open>~255U\<close> are 32 bits wide: they also clear the upper half of a \<^verbatim>\<open>size_t\<close>.\<close>

definition alloc_storage :: "u64 \<Rightarrow> tmpfs \<Rightarrow> (u64 \<times> tmpfs) option" where
  "alloc_storage sz fs =
     (let aligned = (sz + 15) AND ucast (NOT 15 :: u32)
      in if g_data_offset fs + aligned > of_nat TMPFS_DATA_ARENA_SIZE then None
         else Some (g_data_offset fs, fs\<lparr>g_data_offset := g_data_offset fs + aligned\<rparr>))"

partial_function (option) child_loop :: "tmpfs \<Rightarrow> string \<Rightarrow> int \<Rightarrow> int option" where
  "child_loop fs nm child =
     (if child \<ge> 0 then
        if kstrcmp (n_name (node_at fs child)) nm = 0 then Some child
        else child_loop fs nm (n_next_sibling_id (node_at fs child))
      else Some (- ENOENT))"

definition lookup_child :: "int \<Rightarrow> string \<Rightarrow> tmpfs \<Rightarrow> int option" where
  "lookup_child parent_id nm fs = child_loop fs nm (n_first_child_id (node_at fs parent_id))"

subsection \<open>Paths\<close>

abbreviation slash :: char where "slash \<equiv> CHR ''/''"

fun back_while :: "(char \<Rightarrow> bool) \<Rightarrow> string \<Rightarrow> nat \<Rightarrow> nat" where
  "back_while P path 0 = 0"
| "back_while P path (Suc n) = (if P (path ! n) then back_while P path n else Suc n)"

definition split_parent :: "string \<Rightarrow> (string \<times> string) option" where
  "split_parent path =
     (let last0 = back_while (\<lambda>c. c = slash) path (kstrlen path);
          last1 = back_while (\<lambda>c. c \<noteq> slash) path last0;
          (parent, leaf) = (if last1 = 0 then (''/'', if char_at path = slash then tl path else path)
                            else (take last1 path, drop last1 path))
      in if length parent < MGCORE_PATH_MAX \<and> kstrlen leaf < MGCORE_NAME_MAX
         then Some (parent, cstr leaf) else None)"

fun take_token :: "nat \<Rightarrow> string \<Rightarrow> string" where
  "take_token 0 cursor = []"
| "take_token (Suc n) [] = []"
| "take_token (Suc n) (c # cursor) = (if c = NUL \<or> c = slash then [] else c # take_token n cursor)"

definition skip_slashes :: "string \<Rightarrow> string" where
  "skip_slashes cursor = dropWhile (\<lambda>c. c = slash) cursor"

definition parent_or_root :: "tmpfs \<Rightarrow> int \<Rightarrow> int" where
  "parent_or_root fs current =
     (if n_parent_id (node_at fs current) \<ge> 0 then n_parent_id (node_at fs current) else 0)"

definition resolve_step :: "tmpfs \<Rightarrow> string \<Rightarrow> int \<Rightarrow> int option" where
  "resolve_step fs token current =
     (if char_at token = NUL \<or> kstrcmp token ''.'' = 0 then Some current
      else if kstrcmp token ''..'' = 0 then Some (parent_or_root fs current)
      else lookup_child current token fs)"

lemma take_token_pos:
  "0 < n \<Longrightarrow> take_token n (c # s) = (if c = NUL \<or> c = slash then [] else c # take_token (n - 1) s)"
  by (cases n) auto

lemma length_skip_slashes: "length (skip_slashes s) \<le> length s"
  unfolding skip_slashes_def by (rule length_dropWhile_le)

lemma resolve_shorter:
  assumes c: "char_at cursor \<noteq> NUL"
  shows "length (skip_slashes (drop (length (take_token (MGCORE_NAME_MAX - 1) cursor)) cursor)) < length cursor"
proof -
  let ?x = "take_token (MGCORE_NAME_MAX - 1) cursor"
  obtain d cs where cur: "cursor = d # cs" "d \<noteq> NUL" using c by (cases cursor) (auto simp: char_at_def)
  have m: "0 < MGCORE_NAME_MAX - 1" by (simp add: MGCORE_NAME_MAX_def)
  show ?thesis
  proof (cases "d = slash")
    case True
    then have "?x = []" using cur m by (simp add: take_token_pos)
    then show ?thesis using cur True length_skip_slashes [of cs] by (simp add: skip_slashes_def)
  next
    case False
    then have "length ?x > 0" using cur m by (simp add: take_token_pos)
    moreover have "length (skip_slashes (drop (length ?x) cursor)) \<le> length cursor - length ?x"
      using length_skip_slashes [of "drop (length ?x) cursor"] by simp
    moreover have "0 < length cursor" using cur by simp
    ultimately show ?thesis by linarith
  qed
qed

function resolve_loop :: "tmpfs \<Rightarrow> string \<Rightarrow> int \<Rightarrow> int option" where
  "resolve_loop fs cursor current =
     (if char_at cursor = NUL then Some current
      else
        let token = take_token (MGCORE_NAME_MAX - 1) cursor
        in case resolve_step fs token current of
             None \<Rightarrow> None
           | Some current' \<Rightarrow>
               if current' < 0 then Some current'
               else resolve_loop fs (skip_slashes (drop (length token) cursor)) current')"
  by pat_completeness auto

termination
  by (relation "measure (\<lambda>(fs, cursor, current). length cursor)") (auto intro: resolve_shorter simp del: One_nat_def)

declare resolve_loop.simps [simp del]

definition resolve_path :: "string \<Rightarrow> tmpfs \<Rightarrow> int option" where
  "resolve_path path fs =
     (if char_at path \<noteq> slash then Some (- EINVAL)
      else if char_at (tl path) = NUL then Some 0
      else resolve_loop fs (skip_slashes path) 0)"

subsection \<open>Operations\<close>

definition create_child :: "int \<Rightarrow> string \<Rightarrow> vfs_node_type \<Rightarrow> u32 \<Rightarrow> tmpfs \<Rightarrow> int \<times> tmpfs" where
  "create_child parent_id nm ty mode fs =
     (case alloc_node fs of (nid, fs1) \<Rightarrow>
        if nid < 0 then (nid, fs1)
        else
          let fs2 = upd_node nid (\<lambda>n. n\<lparr>n_type := ty, n_mode := mode, n_parent_id := parent_id,
                      n_name := take (MGCORE_NAME_MAX - 1) (cstr nm)\<rparr>) fs1;
              fs3 = upd_node nid (\<lambda>n. n\<lparr>n_next_sibling_id := n_first_child_id (node_at fs2 parent_id)\<rparr>) fs2;
              fs4 = upd_node parent_id (\<lambda>n. n\<lparr>n_first_child_id := nid\<rparr>) fs3
          in (nid, fs4))"

definition tmpfs_init :: "tmpfs \<Rightarrow> tmpfs" where
  "tmpfs_init fs = fs\<lparr>g_nodes := (replicate MGCORE_MAX_NODES zero_node)
       [0 := zero_node\<lparr>n_id := 0, n_parent_id := -1, n_first_child_id := -1, n_next_sibling_id := -1,
               n_type := VFS_NODE_DIR, n_mode := 0x1ED, n_name := ''/''\<rparr>],
     g_data_offset := 0\<rparr>"

definition tmpfs_lookup_path :: "string \<Rightarrow> tmpfs \<Rightarrow> int option" where
  "tmpfs_lookup_path path fs = resolve_path path fs"

definition tmpfs_create_path :: "string \<Rightarrow> vfs_node_type \<Rightarrow> u32 \<Rightarrow> tmpfs \<Rightarrow> (int \<times> tmpfs) option" where
  "tmpfs_create_path path ty mode fs =
     (if char_at path \<noteq> slash \<or> char_at (tl path) = NUL then Some (- EINVAL, fs)
      else case resolve_path path fs of
        None \<Rightarrow> None
      | Some existing \<Rightarrow>
          if existing \<ge> 0 then Some (existing, fs)
          else case split_parent path of
            None \<Rightarrow> None
          | Some (parent, leaf) \<Rightarrow>
              (case resolve_path parent fs of
                 None \<Rightarrow> None
               | Some parent_id \<Rightarrow>
                   if parent_id < 0 then Some (parent_id, fs)
                   else if n_type (node_at fs parent_id) \<noteq> VFS_NODE_DIR then Some (- ENOTDIR, fs)
                   else Some (create_child parent_id leaf ty mode fs)))"

partial_function (option) unlink_loop :: "tmpfs \<Rightarrow> int \<Rightarrow> int \<Rightarrow> int option" where
  "unlink_loop fs nid child =
     (if child \<ge> 0 \<and> n_next_sibling_id (node_at fs child) \<noteq> nid
      then unlink_loop fs nid (n_next_sibling_id (node_at fs child))
      else Some child)"

definition unlink_node :: "int \<Rightarrow> tmpfs \<Rightarrow> tmpfs option" where
  "unlink_node nid fs =
     (let parent = n_parent_id (node_at fs nid); child = n_first_child_id (node_at fs parent)
      in if child = nid
         then Some (upd_node parent (\<lambda>n. n\<lparr>n_first_child_id := n_next_sibling_id (node_at fs nid)\<rparr>) fs)
         else case unlink_loop fs nid child of
           None \<Rightarrow> None
         | Some child' \<Rightarrow>
             Some (if child' \<ge> 0
                   then upd_node child' (\<lambda>n. n\<lparr>n_next_sibling_id := n_next_sibling_id (node_at fs nid)\<rparr>) fs
                   else fs))"

definition tmpfs_remove_path :: "string \<Rightarrow> bool \<Rightarrow> tmpfs \<Rightarrow> (int \<times> tmpfs) option" where
  "tmpfs_remove_path path want_dir fs =
     (case resolve_path path fs of
        None \<Rightarrow> None
      | Some nid \<Rightarrow>
          if nid \<le> 0 then Some (- EINVAL, fs)
          else if want_dir \<and> n_type (node_at fs nid) \<noteq> VFS_NODE_DIR then Some (- ENOTDIR, fs)
          else if \<not> want_dir \<and> n_type (node_at fs nid) = VFS_NODE_DIR then Some (- EISDIR, fs)
          else if n_type (node_at fs nid) = VFS_NODE_DIR \<and> n_first_child_id (node_at fs nid) \<ge> 0
          then Some (- ENOTEMPTY, fs)
          else case unlink_node nid fs of
            None \<Rightarrow> None
          | Some fs1 \<Rightarrow> Some (0, upd_node nid (\<lambda>n. zero_node) fs1))"

definition tmpfs_get_node :: "int \<Rightarrow> tmpfs \<Rightarrow> vfs_node option" where
  "tmpfs_get_node node_id fs =
     (if node_id < 0 \<or> node_id \<ge> int MGCORE_MAX_NODES \<or> n_type (node_at fs node_id) = VFS_NODE_NONE
      then None else Some (node_at fs node_id))"

text \<open>A run of \<open>n\<close> bytes of the arena, checked against its bounds.\<close>

definition in_arena :: "u64 option \<Rightarrow> u64 \<Rightarrow> nat \<Rightarrow> nat option" where
  "in_arena data offset n =
     (case data of None \<Rightarrow> (if n = 0 then Some 0 else None)
      | Some a \<Rightarrow> let start = unat (a + offset) in
          if n = 0 \<or> start + n \<le> TMPFS_DATA_ARENA_SIZE then Some start else None)"

definition tmpfs_read_node :: "int \<Rightarrow> u64 \<Rightarrow> u64 \<Rightarrow> tmpfs \<Rightarrow> (int \<times> u8 list) option" where
  "tmpfs_read_node node_id count offset fs =
     (case tmpfs_get_node node_id fs of
        None \<Rightarrow> Some (- ENOENT, [])
      | Some node \<Rightarrow>
          if n_type node \<noteq> VFS_NODE_FILE then Some (- EISDIR, [])
          else if offset \<ge> n_size node then Some (0, [])
          else
            let available = n_size node - offset;
                count' = (if count > available then available else count)
            in case in_arena (n_data node) offset (unat count') of
                 None \<Rightarrow> None
               | Some start \<Rightarrow> Some (sint count', map (g_data_arena fs) [start ..< start + unat count']))"

fun put_bytes :: "nat \<Rightarrow> u8 list \<Rightarrow> memory \<Rightarrow> memory" where
  "put_bytes dst [] m = m"
| "put_bytes dst (b # bs) m = put_bytes (Suc dst) bs (m(dst := b))"

definition grow_node :: "int \<Rightarrow> vfs_node \<Rightarrow> u64 \<Rightarrow> tmpfs \<Rightarrow> (bool \<times> tmpfs) option" where
  "grow_node node_id node end_offset fs =
     (let new_capacity = (end_offset + 255) AND ucast (NOT 255 :: u32)
      in case alloc_storage new_capacity fs of
           None \<Rightarrow> Some (False, fs)
         | Some (new_data, fs1) \<Rightarrow>
             let old = (if n_data node \<noteq> None \<and> n_size node \<noteq> 0 then unat (n_size node) else 0)
             in case (in_arena (n_data node) 0 old, in_arena (Some new_data) 0 old) of
                  (Some src, Some dst) \<Rightarrow>
                    Some (True, upd_node node_id (\<lambda>n. n\<lparr>n_data := Some new_data, n_capacity := new_capacity\<rparr>)
                           (fs1\<lparr>g_data_arena := kmemcpy dst src old (g_data_arena fs1)\<rparr>))
                | _ \<Rightarrow> None)"

definition store_node :: "int \<Rightarrow> u8 list \<Rightarrow> u64 \<Rightarrow> tmpfs \<Rightarrow> (int \<times> tmpfs) option" where
  "store_node node_id buffer offset fs =
     (let node = node_at fs node_id; count = of_nat (length buffer) :: u64; end_offset = offset + count
      in case in_arena (n_data node) offset (length buffer) of
           None \<Rightarrow> None
         | Some start \<Rightarrow>
             let fs1 = fs\<lparr>g_data_arena := put_bytes start buffer (g_data_arena fs)\<rparr>
             in Some (sint count,
                  if end_offset > n_size node then upd_node node_id (\<lambda>n. n\<lparr>n_size := end_offset\<rparr>) fs1 else fs1))"

definition tmpfs_write_node :: "int \<Rightarrow> u8 list \<Rightarrow> u64 \<Rightarrow> tmpfs \<Rightarrow> (int \<times> tmpfs) option" where
  "tmpfs_write_node node_id buffer offset fs =
     (let end_offset = offset + of_nat (length buffer)
      in case tmpfs_get_node node_id fs of
           None \<Rightarrow> Some (- ENOENT, fs)
         | Some node \<Rightarrow>
             if n_type node \<noteq> VFS_NODE_FILE then Some (- EISDIR, fs)
             else if end_offset > n_capacity node then
               (case grow_node node_id node end_offset fs of
                  None \<Rightarrow> None
                | Some (ok, fs1) \<Rightarrow>
                    if \<not> ok then Some (- ENOSPC, fs1) else store_node node_id buffer offset fs1)
             else store_node node_id buffer offset fs)"

definition type_name :: "vfs_node_type \<Rightarrow> string" where
  "type_name ty = (if ty = VFS_NODE_DIR then ''dir'' else if ty = VFS_NODE_CHARDEV then ''chr'' else ''file'')"

partial_function (option) dump_loop :: "tmpfs \<Rightarrow> int \<Rightarrow> con_call list option" where
  "dump_loop fs child =
     (if child \<ge> 0 then
        Option.bind (dump_loop fs (n_next_sibling_id (node_at fs child)))
          (\<lambda>rest. Some (Printf (''%s'' @ [CHR 0x09] @ ''/%s'' @ [CHR 0x09] @ ''%u bytes'' @ [CHR 0x0A])
             [VStr (Some (type_name (n_type (node_at fs child)))), VStr (Some (n_name (node_at fs child))),
              vunsigned (n_size (node_at fs child))] # rest))
      else Some [])"

definition tmpfs_dump_root :: "tmpfs \<Rightarrow> con_call list option" where
  "tmpfs_dump_root fs = dump_loop fs (n_first_child_id (node_at fs 0))"

subsection \<open>Directories as chains\<close>

fun chain :: "tmpfs \<Rightarrow> int \<Rightarrow> nat list \<Rightarrow> bool" where
  "chain fs c [] \<longleftrightarrow> c < 0"
| "chain fs c (x # xs) \<longleftrightarrow> c = int x \<and> chain fs (n_next_sibling_id (g_nodes fs ! x)) xs"

definition child_named :: "tmpfs \<Rightarrow> string \<Rightarrow> nat list \<Rightarrow> int" where
  "child_named fs nm xs = (case find (\<lambda>i. cstr (n_name (g_nodes fs ! i)) = cstr nm) xs of None \<Rightarrow> - ENOENT | Some i \<Rightarrow> int i)"

lemma child_loop_chain: "chain fs c xs \<Longrightarrow> child_loop fs nm c = Some (child_named fs nm xs)"
proof (induction xs arbitrary: c)
  case Nil
  then show ?case by (simp add: child_loop.simps [of fs nm c] child_named_def)
next
  case (Cons x xs)
  then show ?case by (simp add: child_loop.simps [of fs nm "int x"] child_named_def kstrcmp_zero_iff)
qed

lemma chain_cong:
  "(\<And>x. x \<in> set xs \<Longrightarrow> n_next_sibling_id (g_nodes fs' ! x) = n_next_sibling_id (g_nodes fs ! x)) \<Longrightarrow>
    chain fs' c xs = chain fs c xs"
  by (induction xs arbitrary: c) auto

lemma unlink_loop_chain:
  "chain fs c (xs @ q # i # ys) \<Longrightarrow> distinct (xs @ q # i # ys) \<Longrightarrow> unlink_loop fs (int i) c = Some (int q)"
proof (induction xs arbitrary: c)
  case Nil
  then show ?case by (simp add: unlink_loop.simps [of fs "int i" "int q"])
next
  case (Cons x xs)
  have "n_next_sibling_id (g_nodes fs ! x) \<noteq> int i"
    using Cons.prems by (cases xs) auto
  then show ?case using Cons by (simp add: unlink_loop.simps [of fs "int i" "int x"])
qed

lemma chain_unlink:
  "chain fs c (xs @ q # i # ys) \<Longrightarrow> distinct (xs @ q # i # ys) \<Longrightarrow>
   n_next_sibling_id (g_nodes fs' ! q) = n_next_sibling_id (g_nodes fs ! i) \<Longrightarrow>
   (\<And>x. x \<in> set xs \<union> set ys \<Longrightarrow> n_next_sibling_id (g_nodes fs' ! x) = n_next_sibling_id (g_nodes fs ! x)) \<Longrightarrow>
   chain fs' c (xs @ q # ys)"
proof (induction xs arbitrary: c)
  case Nil
  then show ?case using chain_cong [of ys fs' fs] by simp
qed simp

lemma upd_node_sel [simp]:
  "length (g_nodes (upd_node i f fs)) = length (g_nodes fs)"
  "g_data_arena (upd_node i f fs) = g_data_arena fs"
  "g_data_offset (upd_node i f fs) = g_data_offset fs"
  "j < length (g_nodes fs) \<Longrightarrow> g_nodes (upd_node i f fs) ! j = (if j = nat i then f (node_at fs i) else g_nodes fs ! j)"
  by (auto simp: upd_node_def)

definition live :: "tmpfs \<Rightarrow> nat \<Rightarrow> bool" where
  "live fs i \<longleftrightarrow> i < MGCORE_MAX_NODES \<and> n_type (g_nodes fs ! i) \<noteq> VFS_NODE_NONE"

definition is_dir :: "tmpfs \<Rightarrow> nat \<Rightarrow> bool" where
  "is_dir fs i \<longleftrightarrow> i < MGCORE_MAX_NODES \<and> n_type (g_nodes fs ! i) = VFS_NODE_DIR"

lemma is_dir_live: "is_dir fs i \<Longrightarrow> live fs i"
  by (auto simp: is_dir_def live_def)

text \<open>
  The tree invariant, with the list \<open>ch d\<close> of the children of every node in chain order. Names of
  siblings are different unless they contain a slash, which no component of a path does.
\<close>

definition tree :: "tmpfs \<Rightarrow> (nat \<Rightarrow> nat list) \<Rightarrow> bool" where
  "tree fs ch \<longleftrightarrow>
     length (g_nodes fs) = MGCORE_MAX_NODES \<and> is_dir fs 0 \<and> n_parent_id (g_nodes fs ! 0) = -1 \<and>
     (\<forall>i. live fs i \<longrightarrow> i \<noteq> 0 \<longrightarrow> (\<exists>d. is_dir fs d \<and> n_parent_id (g_nodes fs ! i) = int d)) \<and>
     (\<forall>i. live fs i \<longrightarrow> n_id (g_nodes fs ! i) = int i \<and> cstr (n_name (g_nodes fs ! i)) = n_name (g_nodes fs ! i)) \<and>
     (\<forall>d. live fs d \<longrightarrow> chain fs (n_first_child_id (g_nodes fs ! d)) (ch d) \<and> distinct (ch d) \<and>
        set (ch d) = {i. live fs i \<and> n_parent_id (g_nodes fs ! i) = int d} \<and>
        (\<forall>i\<in>set (ch d). \<forall>j\<in>set (ch d). n_name (g_nodes fs ! i) = n_name (g_nodes fs ! j) \<longrightarrow>
           slash \<notin> set (n_name (g_nodes fs ! i)) \<longrightarrow> i = j))"

lemma treeD:
  assumes "tree fs ch"
  shows "length (g_nodes fs) = MGCORE_MAX_NODES" "is_dir fs 0" "n_parent_id (g_nodes fs ! 0) = -1"
    "live fs i \<Longrightarrow> i \<noteq> 0 \<Longrightarrow> \<exists>d. is_dir fs d \<and> n_parent_id (g_nodes fs ! i) = int d"
    "live fs i \<Longrightarrow> n_id (g_nodes fs ! i) = int i" "live fs i \<Longrightarrow> cstr (n_name (g_nodes fs ! i)) = n_name (g_nodes fs ! i)"
    "live fs d \<Longrightarrow> chain fs (n_first_child_id (g_nodes fs ! d)) (ch d)" "live fs d \<Longrightarrow> distinct (ch d)"
    "live fs d \<Longrightarrow> set (ch d) = {i. live fs i \<and> n_parent_id (g_nodes fs ! i) = int d}"
    "live fs d \<Longrightarrow> i \<in> set (ch d) \<Longrightarrow> j \<in> set (ch d) \<Longrightarrow> n_name (g_nodes fs ! i) = n_name (g_nodes fs ! j) \<Longrightarrow>
       slash \<notin> set (n_name (g_nodes fs ! i)) \<Longrightarrow> i = j"
  using assms unfolding tree_def by blast+

lemma treeI:
  assumes "length (g_nodes fs) = MGCORE_MAX_NODES" "is_dir fs 0" "n_parent_id (g_nodes fs ! 0) = -1"
    "\<And>i. live fs i \<Longrightarrow> i \<noteq> 0 \<Longrightarrow> \<exists>d. is_dir fs d \<and> n_parent_id (g_nodes fs ! i) = int d"
    "\<And>i. live fs i \<Longrightarrow> n_id (g_nodes fs ! i) = int i" "\<And>i. live fs i \<Longrightarrow> cstr (n_name (g_nodes fs ! i)) = n_name (g_nodes fs ! i)"
    "\<And>d. live fs d \<Longrightarrow> chain fs (n_first_child_id (g_nodes fs ! d)) (ch d)" "\<And>d. live fs d \<Longrightarrow> distinct (ch d)"
    "\<And>d. live fs d \<Longrightarrow> set (ch d) = {i. live fs i \<and> n_parent_id (g_nodes fs ! i) = int d}"
    "\<And>d i j. live fs d \<Longrightarrow> i \<in> set (ch d) \<Longrightarrow> j \<in> set (ch d) \<Longrightarrow> n_name (g_nodes fs ! i) = n_name (g_nodes fs ! j) \<Longrightarrow>
       slash \<notin> set (n_name (g_nodes fs ! i)) \<Longrightarrow> i = j"
  shows "tree fs ch"
  unfolding tree_def by (intro conjI allI impI ballI) (rule assms, assumption+ | rule assms)+

lemma tree_child:
  assumes "tree fs ch" and "live fs d" and "i \<in> set (ch d)"
  shows "live fs i" and "n_parent_id (g_nodes fs ! i) = int d" and "i \<noteq> 0"
  using treeD(9) [OF assms(1,2)] treeD(3) [OF assms(1)] assms(3) by (auto intro: gr0I)

lemma lookup_child_tree:
  "tree fs ch \<Longrightarrow> live fs d \<Longrightarrow> lookup_child (int d) nm fs = Some (child_named fs nm (ch d))"
  unfolding lookup_child_def nat_int by (rule child_loop_chain) (rule treeD(7))

lemma child_named_cases:
  obtains "child_named fs nm xs = - ENOENT" "\<And>i. i \<in> set xs \<Longrightarrow> cstr (n_name (g_nodes fs ! i)) \<noteq> cstr nm"
  | i where "i \<in> set xs" "child_named fs nm xs = int i" "cstr (n_name (g_nodes fs ! i)) = cstr nm"
proof (cases "find (\<lambda>i. cstr (n_name (g_nodes fs ! i)) = cstr nm) xs")
  case None
  then have "child_named fs nm xs = - ENOENT" by (simp add: child_named_def)
  then show thesis using that(1) None by (simp add: find_None_iff)
next
  case (Some i)
  then have "child_named fs nm xs = int i" by (simp add: child_named_def)
  moreover have "i \<in> set xs" "cstr (n_name (g_nodes fs ! i)) = cstr nm" using Some by (auto simp: find_Some_iff)
  ultimately show thesis using that(2) by blast
qed

text \<open>A file system whose nodes agree with a tree on the linked structure is a tree.\<close>

lemma tree_cong:
  assumes "tree fs ch" and "length (g_nodes fs') = length (g_nodes fs)"
    and "\<And>i. i < MGCORE_MAX_NODES \<Longrightarrow> n_type (g_nodes fs' ! i) = n_type (g_nodes fs ! i) \<and>
       n_parent_id (g_nodes fs' ! i) = n_parent_id (g_nodes fs ! i) \<and> n_id (g_nodes fs' ! i) = n_id (g_nodes fs ! i) \<and>
       n_name (g_nodes fs' ! i) = n_name (g_nodes fs ! i) \<and>
       n_first_child_id (g_nodes fs' ! i) = n_first_child_id (g_nodes fs ! i) \<and>
       n_next_sibling_id (g_nodes fs' ! i) = n_next_sibling_id (g_nodes fs ! i)"
  shows "tree fs' ch"
proof -
  note t = treeD [OF assms(1)]
  have l: "live fs' i = live fs i" "is_dir fs' i = is_dir fs i" for i
    using assms(3) by (auto simp: live_def is_dir_def)
  have eq: "n_parent_id (g_nodes fs' ! i) = n_parent_id (g_nodes fs ! i)" "n_id (g_nodes fs' ! i) = n_id (g_nodes fs ! i)"
    "n_name (g_nodes fs' ! i) = n_name (g_nodes fs ! i)" "n_first_child_id (g_nodes fs' ! i) = n_first_child_id (g_nodes fs ! i)"
    "n_next_sibling_id (g_nodes fs' ! i) = n_next_sibling_id (g_nodes fs ! i)" if "live fs i" for i
    using assms(3) that by (auto simp: live_def)
  have c: "chain fs' c (ch d) = chain fs c (ch d)" if "live fs d" for c d
    by (rule chain_cong) (use tree_child [OF assms(1) that] eq in auto)
  note z = is_dir_live [OF t(2)]
  show ?thesis
  proof (rule treeI)
    fix d assume d: "live fs' d"
    show "set (ch d) = {i. live fs' i \<and> n_parent_id (g_nodes fs' ! i) = int d}" using t(9) d eq(1) l by auto
    show "\<And>i j. i \<in> set (ch d) \<Longrightarrow> j \<in> set (ch d) \<Longrightarrow> n_name (g_nodes fs' ! i) = n_name (g_nodes fs' ! j) \<Longrightarrow>
       slash \<notin> set (n_name (g_nodes fs' ! i)) \<Longrightarrow> i = j"
      using t(10) d l eq(3) tree_child(1) [OF assms(1)] by metis
  qed (use assms(2) t l eq c z in auto)
qed

subsection \<open>Creation of a node\<close>

definition new_node :: "nat \<Rightarrow> nat \<Rightarrow> string \<Rightarrow> vfs_node_type \<Rightarrow> u32 \<Rightarrow> int \<Rightarrow> vfs_node" where
  "new_node i d nm ty mode sib = \<lparr>n_id = int i, n_parent_id = int d, n_first_child_id = -1, n_next_sibling_id = sib,
     n_type = ty, n_name = take 31 (cstr nm), n_data = None, n_size = 0, n_capacity = 0, n_mode = mode, n_device_id = 0\<rparr>"

lemma create_child_cases:
  assumes "length (g_nodes fs) = MGCORE_MAX_NODES" and "live fs d"
  obtains "create_child (int d) nm ty mode fs = (- ENOSPC, fs)" "\<And>i. i < MGCORE_MAX_NODES \<Longrightarrow> live fs i"
  | i fs' where "i < MGCORE_MAX_NODES" "\<not> live fs i" "i \<noteq> d" "create_child (int d) nm ty mode fs = (int i, fs')"
    "length (g_nodes fs') = MGCORE_MAX_NODES" "g_data_arena fs' = g_data_arena fs" "g_data_offset fs' = g_data_offset fs"
    "\<And>j. j < MGCORE_MAX_NODES \<Longrightarrow> g_nodes fs' ! j =
       (if j = i then new_node i d nm ty mode (n_first_child_id (g_nodes fs ! d))
        else if j = d then (g_nodes fs ! d)\<lparr>n_first_child_id := int i\<rparr> else g_nodes fs ! j)"
proof (cases "scan_from (\<lambda>i. n_type (g_nodes fs ! i) = VFS_NODE_NONE) 0 MGCORE_MAX_NODES")
  case None
  then have "create_child (int d) nm ty mode fs = (- ENOSPC, fs)"
    by (simp add: create_child_def alloc_node_def ENOSPC_def)
  then show thesis using that(1) None by (simp add: scan_from_None_iff live_def)
next
  case (Some i)
  note d = scan_from_SomeD [OF Some]
  have id: "i \<noteq> d" using d(3) assms(2) by (auto simp: live_def)
  have dl: "d < MGCORE_MAX_NODES" using assms(2) by (simp add: live_def)
  obtain fs' where c: "create_child (int d) nm ty mode fs = (int i, fs')"
    by (simp add: create_child_def alloc_node_def Some Let_def)
  show thesis
  proof (rule that(2) [of i fs'])
    show "i < MGCORE_MAX_NODES" "\<not> live fs i" "i \<noteq> d" "create_child (int d) nm ty mode fs = (int i, fs')"
      using d id c by (auto simp: live_def)
    show "length (g_nodes fs') = MGCORE_MAX_NODES" "g_data_arena fs' = g_data_arena fs" "g_data_offset fs' = g_data_offset fs"
      using c assms(1) by (auto simp: create_child_def alloc_node_def Some Let_def)
    show "g_nodes fs' ! j = (if j = i then new_node i d nm ty mode (n_first_child_id (g_nodes fs ! d))
        else if j = d then (g_nodes fs ! d)\<lparr>n_first_child_id := int i\<rparr> else g_nodes fs ! j)"
      if "j < MGCORE_MAX_NODES" for j
      using c that assms(1) d(2) dl id
      by (auto simp: create_child_def alloc_node_def Some Let_def new_node_def MGCORE_NAME_MAX_def)
  qed
qed

lemma create_child_tree:
  assumes t: "tree fs ch" and d: "is_dir fs d" and ty: "ty \<noteq> VFS_NODE_NONE"
    and i: "i < MGCORE_MAX_NODES" "\<not> live fs i" "i \<noteq> d" and l: "length (g_nodes fs') = MGCORE_MAX_NODES"
    and n: "\<And>j. j < MGCORE_MAX_NODES \<Longrightarrow> g_nodes fs' ! j =
       (if j = i then new_node i d nm ty mode (n_first_child_id (g_nodes fs ! d))
        else if j = d then (g_nodes fs ! d)\<lparr>n_first_child_id := int i\<rparr> else g_nodes fs ! j)"
    and fresh: "\<And>j. j \<in> set (ch d) \<Longrightarrow> slash \<notin> set (take 31 (cstr nm)) \<Longrightarrow> n_name (g_nodes fs ! j) \<noteq> take 31 (cstr nm)"
  shows "tree fs' (ch(d := i # ch d, i := []))"
proof -
  note td = treeD [OF t] and dl = is_dir_live [OF d]
  have lv: "live fs' j \<longleftrightarrow> j = i \<or> live fs j" for j
    using n [of j] i(1) ty d by (auto simp: live_def new_node_def is_dir_def split: if_splits)
  have dr: "is_dir fs' j \<longleftrightarrow> j = i \<and> ty = VFS_NODE_DIR \<or> j \<noteq> i \<and> is_dir fs j" for j
    using n [of j] i(1) d by (auto simp: new_node_def is_dir_def split: if_splits)
  have i0: "i \<noteq> 0" using td(2) i(2) is_dir_live by metis
  have self: "g_nodes fs' ! i = new_node i d nm ty mode (n_first_child_id (g_nodes fs ! d))" using n i(1) by simp
  have oth: "n_parent_id (g_nodes fs' ! j) = n_parent_id (g_nodes fs ! j)" "n_id (g_nodes fs' ! j) = n_id (g_nodes fs ! j)"
    "n_name (g_nodes fs' ! j) = n_name (g_nodes fs ! j)"
    "n_next_sibling_id (g_nodes fs' ! j) = n_next_sibling_id (g_nodes fs ! j)"
    "j \<noteq> d \<Longrightarrow> n_first_child_id (g_nodes fs' ! j) = n_first_child_id (g_nodes fs ! j)" if "live fs j" for j
    using n [of j] that i(2) by (auto simp: live_def)
  have notin: "i \<notin> set (ch e)" if "live fs e" for e using tree_child(1) [OF t that] i(2) by blast
  have ch: "chain fs' c (ch e) = chain fs c (ch e)" if "live fs e" for c e
    by (rule chain_cong) (use tree_child(1) [OF t that] oth(4) in blast)
  have fcd: "n_first_child_id (g_nodes fs' ! d) = int i" using n [of d] i(3) dl by (simp add: live_def)
  show ?thesis
  proof (rule treeI [OF l])
    show "is_dir fs' 0" using dr td(2) i0 by auto
    show "n_parent_id (g_nodes fs' ! 0) = -1" using td(3) oth(1) is_dir_live [OF td(2)] by simp
    fix k assume k: "live fs' k"
    show "\<exists>d. is_dir fs' d \<and> n_parent_id (g_nodes fs' ! k) = int d" if nz: "k \<noteq> 0"
    proof (cases "k = i")
      case True
      then show ?thesis using dr d i(3) self by (auto simp: new_node_def)
    next
      case False
      then have "live fs k" using k lv by simp
      then obtain e where "is_dir fs e" "n_parent_id (g_nodes fs ! k) = int e" using td(4) nz by blast
      moreover have "e \<noteq> i" using calculation(1) i(2) is_dir_live by blast
      ultimately show ?thesis using dr oth(1) [OF \<open>live fs k\<close>] by auto
    qed
    show "n_id (g_nodes fs' ! k) = int k" using k lv td(5) oth(2) self by (cases "k = i") (auto simp: new_node_def)
    show "cstr (n_name (g_nodes fs' ! k)) = n_name (g_nodes fs' ! k)"
      using k lv td(6) oth(3) self by (cases "k = i") (auto simp: new_node_def intro!: cstr_id dest: in_set_takeD)
    show "chain fs' (n_first_child_id (g_nodes fs' ! k)) ((ch(d := i # ch d, i := [])) k)"
    proof (cases "k = i")
      case True
      then show ?thesis using self by (simp add: new_node_def)
    next
      case False
      then have k': "live fs k" using k lv by simp
      show ?thesis
      proof (cases "k = d")
        case True
        then show ?thesis using i(3) self ch [OF dl] td(7) [OF dl] fcd by (simp add: new_node_def)
      qed (use False ch [OF k'] td(7) [OF k'] oth(5) [OF k'] in simp)
    qed
    show "distinct ((ch(d := i # ch d, i := [])) k)" using k lv td(8) notin dl by auto
    show "set ((ch(d := i # ch d, i := [])) k) = {j. live fs' j \<and> n_parent_id (g_nodes fs' ! j) = int k}"
    proof (cases "k = i")
      case True
      have "n_parent_id (g_nodes fs' ! j) \<noteq> int i" if "live fs' j" for j
      proof (cases "j = i")
        case True
        then show ?thesis using self i(3) by (simp add: new_node_def)
      next
        case False
        then have j: "live fs j" using that lv by simp
        show ?thesis
        proof (cases "j = 0")
          case True
          then show ?thesis using td(3) oth(1) [OF j] by simp
        next
          case False
          then obtain e where "is_dir fs e" "n_parent_id (g_nodes fs ! j) = int e" using td(4) j by blast
          then show ?thesis using oth(1) [OF j] i(2) is_dir_live by auto
        qed
      qed
      then show ?thesis using True by auto
    next
      case False
      then have k': "live fs k" using k lv by simp
      have "j \<in> set (ch k) \<longleftrightarrow> live fs j \<and> n_parent_id (g_nodes fs' ! j) = int k" for j
        using td(9) [OF k'] oth(1) by auto
      moreover have "n_parent_id (g_nodes fs' ! i) = int d" using self by (simp add: new_node_def)
      ultimately show ?thesis using False i(2) lv by auto
    qed
    fix j j' assume jj: "j \<in> set ((ch(d := i # ch d, i := [])) k)" "j' \<in> set ((ch(d := i # ch d, i := [])) k)"
      and eq: "n_name (g_nodes fs' ! j) = n_name (g_nodes fs' ! j')" and ns: "slash \<notin> set (n_name (g_nodes fs' ! j))"
    have ki: "k \<noteq> i" using jj(1) by auto
    then have k': "live fs k" using k lv by simp
    have nm: "n_name (g_nodes fs' ! i) = take 31 (cstr nm)" using self by (simp add: new_node_def)
    have old: "n_name (g_nodes fs' ! x) = n_name (g_nodes fs ! x)" if "x \<in> set (ch k)" for x
      using oth(3) tree_child(1) [OF t k' that] by blast
    show "j = j'"
    proof (cases "j = i \<or> j' = i")
      case True
      then have "k = d" using jj notin [OF k'] ki by (auto split: if_splits)
      then have "j \<in> insert i (set (ch d))" "j' \<in> insert i (set (ch d))" using jj ki by auto
      then show ?thesis
        using True eq ns nm old [of j] old [of j'] fresh [of j] fresh [of j'] \<open>k = d\<close> by (cases "j = i"; cases "j' = i") auto
    next
      case False
      then have "j \<in> set (ch k)" "j' \<in> set (ch k)" using jj ki by (auto split: if_splits)
      then show ?thesis using td(10) [OF k'] old eq ns by metis
    qed
  qed
qed

subsection \<open>Removal of a node\<close>

text \<open>What \<^verbatim>\<open>tmpfs_remove_path\<close> changes in the table: node \<open>i\<close> is cleared and taken out of the chain of \<open>d\<close>.\<close>

definition removed :: "tmpfs \<Rightarrow> tmpfs \<Rightarrow> nat \<Rightarrow> bool" where
  "removed fs fs' i \<longleftrightarrow> length (g_nodes fs') = MGCORE_MAX_NODES \<and> g_nodes fs' ! i = zero_node \<and>
     g_data_arena fs' = g_data_arena fs \<and> g_data_offset fs' = g_data_offset fs \<and>
     (\<forall>j. j < MGCORE_MAX_NODES \<longrightarrow> j \<noteq> i \<longrightarrow>
        (\<exists>fc ns. g_nodes fs' ! j = (g_nodes fs ! j)\<lparr>n_first_child_id := fc, n_next_sibling_id := ns\<rparr>))"

lemma relinked:
  fixes n :: vfs_node
  shows "\<exists>fc ns. n = n\<lparr>n_first_child_id := fc, n_next_sibling_id := ns\<rparr>"
    "\<exists>fc ns. n\<lparr>n_first_child_id := a\<rparr> = n\<lparr>n_first_child_id := fc, n_next_sibling_id := ns\<rparr>"
    "\<exists>fc ns. n\<lparr>n_next_sibling_id := a\<rparr> = n\<lparr>n_first_child_id := fc, n_next_sibling_id := ns\<rparr>"
  by (intro exI [of _ "n_first_child_id n"] exI [of _ "n_next_sibling_id n"], simp)
    (intro exI [of _ a] exI [of _ "n_next_sibling_id n"], simp,
     intro exI [of _ "n_first_child_id n"] exI [of _ a], simp)

lemma removedD:
  assumes "removed fs fs' i" and "j < MGCORE_MAX_NODES" and "j \<noteq> i"
  shows "n_type (g_nodes fs' ! j) = n_type (g_nodes fs ! j)" "n_parent_id (g_nodes fs' ! j) = n_parent_id (g_nodes fs ! j)"
    "n_id (g_nodes fs' ! j) = n_id (g_nodes fs ! j)" "n_name (g_nodes fs' ! j) = n_name (g_nodes fs ! j)"
    "n_data (g_nodes fs' ! j) = n_data (g_nodes fs ! j)" "n_size (g_nodes fs' ! j) = n_size (g_nodes fs ! j)"
    "n_capacity (g_nodes fs' ! j) = n_capacity (g_nodes fs ! j)"
proof -
  obtain fc ns where "g_nodes fs' ! j = (g_nodes fs ! j)\<lparr>n_first_child_id := fc, n_next_sibling_id := ns\<rparr>"
    using assms unfolding removed_def by blast
  then show "n_type (g_nodes fs' ! j) = n_type (g_nodes fs ! j)" "n_parent_id (g_nodes fs' ! j) = n_parent_id (g_nodes fs ! j)"
    "n_id (g_nodes fs' ! j) = n_id (g_nodes fs ! j)" "n_name (g_nodes fs' ! j) = n_name (g_nodes fs ! j)"
    "n_data (g_nodes fs' ! j) = n_data (g_nodes fs ! j)" "n_size (g_nodes fs' ! j) = n_size (g_nodes fs ! j)"
    "n_capacity (g_nodes fs' ! j) = n_capacity (g_nodes fs ! j)" by simp_all
qed

lemma removed_live: "removed fs fs' i \<Longrightarrow> live fs' j \<longleftrightarrow> j \<noteq> i \<and> live fs j"
  using removedD(1) [of fs fs' i j] by (cases "j = i") (auto simp: live_def removed_def zero_node_def)

lemma removed_dir: "removed fs fs' i \<Longrightarrow> is_dir fs' j \<longleftrightarrow> j \<noteq> i \<and> is_dir fs j"
  using removedD(1) [of fs fs' i j] by (cases "j = i") (auto simp: is_dir_def removed_def zero_node_def)

lemma removed_tree:
  assumes t: "tree fs ch" and i: "live fs i" "i \<noteq> 0" "ch i = []" and d: "live fs d" "ch d = xs @ i # ys"
    and rm: "removed fs fs' i" and chd: "chain fs' (n_first_child_id (g_nodes fs' ! d)) (xs @ ys)"
    and fc: "\<And>j. live fs j \<Longrightarrow> j \<noteq> i \<Longrightarrow> j \<noteq> d \<Longrightarrow> n_first_child_id (g_nodes fs' ! j) = n_first_child_id (g_nodes fs ! j)"
    and ns: "\<And>j. live fs j \<Longrightarrow> j \<notin> set (ch d) \<Longrightarrow> n_next_sibling_id (g_nodes fs' ! j) = n_next_sibling_id (g_nodes fs ! j)"
  shows "tree fs' (ch(d := xs @ ys))"
proof -
  note td = treeD [OF t] and lv = removed_live [OF rm] and dr = removed_dir [OF rm]
  have di: "d \<noteq> i" using i(3) d(2) by auto
  have same: "n_parent_id (g_nodes fs' ! j) = n_parent_id (g_nodes fs ! j)" "n_id (g_nodes fs' ! j) = n_id (g_nodes fs ! j)"
    "n_name (g_nodes fs' ! j) = n_name (g_nodes fs ! j)" if "live fs' j" for j
    using removedD [OF rm, of j] that lv by (auto simp: live_def)
  have dd: "i \<notin> set (xs @ ys)" "distinct (xs @ ys)" "set (ch d) = insert i (set (xs @ ys))"
    using td(8) [OF d(1)] d(2) by auto
  have z: "live fs' 0" using is_dir_live [OF td(2)] i(2) lv by simp
  have sub: "set ((ch(d := xs @ ys)) k) \<subseteq> set (ch k)" for k using dd(3) by auto
  show ?thesis
  proof (rule treeI)
    show "length (g_nodes fs') = MGCORE_MAX_NODES" using rm by (simp add: removed_def)
    show "is_dir fs' 0" using dr td(2) i(2) by simp
    show "n_parent_id (g_nodes fs' ! 0) = -1" using td(3) same(1) [OF z] by simp
    fix k assume k: "live fs' k"
    then have k': "live fs k" "k \<noteq> i" using lv by auto
    show "\<exists>d. is_dir fs' d \<and> n_parent_id (g_nodes fs' ! k) = int d" if nz: "k \<noteq> 0"
    proof -
      obtain e where e: "is_dir fs e" "n_parent_id (g_nodes fs ! k) = int e" using td(4) k'(1) nz by blast
      have "e \<noteq> i" using e(2) td(9) [OF i(1)] i(3) k'(1) by auto
      then show ?thesis using e dr same(1) [OF k] by auto
    qed
    show "n_id (g_nodes fs' ! k) = int k" using same(2) [OF k] td(5) [OF k'(1)] by simp
    show "cstr (n_name (g_nodes fs' ! k)) = n_name (g_nodes fs' ! k)" using same(3) [OF k] td(6) [OF k'(1)] by simp
    show "chain fs' (n_first_child_id (g_nodes fs' ! k)) ((ch(d := xs @ ys)) k)"
    proof (cases "k = d")
      case False
      have "n_next_sibling_id (g_nodes fs' ! j) = n_next_sibling_id (g_nodes fs ! j)" if "j \<in> set (ch k)" for j
        using ns tree_child [OF t k'(1) that] tree_child(2) [OF t d(1)] False by fastforce
      then show ?thesis using False chain_cong [of "ch k" fs' fs] td(7) [OF k'(1)] fc [OF k' False] by simp
    qed (use chd in simp)
    show "distinct ((ch(d := xs @ ys)) k)" using dd(2) td(8) [OF k'(1)] by simp
    have "j \<in> set (ch k) \<and> j \<noteq> i \<longleftrightarrow> live fs' j \<and> n_parent_id (g_nodes fs' ! j) = int k" for j
      using td(9) [OF k'(1)] lv same(1) by auto
    moreover have "j \<in> set ((ch(d := xs @ ys)) k) \<longleftrightarrow> j \<in> set (ch k) \<and> j \<noteq> i" for j
    proof (cases "k = d")
      case False
      then have "i \<notin> set (ch k)" using tree_child(2) [OF t d(1), of i] tree_child(2) [OF t k'(1), of i] dd(3) by auto
      then show ?thesis using False by auto
    qed (use dd in auto)
    ultimately show st: "set ((ch(d := xs @ ys)) k) = {j. live fs' j \<and> n_parent_id (g_nodes fs' ! j) = int k}" by blast
    fix j j' assume jj: "j \<in> set ((ch(d := xs @ ys)) k)" "j' \<in> set ((ch(d := xs @ ys)) k)"
      and eq: "n_name (g_nodes fs' ! j) = n_name (g_nodes fs' ! j')" and nsl: "slash \<notin> set (n_name (g_nodes fs' ! j))"
    have "live fs' j" "live fs' j'" using jj st by auto
    then show "j = j'" using td(10) [OF k'(1), of j j'] same(3) eq nsl jj sub by auto
  qed
qed

lemma remove_node_tree:
  assumes t: "tree fs ch" and i: "live fs i" "i \<noteq> 0" "ch i = []"
  obtains fs1 d where "unlink_node (int i) fs = Some fs1" "is_dir fs d" "n_parent_id (g_nodes fs ! i) = int d"
    "removed fs (upd_node (int i) (\<lambda>n. zero_node) fs1) i"
    "tree (upd_node (int i) (\<lambda>n. zero_node) fs1) (ch(d := remove1 i (ch d)))"
proof -
  note td = treeD [OF t]
  obtain d where d: "is_dir fs d" "n_parent_id (g_nodes fs ! i) = int d" using td(4) [OF i(1,2)] by blast
  note dl = is_dir_live [OF d(1)]
  have il: "i < MGCORE_MAX_NODES" "d < MGCORE_MAX_NODES" using i(1) dl by (auto simp: live_def)
  have "i \<in> set (ch d)" using td(9) [OF dl] i(1) d(2) by simp
  then obtain xs ys where ch: "ch d = xs @ i # ys" by (meson split_list)
  have dis: "distinct (xs @ i # ys)" using td(8) [OF dl] ch by simp
  have di: "d \<noteq> i" using i(3) ch by auto
  have cn: "chain fs (n_first_child_id (g_nodes fs ! d)) (xs @ i # ys)" using td(7) [OF dl] ch by simp
  have rem: "remove1 i (ch d) = xs @ ys" using dis ch by (simp add: remove1_append)
  show thesis
  proof (cases xs rule: rev_cases)
    case Nil
    let ?fs1 = "upd_node (int d) (\<lambda>n. n\<lparr>n_first_child_id := n_next_sibling_id (g_nodes fs ! i)\<rparr>) fs"
    let ?fs' = "upd_node (int i) (\<lambda>n. zero_node) ?fs1"
    have u: "unlink_node (int i) fs = Some ?fs1" using cn Nil by (simp add: unlink_node_def d(2))
    have n: "g_nodes ?fs' ! j = (if j = i then zero_node else if j = d
        then (g_nodes fs ! d)\<lparr>n_first_child_id := n_next_sibling_id (g_nodes fs ! i)\<rparr> else g_nodes fs ! j)"
      if "j < MGCORE_MAX_NODES" for j using that td(1) by simp
    have rm: "removed fs ?fs' i" unfolding removed_def using n il td(1) by (auto intro: relinked)
    have "n_next_sibling_id (g_nodes ?fs' ! x) = n_next_sibling_id (g_nodes fs ! x)" if x: "x \<in> set ys" for x
      using n [of x] tree_child(1) [OF t dl, of x] x ch dis by (auto simp: live_def)
    then have "chain ?fs' c ys = chain fs c ys" for c by (rule chain_cong)
    then have "chain ?fs' (n_first_child_id (g_nodes ?fs' ! d)) (xs @ ys)"
      using cn Nil n [OF il(2)] di by simp
    then have "tree ?fs' (ch(d := xs @ ys))"
      by (intro removed_tree [OF t i dl ch rm]) (use n Nil in \<open>auto simp: live_def ch\<close>)
    then show thesis using that [OF u d rm] by (simp add: rem)
  next
    case (snoc zs q)
    let ?fs1 = "upd_node (int q) (\<lambda>n. n\<lparr>n_next_sibling_id := n_next_sibling_id (g_nodes fs ! i)\<rparr>) fs"
    let ?fs' = "upd_node (int i) (\<lambda>n. zero_node) ?fs1"
    have cn': "chain fs (n_first_child_id (g_nodes fs ! d)) (zs @ q # i # ys)" using cn snoc by simp
    have dis': "distinct (zs @ q # i # ys)" using dis snoc by simp
    have "n_first_child_id (g_nodes fs ! d) \<noteq> int i" using cn' dis' by (cases zs) auto
    then have u: "unlink_node (int i) fs = Some ?fs1"
      using unlink_loop_chain [OF cn' dis'] by (simp add: unlink_node_def d(2))
    have n: "g_nodes ?fs' ! j = (if j = i then zero_node else if j = q
        then (g_nodes fs ! q)\<lparr>n_next_sibling_id := n_next_sibling_id (g_nodes fs ! i)\<rparr> else g_nodes fs ! j)"
      if "j < MGCORE_MAX_NODES" for j using that td(1) by simp
    have q: "live fs q" "q < MGCORE_MAX_NODES" using tree_child(1) [OF t dl, of q] ch snoc by (auto simp: live_def)
    have rm: "removed fs ?fs' i" unfolding removed_def using n il td(1) by (auto intro: relinked)
    have mem: "live fs x" if "x \<in> set zs \<union> set ys" for x using tree_child(1) [OF t dl, of x] ch snoc that by auto
    have fcd: "n_first_child_id (g_nodes ?fs' ! d) = n_first_child_id (g_nodes fs ! d)" using n [OF il(2)] di by auto
    have "chain ?fs' (n_first_child_id (g_nodes fs ! d)) (zs @ q # ys)"
    proof (rule chain_unlink [OF cn' dis'])
      show "n_next_sibling_id (g_nodes ?fs' ! q) = n_next_sibling_id (g_nodes fs ! i)"
        using n [OF q(2)] dis' by auto
      show "n_next_sibling_id (g_nodes ?fs' ! x) = n_next_sibling_id (g_nodes fs ! x)" if "x \<in> set zs \<union> set ys" for x
        using n [of x] mem [OF that] that dis' by (auto simp: live_def)
    qed
    then have "tree ?fs' (ch(d := xs @ ys))"
      by (intro removed_tree [OF t i dl ch rm]) (use n snoc fcd in \<open>auto simp: live_def ch\<close>)
    then show thesis using that [OF u d rm] by (simp add: rem)
  qed
qed

subsection \<open>Resolution of paths\<close>

definition outcome :: "tmpfs \<Rightarrow> int \<Rightarrow> bool" where
  "outcome fs r \<longleftrightarrow> r = - ENOENT \<or> (\<exists>k. r = int k \<and> live fs k)"

lemma child_named_outcome: "tree fs ch \<Longrightarrow> live fs d \<Longrightarrow> outcome fs (child_named fs nm (ch d))"
  by (rule child_named_cases [of fs nm "ch d"]) (auto simp: outcome_def dest: tree_child)

lemma parent_or_root_live:
  assumes "tree fs ch" and "live fs d"
  obtains e where "parent_or_root fs (int d) = int e" "is_dir fs e" "d = 0 \<and> e = 0 \<or> n_parent_id (g_nodes fs ! d) = int e"
proof (cases "d = 0")
  case True
  then show thesis using that [of 0] treeD(2,3) [OF assms(1)] by (simp add: parent_or_root_def)
next
  case False
  then obtain e where "is_dir fs e" "n_parent_id (g_nodes fs ! d) = int e" using treeD(4) [OF assms] by blast
  then show thesis using that [of e] by (simp add: parent_or_root_def)
qed

lemma resolve_step_tree:
  assumes "tree fs ch" and "live fs d"
  obtains r where "resolve_step fs tok (int d) = Some r" "outcome fs r"
proof -
  obtain e where "parent_or_root fs (int d) = int e" "is_dir fs e" by (rule parent_or_root_live [OF assms])
  then have "\<exists>r. resolve_step fs tok (int d) = Some r \<and> outcome fs r"
    using child_named_outcome [OF assms, of tok] assms(2) lookup_child_tree [OF assms, of tok]
    by (auto simp: resolve_step_def outcome_def is_dir_live)
  then show thesis using that by blast
qed

lemma resolve_loop_tree:
  "tree fs ch \<Longrightarrow> live fs d \<Longrightarrow> \<exists>r. resolve_loop fs cursor (int d) = Some r \<and> outcome fs r"
proof (induction "length cursor" arbitrary: cursor d rule: less_induct)
  case less
  show ?case
  proof (cases "char_at cursor = NUL")
    case True
    then show ?thesis using less.prems by (auto simp: resolve_loop.simps [of fs cursor] outcome_def)
  next
    case False
    let ?tok = "take_token (MGCORE_NAME_MAX - 1) cursor"
    let ?rest = "skip_slashes (drop (length ?tok) cursor)"
    obtain r where r: "resolve_step fs ?tok (int d) = Some r" "outcome fs r" by (rule resolve_step_tree [OF less.prems])
    show ?thesis
    proof (cases "r < 0")
      case True
      then show ?thesis using False r by (simp add: resolve_loop.simps [of fs cursor] Let_def)
    next
      case nn: False
      then obtain k where k: "r = int k" "live fs k" using r(2) by (auto simp: outcome_def ENOENT_def)
      have "length ?rest < length cursor" by (rule resolve_shorter [OF False])
      from less.hyps [OF this less.prems(1) k(2)] show ?thesis
        using False r(1) k(1) by (simp add: resolve_loop.simps [of fs cursor] Let_def)
    qed
  qed
qed

lemma resolve_path_tree:
  assumes "tree fs ch"
  shows "\<exists>r. resolve_path path fs = Some r \<and> (r = - EINVAL \<or> outcome fs r)"
proof -
  have z: "live fs 0" using treeD(2) [OF assms] is_dir_live by blast
  then show ?thesis using resolve_loop_tree [OF assms z]
    by (auto simp: resolve_path_def outcome_def intro: exI [of _ 0])
qed

lemma take_token_append: "slash \<in> set x \<Longrightarrow> take_token n (x @ y) = take_token n x"
  by (induction n x rule: take_token.induct) auto

lemma length_take_token: "length (take_token n s) \<le> length s"
  by (induction n s rule: take_token.induct) auto

lemma take_token_whole: "slash \<notin> set s \<Longrightarrow> NUL \<notin> set s \<Longrightarrow> length s \<le> n \<Longrightarrow> take_token n s = s"
  by (induction n s rule: take_token.induct) auto

lemma skip_slashes_append: "slash \<notin> set leaf \<Longrightarrow> skip_slashes (x @ leaf) = skip_slashes x @ leaf"
  by (induction x) (auto simp: skip_slashes_def dropWhile_eq_self_iff intro: hd_in_set, cases leaf, auto)

text \<open>A path is a directory prefix that ends with a slash and a last component.\<close>

definition dir_prefix :: "string \<Rightarrow> bool" where
  "dir_prefix x \<longleftrightarrow> NUL \<notin> set x \<and> (x = [] \<or> last x = slash)"

definition component :: "string \<Rightarrow> bool" where
  "component leaf \<longleftrightarrow> leaf \<noteq> [] \<and> length leaf < 32 \<and> slash \<notin> set leaf \<and> NUL \<notin> set leaf \<and> leaf \<noteq> ''.'' \<and> leaf \<noteq> ''..''"

lemma dir_prefix_suffix: "dir_prefix (a @ b) \<Longrightarrow> dir_prefix b"
  by (auto simp: dir_prefix_def last_append split: if_splits)

lemma resolve_loop_Nil [simp]: "resolve_loop fs [] c = Some c"
  by (simp add: resolve_loop.simps [of fs "[]"] char_at_def)

lemma skip_slashes_suffix: "\<exists>a. s = a @ skip_slashes s"
  unfolding skip_slashes_def by (metis takeWhile_dropWhile_id)

lemma resolve_loop_append:
  "dir_prefix x \<Longrightarrow> slash \<notin> set leaf \<Longrightarrow>
   resolve_loop fs (x @ leaf) c =
     (case resolve_loop fs x c of None \<Rightarrow> None
      | Some c' \<Rightarrow> if x \<noteq> [] \<and> c' < 0 then Some c' else resolve_loop fs leaf c')"
proof (induction "length x" arbitrary: x c rule: less_induct)
  case less
  show ?case
  proof (cases "x = []")
    case True
    then show ?thesis by simp
  next
    case False
    then have sl: "slash \<in> set x" "char_at x \<noteq> NUL" "char_at (x @ leaf) \<noteq> NUL"
      using less.prems(1) last_in_set [of x] by (cases x; auto simp: dir_prefix_def char_at_def)+
    let ?tok = "take_token (MGCORE_NAME_MAX - 1) x"
    let ?rest = "skip_slashes (drop (length ?tok) x)"
    have tok: "take_token (MGCORE_NAME_MAX - 1) (x @ leaf) = ?tok" using sl(1) by (rule take_token_append)
    have rest: "skip_slashes (drop (length ?tok) (x @ leaf)) = ?rest @ leaf"
      using length_take_token [of "MGCORE_NAME_MAX - 1" x] less.prems(2) by (simp add: skip_slashes_append)
    have dp: "dir_prefix ?rest"
    proof -
      obtain a where "drop (length ?tok) x = a @ ?rest" using skip_slashes_suffix by blast
      then have "x = (take (length ?tok) x @ a) @ ?rest" by (metis append.assoc append_take_drop_id)
      then show ?thesis using less.prems(1) dir_prefix_suffix by metis
    qed
    have sh: "length ?rest < length x" by (rule resolve_shorter [OF sl(2)])
    note ih = less.hyps [OF sh dp less.prems(2)]
    show ?thesis
    proof (cases "resolve_step fs ?tok c")
      case None
      then show ?thesis using sl tok by (simp add: resolve_loop.simps [of fs x] resolve_loop.simps [of fs "x @ leaf"] Let_def)
    next
      case (Some r)
      have l: "resolve_loop fs x c = (if r < 0 then Some r else resolve_loop fs ?rest r)"
        using Some sl by (simp add: resolve_loop.simps [of fs x] Let_def)
      have r: "resolve_loop fs (x @ leaf) c = (if r < 0 then Some r else resolve_loop fs (?rest @ leaf) r)"
        using Some sl tok rest by (simp add: resolve_loop.simps [of fs "x @ leaf"] Let_def)
      show ?thesis
      proof (cases "r < 0")
        case False
        then show ?thesis using l r ih [of r] \<open>x \<noteq> []\<close>
          by (cases "?rest = []") (auto split: option.splits)
      qed (use l r \<open>x \<noteq> []\<close> in simp)
    qed
  qed
qed

lemma back_while_all: "(\<And>i. m \<le> i \<Longrightarrow> i < m + k \<Longrightarrow> P (path ! i)) \<Longrightarrow> back_while P path (m + k) = back_while P path m"
  by (induction k) auto

lemma split_parent_component:
  assumes "dir_prefix par" and "par \<noteq> []" and "component leaf" and "length par < 256"
  shows "split_parent (par @ leaf) = Some (par, leaf)"
proof -
  let ?p = "par @ leaf"
  have ps: "\<exists>as. par = as @ [slash]" using assms(1,2) by (metis append_butlast_last_id dir_prefix_def)
  obtain as where as: "par = as @ [slash]" using ps by blast
  obtain bs b where b: "leaf = bs @ [b]" "b \<noteq> slash" using assms(3) by (cases leaf rule: rev_cases) (auto simp: component_def)
  have len: "kstrlen ?p = length ?p"
    using assms(1,3) by (simp add: kstrlen_cstr cstr_id dir_prefix_def component_def)
  have l0: "back_while (\<lambda>c. c = slash) ?p (kstrlen ?p) = length ?p"
    unfolding len using b by (simp add: nth_append)
  have "back_while (\<lambda>c. c \<noteq> slash) ?p (length par + length leaf) = back_while (\<lambda>c. c \<noteq> slash) ?p (length par)"
  proof (rule back_while_all)
    fix i assume "length par \<le> i" "i < length par + length leaf"
    then have "?p ! i \<in> set leaf" by (auto simp: nth_append)
    then show "?p ! i \<noteq> slash" using assms(3) by (auto simp: component_def)
  qed
  also have "\<dots> = length par" by (simp add: as nth_append)
  finally have l1: "back_while (\<lambda>c. c \<noteq> slash) ?p (length ?p) = length par" by simp
  have leaf: "kstrlen leaf < 32" "cstr leaf = leaf"
    using assms(3) by (simp_all add: kstrlen_cstr cstr_id component_def)
  show ?thesis
    unfolding split_parent_def Let_def l0 l1
    using assms(2,4) leaf by (simp add: MGCORE_PATH_MAX_def MGCORE_NAME_MAX_def)
qed

lemma resolve_path_slash:
  assumes "char_at path = slash"
  shows "resolve_path path fs = resolve_loop fs (skip_slashes path) 0"
proof (cases "char_at (tl path) = NUL")
  case True
  obtain q where q: "path = slash # q" using assms by (cases path) (auto simp: char_at_def)
  then have "char_at q = NUL" using True by simp
  then have "char_at (skip_slashes path) = NUL" using q
    by (cases q) (auto simp: skip_slashes_def char_at_def)
  then show ?thesis using assms True by (simp add: resolve_path_def resolve_loop.simps [of fs "skip_slashes path"])
qed (use assms in \<open>simp add: resolve_path_def\<close>)

lemma resolve_loop_component:
  assumes "component leaf"
  shows "resolve_loop fs leaf c = resolve_step fs leaf c"
proof -
  have t: "take_token (MGCORE_NAME_MAX - 1) leaf = leaf"
    using assms by (intro take_token_whole) (auto simp: component_def MGCORE_NAME_MAX_def)
  have "char_at leaf \<noteq> NUL" using assms by (cases leaf) (auto simp: component_def char_at_def)
  then show ?thesis
    unfolding resolve_loop.simps [of fs leaf c] Let_def t
    by (simp add: skip_slashes_def split: option.splits)
qed

lemma resolve_step_component:
  assumes "component leaf"
  shows "resolve_step fs leaf c = lookup_child c leaf fs"
proof -
  have "char_at leaf \<noteq> NUL" using assms by (cases leaf) (auto simp: component_def char_at_def)
  moreover have "cstr leaf = leaf" using assms by (simp add: component_def cstr_id)
  ultimately show ?thesis using assms by (simp add: resolve_step_def kstrcmp_zero_iff component_def)
qed

lemma resolve_path_component:
  assumes "tree fs ch" and "dir_prefix par" "char_at par = slash" "component leaf"
    and r: "resolve_path par fs = Some r"
  shows "resolve_path (par @ leaf) fs = (if r < 0 then Some r else lookup_child r leaf fs)"
proof -
  have sl: "char_at (par @ leaf) = slash" "slash \<notin> set leaf" using assms(3,4) by (auto simp: char_at_def component_def split: list.splits)
  have dp: "dir_prefix (skip_slashes par)"
    using assms(2) dir_prefix_suffix skip_slashes_suffix by metis
  have l: "resolve_loop fs (skip_slashes par) 0 = Some r" using r resolve_path_slash [OF assms(3)] by simp
  have "resolve_path (par @ leaf) fs = resolve_loop fs (skip_slashes par @ leaf) 0"
    by (simp add: resolve_path_slash [OF sl(1)] skip_slashes_append sl(2))
  also have "\<dots> = (if skip_slashes par \<noteq> [] \<and> r < 0 then Some r else resolve_loop fs leaf r)"
    by (simp add: resolve_loop_append [OF dp sl(2)] l)
  finally show ?thesis
    using l by (auto simp: resolve_loop_component [OF assms(4)] resolve_step_component [OF assms(4)])
qed

text \<open>Creating a node keeps every resolution that succeeded.\<close>

lemma resolve_step_mono:
  assumes t: "tree fs ch" and t': "tree fs' ch'" and c: "live fs c"
    and lv: "\<And>j. live fs j \<Longrightarrow> live fs' j \<and> n_parent_id (g_nodes fs' ! j) = n_parent_id (g_nodes fs ! j)"
    and look: "\<And>tok k. child_named fs tok (ch c) = int k \<Longrightarrow> child_named fs' tok (ch' c) = int k"
    and r: "resolve_step fs tok (int c) = Some r" "r \<ge> 0"
  shows "resolve_step fs' tok (int c) = Some r"
proof -
  have p: "parent_or_root fs' (int c) = parent_or_root fs (int c)" using lv [OF c] by (simp add: parent_or_root_def)
  have c': "live fs' c" using lv [OF c] by simp
  have "child_named fs' tok (ch' c) = r" if "child_named fs tok (ch c) = r"
    using look [of tok "nat r"] that r(2) by simp
  then show ?thesis
    using r lookup_child_tree [OF t c] lookup_child_tree [OF t' c'] by (auto simp: resolve_step_def p split: if_splits)
qed

lemma resolve_loop_mono:
  assumes t: "tree fs ch" and t': "tree fs' ch'"
    and lv: "\<And>j. live fs j \<Longrightarrow> live fs' j \<and> n_parent_id (g_nodes fs' ! j) = n_parent_id (g_nodes fs ! j)"
    and look: "\<And>c tok k. live fs c \<Longrightarrow> child_named fs tok (ch c) = int k \<Longrightarrow> child_named fs' tok (ch' c) = int k"
  shows "live fs c \<Longrightarrow> resolve_loop fs cursor (int c) = Some r \<Longrightarrow> r \<ge> 0 \<Longrightarrow> resolve_loop fs' cursor (int c) = Some r"
proof (induction "length cursor" arbitrary: cursor c rule: less_induct)
  case less
  show ?case
  proof (cases "char_at cursor = NUL")
    case True
    then show ?thesis using less.prems by (simp add: resolve_loop.simps [of _ cursor])
  next
    case False
    let ?tok = "take_token (MGCORE_NAME_MAX - 1) cursor"
    let ?rest = "skip_slashes (drop (length ?tok) cursor)"
    obtain q where q: "resolve_step fs ?tok (int c) = Some q" "outcome fs q" by (rule resolve_step_tree [OF t less.prems(1)])
    have nn: "q \<ge> 0" using less.prems(2,3) q(1) False by (auto simp: resolve_loop.simps [of fs cursor] Let_def split: if_splits)
    then obtain k where k: "q = int k" "live fs k" using q(2) by (auto simp: outcome_def ENOENT_def)
    have "resolve_step fs' ?tok (int c) = Some q"
      by (rule resolve_step_mono [OF t t' less.prems(1) lv look [OF less.prems(1)] q(1) nn])
    moreover have "resolve_loop fs ?rest (int k) = Some r"
      using less.prems(2) q(1) False k(1) by (simp add: resolve_loop.simps [of fs cursor] Let_def)
    ultimately show ?thesis
      using less.hyps [OF resolve_shorter [OF False] k(2) _ less.prems(3)] k(1) False
      by (simp add: resolve_loop.simps [of fs' cursor] Let_def)
  qed
qed

lemma resolve_path_mono:
  assumes t: "tree fs ch" and t': "tree fs' ch'"
    and lv: "\<And>j. live fs j \<Longrightarrow> live fs' j \<and> n_parent_id (g_nodes fs' ! j) = n_parent_id (g_nodes fs ! j)"
    and look: "\<And>c tok k. live fs c \<Longrightarrow> child_named fs tok (ch c) = int k \<Longrightarrow> child_named fs' tok (ch' c) = int k"
    and r: "resolve_path path fs = Some r" "r \<ge> 0"
  shows "resolve_path path fs' = Some r"
proof -
  have z: "live fs 0" using treeD(2) [OF t] is_dir_live by blast
  show ?thesis
  proof (cases "char_at path = slash")
    case True
    then have l: "resolve_loop fs (skip_slashes path) (int 0) = Some r" using r(1) resolve_path_slash by simp
    have "resolve_loop fs' (skip_slashes path) (int 0) = Some r"
    proof (rule resolve_loop_mono [OF t t' _ _ z l r(2)])
      show "live fs' j \<and> n_parent_id (g_nodes fs' ! j) = n_parent_id (g_nodes fs ! j)" if "live fs j" for j by (rule lv [OF that])
      show "child_named fs' tok (ch' c) = int k" if "live fs c" "child_named fs tok (ch c) = int k" for c tok k
        by (rule look [OF that])
    qed
    then show ?thesis using resolve_path_slash [OF True, of fs'] by simp
  qed (use r in \<open>auto simp: resolve_path_def EINVAL_def\<close>)
qed

subsection \<open>Creating and removing by path\<close>

lemma component_name: "component leaf \<Longrightarrow> cstr leaf = leaf \<and> take 31 (cstr leaf) = leaf"
  by (simp add: component_def cstr_id)

lemma create_path_new:
  assumes t: "tree fs ch" and par: "dir_prefix par" "char_at par = slash" "length par < 256" and leaf: "component leaf"
    and ty: "ty \<noteq> VFS_NODE_NONE" and pd: "resolve_path par fs = Some (int d)" "is_dir fs d"
    and miss: "resolve_path (par @ leaf) fs = Some r" "r < 0"
    and cr: "tmpfs_create_path (par @ leaf) ty mode fs = Some (nid, fs')" "nid \<ge> 0"
  obtains i where "nid = int i" "\<not> live fs i" "i < MGCORE_MAX_NODES" "tree fs' (ch(d := i # ch d, i := []))"
    "g_data_arena fs' = g_data_arena fs" "g_data_offset fs' = g_data_offset fs"
    "g_nodes fs' ! i = new_node i d leaf ty mode (n_first_child_id (g_nodes fs ! d))"
    "\<And>j. live fs j \<Longrightarrow> g_nodes fs' ! j = (if j = d then (g_nodes fs ! d)\<lparr>n_first_child_id := int i\<rparr> else g_nodes fs ! j)"
    "resolve_path (par @ leaf) fs' = Some (int i)"
    "\<And>q k. resolve_path q fs = Some k \<Longrightarrow> k \<ge> 0 \<Longrightarrow> resolve_path q fs' = Some k"
proof -
  note td = treeD [OF t] and dl = is_dir_live [OF pd(2)]
  have pn: "par \<noteq> []" using par(2) by (auto simp: char_at_def)
  have sl: "char_at (par @ leaf) = slash" "char_at (tl (par @ leaf)) \<noteq> NUL"
  proof -
    show "char_at (par @ leaf) = slash" using par(2) by (auto simp: char_at_def split: list.splits)
    obtain ps where "par = slash # ps" using par(2) by (cases par) (auto simp: char_at_def)
    then show "char_at (tl (par @ leaf)) \<noteq> NUL" using par(1) leaf
      by (cases ps; cases leaf) (auto simp: char_at_def dir_prefix_def component_def)
  qed
  have mk: "tmpfs_create_path (par @ leaf) ty mode fs = Some (create_child (int d) leaf ty mode fs)"
    using sl miss pd(2) unfolding tmpfs_create_path_def split_parent_component [OF par(1) pn leaf par(3)]
    by (simp add: pd(1) is_dir_def)
  have none: "child_named fs leaf (ch d) < 0"
    using resolve_path_component [OF t par(1,2) leaf pd(1)] miss lookup_child_tree [OF t dl] by simp
  show thesis
  proof (rule create_child_cases [OF td(1) dl, of leaf ty mode])
    assume "create_child (int d) leaf ty mode fs = (- ENOSPC, fs)"
    then show thesis using mk cr by (simp add: ENOSPC_def)
  next
    fix i fs1 assume i: "i < MGCORE_MAX_NODES" "\<not> live fs i" "i \<noteq> d" and c: "create_child (int d) leaf ty mode fs = (int i, fs1)"
      and l: "length (g_nodes fs1) = MGCORE_MAX_NODES" and a: "g_data_arena fs1 = g_data_arena fs" "g_data_offset fs1 = g_data_offset fs"
      and n: "\<And>j. j < MGCORE_MAX_NODES \<Longrightarrow> g_nodes fs1 ! j =
       (if j = i then new_node i d leaf ty mode (n_first_child_id (g_nodes fs ! d))
        else if j = d then (g_nodes fs ! d)\<lparr>n_first_child_id := int i\<rparr> else g_nodes fs ! j)"
    have eq: "fs' = fs1" "nid = int i" using mk cr(1) c by auto
    have nm: "n_name (g_nodes fs1 ! i) = leaf" using n [OF i(1)] leaf by (simp add: new_node_def component_def cstr_id)
    have fresh: "n_name (g_nodes fs ! j) \<noteq> take 31 (cstr leaf)" if "j \<in> set (ch d)" for j
    proof (rule child_named_cases [of fs leaf "ch d"])
      assume "\<And>i. i \<in> set (ch d) \<Longrightarrow> cstr (n_name (g_nodes fs ! i)) \<noteq> cstr leaf"
      then show ?thesis using that component_name [OF leaf] by metis
    qed (use none in simp)
    have t': "tree fs1 (ch(d := i # ch d, i := []))"
      using create_child_tree [OF t pd(2) ty i l n] fresh by blast
    let ?ch = "ch(d := i # ch d, i := [])"
    have lv: "live fs1 j \<and> n_parent_id (g_nodes fs1 ! j) = n_parent_id (g_nodes fs ! j)" if "live fs j" for j
      using n [of j] that i(2) by (auto simp: live_def)
    have old: "n_name (g_nodes fs1 ! j) = n_name (g_nodes fs ! j)" if "live fs j" for j
      using n [of j] that i(2) by (auto simp: live_def)
    have same: "child_named fs1 tok (ch c) = child_named fs tok (ch c)" if "live fs c" for c tok
    proof -
      have "find (\<lambda>i. cstr (n_name (g_nodes fs1 ! i)) = cstr tok) (ch c) = find (\<lambda>i. cstr (n_name (g_nodes fs ! i)) = cstr tok) (ch c)"
        using old tree_child(1) [OF t that] by (intro find_cong) auto
      then show ?thesis by (simp only: child_named_def)
    qed
    have look: "child_named fs1 tok (?ch c) = int k" if "live fs c" "child_named fs tok (ch c) = int k" for c tok k
    proof (cases "c = d")
      case True
      have "cstr (n_name (g_nodes fs1 ! i)) \<noteq> cstr tok"
        using that True none nm component_name [OF leaf] by (auto simp: child_named_def cong: option.case_cong)
      then have "child_named fs1 tok (i # ch d) = child_named fs1 tok (ch d)" by (simp add: child_named_def)
      then show ?thesis using True that same i(3) by simp
    next
      case False
      then show ?thesis using that same i(2) by auto
    qed
    have keep: "resolve_path q fs1 = Some k" if "resolve_path q fs = Some k" "k \<ge> 0" for q k
      by (rule resolve_path_mono [OF t t' lv look that])
    have "live fs1 d" using lv dl by simp
    then have "lookup_child (int d) leaf fs1 = Some (int i)"
      using lookup_child_tree [OF t'] i(3) nm by (simp add: child_named_def)
    moreover have "resolve_path par fs1 = Some (int d)" using keep [OF pd(1)] by simp
    ultimately have "resolve_path (par @ leaf) fs1 = Some (int i)"
      using resolve_path_component [OF t' par(1,2) leaf] by simp
    moreover have "g_nodes fs1 ! j = (if j = d then (g_nodes fs ! d)\<lparr>n_first_child_id := int i\<rparr> else g_nodes fs ! j)"
      if "live fs j" for j using n [of j] that i(2) by (auto simp: live_def)
    moreover have "g_nodes fs1 ! i = new_node i d leaf ty mode (n_first_child_id (g_nodes fs ! d))" using n [OF i(1)] by simp
    ultimately show thesis using that [of i] eq i t' a keep by blast
  qed
qed

lemma take_token_slash: "slash \<notin> set (take_token n s)"
  by (induction n s rule: take_token.induct) auto

lemma resolve_loop_removed:
  assumes t: "tree fs ch" and t': "tree fs' (ch(d := remove1 i (ch d)))" and i: "live fs i" "i \<noteq> 0" "ch i = []"
    and rm: "removed fs fs' i" and d: "live fs d" "i \<in> set (ch d)"
  shows "live fs c \<Longrightarrow> c \<noteq> i \<Longrightarrow> resolve_loop fs cursor (int c) = Some r \<Longrightarrow>
    resolve_loop fs' cursor (int c) = Some (- ENOENT) \<or> resolve_loop fs' cursor (int c) = Some r \<and> r \<noteq> int i"
proof (induction "length cursor" arbitrary: cursor c rule: less_induct)
  case less
  show ?case
  proof (cases "char_at cursor = NUL")
    case True
    then show ?thesis using less.prems by (auto simp: resolve_loop.simps [of _ cursor])
  next
    case False
    let ?tok = "take_token (MGCORE_NAME_MAX - 1) cursor"
    let ?rest = "skip_slashes (drop (length ?tok) cursor)"
    note td = treeD [OF t]
    have c': "live fs' c" using removed_live [OF rm] less.prems(1,2) by simp
    obtain q where q: "resolve_step fs ?tok (int c) = Some q" "outcome fs q" by (rule resolve_step_tree [OF t less.prems(1)])
    have names: "n_name (g_nodes fs' ! j) = n_name (g_nodes fs ! j)" if "live fs' j" for j
      using removedD(4) [OF rm, of j] that removed_live [OF rm] by (auto simp: live_def)
    have st: "resolve_step fs' ?tok (int c) = Some (if q = int i then - ENOENT else q)"
    proof -
      let ?ch = "ch(d := remove1 i (ch d))"
      have sub: "j \<in> set (?ch c) \<longleftrightarrow> j \<in> set (ch c) \<and> j \<noteq> i" for j
      proof (cases "c = d")
        case False
        then have "i \<notin> set (ch c)" using tree_child(2) [OF t d] tree_child(2) [OF t less.prems(1), of i] by auto
        then show ?thesis using False by auto
      qed (use td(8) [OF d(1)] in auto)
      have par: "parent_or_root fs' (int c) = parent_or_root fs (int c)"
        using removedD(2) [OF rm] less.prems(1,2) by (simp add: parent_or_root_def live_def)
      obtain e where e: "parent_or_root fs (int c) = int e" "c = 0 \<and> e = 0 \<or> n_parent_id (g_nodes fs ! c) = int e"
        by (rule parent_or_root_live [OF t less.prems(1)])
      have "e \<noteq> i" using e(2) i td(9) [OF i(1)] less.prems(1) by auto
      moreover have "child_named fs' ?tok (?ch c) = (if child_named fs ?tok (ch c) = int i then - ENOENT else child_named fs ?tok (ch c))"
      proof (rule child_named_cases [of fs ?tok "ch c"])
        assume n: "child_named fs ?tok (ch c) = - ENOENT" "\<And>i. i \<in> set (ch c) \<Longrightarrow> cstr (n_name (g_nodes fs ! i)) \<noteq> cstr ?tok"
        show ?thesis
        proof (rule child_named_cases [of fs' ?tok "?ch c"])
          assume "child_named fs' ?tok (?ch c) = - ENOENT"
          then show ?thesis using n(1) by (simp add: ENOENT_def)
        next
          fix j assume j: "j \<in> set (?ch c)" "cstr (n_name (g_nodes fs' ! j)) = cstr ?tok"
          then show ?thesis using n(2) [of j] sub [of j] names [OF tree_child(1) [OF t' c' j(1)]] by simp
        qed
      next
        fix k assume k: "k \<in> set (ch c)" "child_named fs ?tok (ch c) = int k" "cstr (n_name (g_nodes fs ! k)) = cstr ?tok"
        have uniq: "j = k" if "j \<in> set (ch c)" "cstr (n_name (g_nodes fs ! j)) = cstr ?tok" for j
        proof -
          have "n_name (g_nodes fs ! j) = n_name (g_nodes fs ! k)"
            using that k td(6) tree_child(1) [OF t less.prems(1)] by metis
          moreover have "slash \<notin> set (cstr ?tok)" using take_token_slash by (metis cstr_def set_takeWhileD)
          then have "slash \<notin> set (n_name (g_nodes fs ! j))" using that td(6) tree_child(1) [OF t less.prems(1)] by metis
          ultimately show ?thesis using td(10) [OF less.prems(1)] that(1) k(1) by blast
        qed
        show ?thesis
        proof (rule child_named_cases [of fs' ?tok "?ch c"])
          assume a: "child_named fs' ?tok (?ch c) = - ENOENT" "\<And>i. i \<in> set (?ch c) \<Longrightarrow> cstr (n_name (g_nodes fs' ! i)) \<noteq> cstr ?tok"
          have "k = i" using a(2) [of k] k sub names tree_child(1) [OF t' c', of k] by auto
          then show ?thesis using a(1) k(2) by simp
        next
          fix j assume j: "j \<in> set (?ch c)" "child_named fs' ?tok (?ch c) = int j" "cstr (n_name (g_nodes fs' ! j)) = cstr ?tok"
          then have "j = k" "j \<noteq> i" using uniq sub names tree_child(1) [OF t' c', of j] by auto
          then show ?thesis using j(2) k(2) by simp
        qed
      qed
      ultimately show ?thesis
        using q(1) lookup_child_tree [OF t less.prems(1)] lookup_child_tree [OF t' c'] less.prems(2) e(1)
        by (auto simp: resolve_step_def par split: if_splits)
    qed
    show ?thesis
    proof (cases "q < 0 \<or> q = int i")
      case True
      then show ?thesis using st False q less.prems(3)
        by (auto simp: resolve_loop.simps [of _ cursor] Let_def ENOENT_def outcome_def split: if_splits)
    next
      case qs: False
      then obtain k where k: "q = int k" "live fs k" "k \<noteq> i" using q(2) by (auto simp: outcome_def ENOENT_def)
      have "resolve_loop fs ?rest (int k) = Some r"
        using less.prems(3) q(1) False k(1) by (simp add: resolve_loop.simps [of fs cursor] Let_def)
      then show ?thesis
        using less.hyps [OF resolve_shorter [OF False] k(2,3)] st k False by (simp add: resolve_loop.simps [of fs' cursor] Let_def)
    qed
  qed
qed

lemma remove_path_ok:
  assumes t: "tree fs ch" and rm: "tmpfs_remove_path path want_dir fs = Some (0, fs')"
  obtains i d where "resolve_path path fs = Some (int i)" "live fs i" "i \<noteq> 0" "removed fs fs' i"
    "is_dir fs d" "i \<in> set (ch d)" "tree fs' (ch(d := remove1 i (ch d)))" "want_dir \<longleftrightarrow> is_dir fs i"
    "\<And>q r. resolve_path q fs = Some r \<Longrightarrow>
       resolve_path q fs' = Some (- ENOENT) \<or> resolve_path q fs' = Some r \<and> r \<noteq> int i"
proof -
  note td = treeD [OF t]
  obtain r where r: "resolve_path path fs = Some r" "r = - EINVAL \<or> outcome fs r" using resolve_path_tree [OF t] by blast
  have "r > 0" using rm r(1) by (auto simp: tmpfs_remove_path_def EINVAL_def split: if_splits)
  then obtain i where i: "r = int i" "live fs i" "i \<noteq> 0" using r(2) by (auto simp: outcome_def EINVAL_def ENOENT_def)
  have k: "want_dir \<longleftrightarrow> is_dir fs i" "is_dir fs i \<longrightarrow> n_first_child_id (g_nodes fs ! i) < 0"
    using rm r(1) i by (auto simp: tmpfs_remove_path_def is_dir_def live_def ENOTDIR_def EISDIR_def ENOTEMPTY_def split: if_splits)
  have "ch i = []"
  proof (cases "is_dir fs i")
    case True
    then show ?thesis using k(2) td(7) [OF i(2)] by (cases "ch i") auto
  next
    case False
    have "x \<notin> set (ch i)" for x
    proof
      assume x: "x \<in> set (ch i)"
      note c = tree_child [OF t i(2) x]
      obtain d where "is_dir fs d" "n_parent_id (g_nodes fs ! x) = int d" using td(4) [OF c(1,3)] by blast
      then show False using False c(2) by simp
    qed
    then show ?thesis by (cases "ch i") auto
  qed
  note ic = this
  obtain fs1 d where u: "unlink_node (int i) fs = Some fs1" "is_dir fs d" "n_parent_id (g_nodes fs ! i) = int d"
    "removed fs (upd_node (int i) (\<lambda>n. zero_node) fs1) i"
    "tree (upd_node (int i) (\<lambda>n. zero_node) fs1) (ch(d := remove1 i (ch d)))" by (rule remove_node_tree [OF t i(2,3) ic])
  have eq: "fs' = upd_node (int i) (\<lambda>n. zero_node) fs1"
    using rm r(1) i u(1) by (auto simp: tmpfs_remove_path_def EINVAL_def ENOTDIR_def EISDIR_def ENOTEMPTY_def split: if_splits)
  have dl: "live fs d" by (rule is_dir_live [OF u(2)])
  have id: "i \<in> set (ch d)" using td(9) [OF dl] i(2) u(3) by simp
  have z: "live fs 0" using td(2) is_dir_live by blast
  have "resolve_path q fs' = Some (- ENOENT) \<or> resolve_path q fs' = Some r \<and> r \<noteq> int i" if "resolve_path q fs = Some r" for q r
  proof (cases "char_at q = slash")
    case True
    have "resolve_loop fs (skip_slashes q) (int 0) = Some r" using that resolve_path_slash [OF True] by simp
    from resolve_loop_removed [OF t _ i(2,3) ic _ dl id z _ this, of fs'] u(4,5) eq i(3)
    show ?thesis using resolve_path_slash [OF True, of fs'] by simp
  qed (use that in \<open>auto simp: resolve_path_def EINVAL_def\<close>)
  then show thesis using that [of i d] r(1) i u(2,4,5) eq id k(1) by blast
qed

end
