(* ===== verification/Tmpfs_Data.thy ===== *)
theory Tmpfs_Data
  imports Tmpfs
begin

text \<open>
  The storage side of \<^verbatim>\<open>src/kernel/tmpfs.c\<close>: allocation of blocks in the arena, the contents of files as
  lists of bytes, reading and writing; then the invariant of the whole file system, its preservation
  by every operation, and the properties of creation, removal, writing and reading by path.
\<close>

subsection \<open>Storage\<close>

lemma low_masks:
  "(ucast (NOT 15 :: u32) :: u64) = mask 32 AND NOT (mask 4)" "(ucast (NOT 255 :: u32) :: u64) = mask 32 AND NOT (mask 8)"
  by (simp_all add: mask_eq_exp_minus_1)

lemma unat_align_masks:
  assumes "unat w + 255 < 2 ^ 32"
  shows "unat ((w + 15) AND ucast (NOT 15 :: u32) :: u64) = (unat w + 15) div 16 * 16"
    and "unat ((w + 255) AND ucast (NOT 255 :: u32) :: u64) = (unat w + 255) div 256 * 256"
proof -
  have "unat (w + 15) = unat w + 15" "unat (w + 255) = unat w + 255"
    using assms by (simp_all add: unat_word_ariths)
  then show "unat ((w + 15) AND ucast (NOT 15 :: u32) :: u64) = (unat w + 15) div 16 * 16"
    "unat ((w + 255) AND ucast (NOT 255 :: u32) :: u64) = (unat w + 255) div 256 * 256"
    using assms unfolding low_masks unat_and_low32 by simp_all
qed

lemma alloc_storage_cases:
  assumes "unat sz + 255 < 2 ^ 32" and "unat (g_data_offset fs) \<le> TMPFS_DATA_ARENA_SIZE"
  shows "alloc_storage sz fs = None \<and> unat (g_data_offset fs) + (unat sz + 15) div 16 * 16 > TMPFS_DATA_ARENA_SIZE \<or>
    (\<exists>fs'. alloc_storage sz fs = Some (g_data_offset fs, fs') \<and> g_nodes fs' = g_nodes fs \<and> g_data_arena fs' = g_data_arena fs \<and>
      unat (g_data_offset fs') = unat (g_data_offset fs) + (unat sz + 15) div 16 * 16 \<and>
      unat (g_data_offset fs') \<le> TMPFS_DATA_ARENA_SIZE)"
proof -
  let ?al = "(sz + 15) AND ucast (NOT 15 :: u32) :: u64"
  note al = unat_align_masks(1) [OF assms(1)]
  have "(unat sz + 15) div 16 * 16 \<le> unat sz + 15" by simp
  then have sum: "unat (g_data_offset fs + ?al) = unat (g_data_offset fs) + (unat sz + 15) div 16 * 16"
    using assms al by (simp add: unat_word_ariths TMPFS_DATA_ARENA_SIZE_def)
  have "unat (of_nat TMPFS_DATA_ARENA_SIZE :: u64) = TMPFS_DATA_ARENA_SIZE" by (simp add: TMPFS_DATA_ARENA_SIZE_def)
  then show ?thesis using sum by (auto simp: alloc_storage_def Let_def word_less_nat_alt not_less)
qed

definition arena_alloc :: "nat \<Rightarrow> tmpfs \<Rightarrow> (nat \<times> tmpfs) option" where
  "arena_alloc n fs = map_option (\<lambda>(a, fs'). (unat a, fs')) (alloc_storage (of_nat n) fs)"

interpretation arena: bump_allocator "\<lambda>fs. unat (g_data_offset fs)" TMPFS_DATA_ARENA_SIZE "\<lambda>n. n + 255 < 2 ^ 32"
  "\<lambda>fs. unat (g_data_offset fs) \<le> TMPFS_DATA_ARENA_SIZE" arena_alloc
proof
  fix n fs a fs'
  assume off: "unat (g_data_offset fs) \<le> TMPFS_DATA_ARENA_SIZE" and n: "n + 255 < 2 ^ 32" and al: "arena_alloc n fs = Some (a, fs')"
  have u: "unat (of_nat n :: u64) = n" using n by (simp add: unat_of_nat)
  have le: "n \<le> (n + 15) div 16 * 16" using div_mult_mod_eq [of "n + 15" 16] mod_less_divisor [of 16 "n + 15"] by linarith
  show "a = unat (g_data_offset fs) \<and> a + n \<le> unat (g_data_offset fs')" "unat (g_data_offset fs') \<le> TMPFS_DATA_ARENA_SIZE"
    using alloc_storage_cases [of "of_nat n" fs] off n u al le by (auto simp: arena_alloc_def)
qed

text \<open>
  The storage invariant: the block of every node lies in the used part of the arena, blocks of
  different nodes are disjoint, and bytes that no write has reached are zero.
\<close>

definition block :: "vfs_node \<Rightarrow> nat set" where
  "block n = (case n_data n of None \<Rightarrow> {} | Some a \<Rightarrow> {unat a ..< unat a + unat (n_capacity n)})"

definition storage :: "tmpfs \<Rightarrow> bool" where
  "storage fs \<longleftrightarrow> unat (g_data_offset fs) \<le> TMPFS_DATA_ARENA_SIZE \<and>
     (\<forall>a \<ge> unat (g_data_offset fs). g_data_arena fs a = 0) \<and>
     (\<forall>i. live fs i \<longrightarrow> (case n_data (g_nodes fs ! i) of
          None \<Rightarrow> n_size (g_nodes fs ! i) = 0 \<and> n_capacity (g_nodes fs ! i) = 0
        | Some a \<Rightarrow> unat a + unat (n_capacity (g_nodes fs ! i)) \<le> unat (g_data_offset fs) \<and>
            unat (n_size (g_nodes fs ! i)) \<le> unat (n_capacity (g_nodes fs ! i)) \<and>
            (\<forall>k. unat (n_size (g_nodes fs ! i)) \<le> k \<longrightarrow> k < unat (n_capacity (g_nodes fs ! i)) \<longrightarrow>
               g_data_arena fs (unat a + k) = 0))) \<and>
     (\<forall>i j. live fs i \<longrightarrow> live fs j \<longrightarrow> i \<noteq> j \<longrightarrow> block (g_nodes fs ! i) \<inter> block (g_nodes fs ! j) = {})"

definition content :: "tmpfs \<Rightarrow> nat \<Rightarrow> u8 list" where
  "content fs i = (case n_data (g_nodes fs ! i) of None \<Rightarrow> []
     | Some a \<Rightarrow> map (g_data_arena fs) [unat a ..< unat a + unat (n_size (g_nodes fs ! i))])"

lemma storageD:
  assumes "storage fs"
  shows "unat (g_data_offset fs) \<le> TMPFS_DATA_ARENA_SIZE" "unat (g_data_offset fs) \<le> a \<Longrightarrow> g_data_arena fs a = 0"
    "live fs i \<Longrightarrow> n_data (g_nodes fs ! i) = None \<Longrightarrow> n_size (g_nodes fs ! i) = 0 \<and> n_capacity (g_nodes fs ! i) = 0"
    "live fs i \<Longrightarrow> n_data (g_nodes fs ! i) = Some b \<Longrightarrow> unat b + unat (n_capacity (g_nodes fs ! i)) \<le> unat (g_data_offset fs)"
    "live fs i \<Longrightarrow> n_data (g_nodes fs ! i) = Some b \<Longrightarrow> unat (n_size (g_nodes fs ! i)) \<le> unat (n_capacity (g_nodes fs ! i))"
    "live fs i \<Longrightarrow> n_data (g_nodes fs ! i) = Some b \<Longrightarrow> unat (n_size (g_nodes fs ! i)) \<le> k \<Longrightarrow>
       k < unat (n_capacity (g_nodes fs ! i)) \<Longrightarrow> g_data_arena fs (unat b + k) = 0"
    "live fs i \<Longrightarrow> live fs j \<Longrightarrow> i \<noteq> j \<Longrightarrow> block (g_nodes fs ! i) \<inter> block (g_nodes fs ! j) = {}"
  using assms unfolding storage_def by (auto split: option.splits)

lemma storageI:
  assumes "unat (g_data_offset fs) \<le> TMPFS_DATA_ARENA_SIZE" "\<And>a. unat (g_data_offset fs) \<le> a \<Longrightarrow> g_data_arena fs a = 0"
    "\<And>i. live fs i \<Longrightarrow> n_data (g_nodes fs ! i) = None \<Longrightarrow> n_size (g_nodes fs ! i) = 0 \<and> n_capacity (g_nodes fs ! i) = 0"
    "\<And>i b. live fs i \<Longrightarrow> n_data (g_nodes fs ! i) = Some b \<Longrightarrow> unat b + unat (n_capacity (g_nodes fs ! i)) \<le> unat (g_data_offset fs)"
    "\<And>i b. live fs i \<Longrightarrow> n_data (g_nodes fs ! i) = Some b \<Longrightarrow> unat (n_size (g_nodes fs ! i)) \<le> unat (n_capacity (g_nodes fs ! i))"
    "\<And>i b k. live fs i \<Longrightarrow> n_data (g_nodes fs ! i) = Some b \<Longrightarrow> unat (n_size (g_nodes fs ! i)) \<le> k \<Longrightarrow>
       k < unat (n_capacity (g_nodes fs ! i)) \<Longrightarrow> g_data_arena fs (unat b + k) = 0"
    "\<And>i j. live fs i \<Longrightarrow> live fs j \<Longrightarrow> i \<noteq> j \<Longrightarrow> block (g_nodes fs ! i) \<inter> block (g_nodes fs ! j) = {}"
  shows "storage fs"
  using assms unfolding storage_def by (simp split: option.split)

lemma content_length: "storage fs \<Longrightarrow> live fs i \<Longrightarrow> length (content fs i) = unat (n_size (g_nodes fs ! i))"
  using storageD(3) by (fastforce simp: content_def split: option.splits)

lemma storage_size:
  assumes "storage fs" and "live fs i"
  shows "length (content fs i) \<le> TMPFS_DATA_ARENA_SIZE"
  using content_length [OF assms] storageD(1,3,4,5) [OF assms(1)] assms(2) by (cases "n_data (g_nodes fs ! i)") fastforce+

lemma block_content:
  assumes "storage fs" and "live fs i"
    and "\<And>a. a \<in> block (g_nodes fs ! i) \<Longrightarrow> m a = g_data_arena fs a"
  shows "content (fs\<lparr>g_data_arena := m\<rparr>) i = content fs i"
  using assms(3) storageD(5) [OF assms(1,2)] by (auto simp: content_def block_def split: option.splits)

subsection \<open>Reading and writing\<close>

definition is_file :: "tmpfs \<Rightarrow> nat \<Rightarrow> bool" where
  "is_file fs i \<longleftrightarrow> i < MGCORE_MAX_NODES \<and> n_type (g_nodes fs ! i) = VFS_NODE_FILE"

lemma is_file_live: "is_file fs i \<Longrightarrow> live fs i"
  by (auto simp: is_file_def live_def)

lemma get_node_file: "is_file fs i \<Longrightarrow> tmpfs_get_node (int i) fs = Some (g_nodes fs ! i)"
  by (simp add: tmpfs_get_node_def is_file_def)

lemma put_bytes_apply:
  "put_bytes d bs m x = (if d \<le> x \<and> x < d + length bs then bs ! (x - d) else m x)"
proof (induction bs arbitrary: d m)
  case (Cons b bs)
  have "x - d = Suc (x - Suc d)" if "Suc d \<le> x" using that by simp
  then show ?case using Cons by (auto simp: less_Suc_eq_le Suc_le_eq)
qed auto

text \<open>Overwriting a list from a position on, with zeros between its end and the position.\<close>

definition overwrite :: "u8 list \<Rightarrow> nat \<Rightarrow> u8 list \<Rightarrow> u8 list" where
  "overwrite xs off bs = take off (xs @ replicate (off - length xs) 0) @ bs @ drop (off + length bs) xs"

lemma length_overwrite: "length (overwrite xs off bs) = max (length xs) (off + length bs)"
  by (auto simp: overwrite_def)

lemma nth_overwrite:
  assumes "k < max (length xs) (off + length bs)"
  shows "overwrite xs off bs ! k =
    (if off \<le> k \<and> k < off + length bs then bs ! (k - off) else if k < length xs then xs ! k else 0)"
proof -
  have l: "length (take off (xs @ replicate (off - length xs) 0)) = off" by simp
  consider "k < off" | "off \<le> k" "k < off + length bs" | "off + length bs \<le> k" by linarith
  then show ?thesis
  proof cases
    case 1
    then have "overwrite xs off bs ! k = (xs @ replicate (off - length xs) 0) ! k"
      using l by (simp add: overwrite_def nth_append [of "take off (xs @ replicate (off - length xs) 0)"] del: take_append)
    then show ?thesis using 1 by (simp add: nth_append)
  next
    case 2
    then have "k - off < length bs" by linarith
    with 2 show ?thesis using l by (simp add: overwrite_def nth_append [of "take off (xs @ replicate (off - length xs) 0)"] nth_append [of bs] del: take_append)
  next
    case 3
    then have "k < length xs" "\<not> k - off < length bs" using assms by auto
    moreover have "overwrite xs off bs ! k = drop (off + length bs) xs ! (k - off - length bs)"
      using 3 calculation(2) l by (simp add: overwrite_def nth_append [of "take off (xs @ replicate (off - length xs) 0)"] nth_append [of bs] del: take_append)
    ultimately show ?thesis using 3 by simp
  qed
qed

lemma sint_small: "n < 2 ^ 63 \<Longrightarrow> sint (of_nat n :: u64) = int n"
  by (simp add: sint_uint signed_take_bit_int_eq_self unsigned_of_nat take_bit_nat_eq_self)

lemma read_node_content:
  assumes st: "storage fs" and f: "is_file fs i"
  shows "tmpfs_read_node (int i) count off fs =
    Some (int (length (take (unat count) (drop (unat off) (content fs i)))), take (unat count) (drop (unat off) (content fs i)))"
proof -
  let ?n = "g_nodes fs ! i"
  note lv = is_file_live [OF f] and sd = storageD [OF st]
  have ty: "n_type ?n = VFS_NODE_FILE" using f by (simp add: is_file_def)
  have len: "length (content fs i) = unat (n_size ?n)" by (rule content_length [OF st lv])
  show ?thesis
  proof (cases "off \<ge> n_size ?n")
    case True
    then have "unat (n_size ?n) \<le> unat off" by (simp add: word_le_nat_alt)
    then show ?thesis using True by (simp add: tmpfs_read_node_def get_node_file [OF f] ty len)
  next
    case False
    then have lt: "unat off < unat (n_size ?n)" by (simp add: word_le_nat_alt)
    then obtain a where a: "n_data ?n = Some a" using sd(3) [OF lv] by (cases "n_data ?n") auto
    have bd: "unat a + unat (n_size ?n) \<le> TMPFS_DATA_ARENA_SIZE" using sd(1) sd(4,5) [OF lv a] by simp
    define c where "c = (if count > n_size ?n - off then n_size ?n - off else count)"
    have av: "unat (n_size ?n - off) = unat (n_size ?n) - unat off"
      using False by (simp add: unat_sub)
    have c: "unat c = min (unat count) (unat (n_size ?n) - unat off)"
      using av by (auto simp: c_def word_less_nat_alt)
    have au: "unat (a + off) = unat a + unat off" using bd lt by (simp add: unat_word_ariths TMPFS_DATA_ARENA_SIZE_def)
    have ia: "in_arena (n_data ?n) off (unat c) = Some (unat a + unat off)"
      using a au bd c lt by (auto simp: in_arena_def Let_def)
    have out: "map (g_data_arena fs) [unat a + unat off ..< unat a + unat off + unat c] = take (unat count) (drop (unat off) (content fs i))"
      using c lt by (simp add: content_def a drop_map take_map min_def)
    have "unat c < 2 ^ 63" using c bd by (simp add: TMPFS_DATA_ARENA_SIZE_def)
    then have "sint (of_nat (unat c) :: u64) = int (unat c)" by (rule sint_small)
    then have "sint c = int (unat c)" by simp
    then have sc: "sint c = int (length (take (unat count) (drop (unat off) (content fs i))))" using c len by simp
    show ?thesis
      using False ty ia out sc by (simp add: tmpfs_read_node_def get_node_file [OF f] c_def [symmetric] Let_def)
  qed
qed

lemma store_node_content:
  assumes st: "storage fs" and f: "is_file fs i" and l: "length (g_nodes fs) = MGCORE_MAX_NODES"
    and fit: "unat off + length buf \<le> unat (n_capacity (g_nodes fs ! i))"
  obtains fs' where "store_node (int i) buf off fs = Some (int (length buf), fs')" "storage fs'"
    "content fs' i = overwrite (content fs i) (unat off) buf" "length (g_nodes fs') = MGCORE_MAX_NODES"
    "\<exists>sz. g_nodes fs' ! i = (g_nodes fs ! i)\<lparr>n_size := sz\<rparr>"
    "\<forall>j < MGCORE_MAX_NODES. j \<noteq> i \<longrightarrow> g_nodes fs' ! j = g_nodes fs ! j"
    "\<forall>j. live fs j \<longrightarrow> j \<noteq> i \<longrightarrow> content fs' j = content fs j"
proof -
  let ?n = "g_nodes fs ! i"
  note lv = is_file_live [OF f] and sd = storageD [OF st]
  have il: "i < MGCORE_MAX_NODES" using f by (simp add: is_file_def)
  have cap: "unat (n_capacity ?n) \<le> TMPFS_DATA_ARENA_SIZE"
    using sd(1) sd(3,4) [OF lv] by (cases "n_data ?n") auto
  have cnt: "unat (of_nat (length buf) :: u64) = length buf" "unat (off + of_nat (length buf)) = unat off + length buf"
    using fit cap by (simp_all add: unat_word_ariths unat_of_nat TMPFS_DATA_ARENA_SIZE_def)
  have sint: "sint (of_nat (length buf) :: u64) = int (length buf)"
    using fit cap by (intro sint_small) (simp add: TMPFS_DATA_ARENA_SIZE_def)
  define start where "start = (case n_data ?n of None \<Rightarrow> 0 | Some a \<Rightarrow> unat a + unat off)"
  have ia: "in_arena (n_data ?n) off (length buf) = Some start"
  proof (cases "n_data ?n")
    case None
    then show ?thesis using sd(3) [OF lv] fit by (simp add: in_arena_def start_def)
  next
    case (Some a)
    have "unat (a + off) = unat a + unat off"
      using sd(1) sd(4) [OF lv Some] fit by (simp add: unat_word_ariths TMPFS_DATA_ARENA_SIZE_def)
    then show ?thesis using Some sd(1) sd(4) [OF lv Some] fit by (simp add: in_arena_def start_def)
  qed
  define m where "m = put_bytes start buf (g_data_arena fs)"
  define grow where "grow \<longleftrightarrow> unat (n_size ?n) < unat off + length buf"
  define fs' where "fs' = (if grow then upd_node (int i) (\<lambda>n. n\<lparr>n_size := off + of_nat (length buf)\<rparr>) (fs\<lparr>g_data_arena := m\<rparr>)
    else fs\<lparr>g_data_arena := m\<rparr>)"
  have w: "store_node (int i) buf off fs = Some (int (length buf), fs')"
    using ia sint cnt by (simp add: store_node_def Let_def m_def fs'_def grow_def word_less_nat_alt)
  have self: "g_nodes fs' ! i = (if grow then ?n\<lparr>n_size := off + of_nat (length buf)\<rparr> else ?n)" using il l by (simp add: fs'_def)
  have oth: "g_nodes fs' ! j = g_nodes fs ! j" if "j < MGCORE_MAX_NODES" "j \<noteq> i" for j using that l by (simp add: fs'_def)
  have ar: "g_data_arena fs' = m" "g_data_offset fs' = g_data_offset fs" "length (g_nodes fs') = MGCORE_MAX_NODES"
    using l by (simp_all add: fs'_def)
  have sz: "unat (n_size (g_nodes fs' ! i)) = max (unat (n_size ?n)) (unat off + length buf)"
    unfolding self using cnt(2) by (auto simp: grow_def)
  have nd: "n_data (g_nodes fs' ! i) = n_data ?n" "n_capacity (g_nodes fs' ! i) = n_capacity ?n" "n_type (g_nodes fs' ! i) = n_type ?n"
    by (simp_all add: self)
  have lv': "live fs' j = live fs j" for j using oth [of j] nd(3) by (cases "j = i") (auto simp: live_def)
  have outside: "m x = g_data_arena fs x" if "x \<notin> block ?n" for x
    using that fit sd(3) [OF lv] by (auto simp: m_def put_bytes_apply block_def start_def split: option.splits)
  have blk: "block (g_nodes fs' ! j) = block (g_nodes fs ! j)" if "live fs j" for j
    using oth [of j] nd that by (cases "j = i") (simp_all add: block_def live_def split: option.split)
  have same: "content fs' j = content fs j" if "live fs j" "j \<noteq> i" for j
  proof -
    have "content (fs\<lparr>g_data_arena := m\<rparr>) j = content fs j"
      by (rule block_content [OF st that(1)]) (use sd(7) [OF that(1) lv that(2)] outside in auto)
    moreover have "content fs' j = content (fs\<lparr>g_data_arena := m\<rparr>) j"
      using that oth [of j] by (simp add: content_def live_def ar split: option.split)
    ultimately show ?thesis by simp
  qed
  have byte: "m (unat a + k) = (if unat off \<le> k \<and> k < unat off + length buf then buf ! (k - unat off) else g_data_arena fs (unat a + k))"
    if "n_data ?n = Some a" for a k using that by (simp add: m_def put_bytes_apply start_def)
  have cont: "content fs' i = overwrite (content fs i) (unat off) buf"
  proof (cases "n_data ?n")
    case None
    then show ?thesis using sd(3) [OF lv None] fit by (simp add: content_def nd overwrite_def)
  next
    case (Some a)
    show ?thesis
    proof (rule nth_equalityI)
      show "length (content fs' i) = length (overwrite (content fs i) (unat off) buf)"
        using Some by (simp add: length_overwrite content_length [OF st lv] content_def [of fs'] nd sz)
      fix k assume "k < length (content fs' i)"
      then have k: "k < max (unat (n_size ?n)) (unat off + length buf)" using Some by (simp add: content_def nd sz)
      have "content fs' i ! k = m (unat a + k)" using k Some by (simp add: content_def nd sz ar)
      moreover have "g_data_arena fs (unat a + k) = (if k < unat (n_size ?n) then content fs i ! k else 0)"
        using sd(6) [OF lv Some, of k] k fit sd(5) [OF lv Some] by (auto simp: content_def Some)
      ultimately show "content fs' i ! k = overwrite (content fs i) (unat off) buf ! k"
        using nth_overwrite [of k "content fs i" "unat off" buf] k by (simp add: content_length [OF st lv] byte [OF Some])
    qed
  qed
  have st': "storage fs'"
  proof (rule storageI)
    show "unat (g_data_offset fs') \<le> TMPFS_DATA_ARENA_SIZE" using sd(1) ar by simp
    show "g_data_arena fs' a = 0" if "unat (g_data_offset fs') \<le> a" for a
    proof -
      have "a \<notin> block ?n" using that sd(4) [OF lv] ar(2) by (force simp: block_def split: option.splits)
      then show ?thesis using outside sd(2) that ar by simp
    qed
    fix j assume j: "live fs' j"
    then have j': "live fs j" "j < MGCORE_MAX_NODES" using lv' by (auto simp: live_def)
    show "n_size (g_nodes fs' ! j) = 0 \<and> n_capacity (g_nodes fs' ! j) = 0" if "n_data (g_nodes fs' ! j) = None"
      using that sd(3) [OF j'(1)] oth [OF j'(2)] nd self fit by (cases "j = i") (auto simp: grow_def)
    fix b assume b: "n_data (g_nodes fs' ! j) = Some b"
    have b': "n_data (g_nodes fs ! j) = Some b" "n_capacity (g_nodes fs' ! j) = n_capacity (g_nodes fs ! j)"
      using b oth [OF j'(2)] nd by (cases "j = i"; auto)+
    show "unat b + unat (n_capacity (g_nodes fs' ! j)) \<le> unat (g_data_offset fs')" using sd(4) [OF j'(1) b'(1)] b'(2) ar by simp
    show "unat (n_size (g_nodes fs' ! j)) \<le> unat (n_capacity (g_nodes fs' ! j))"
      using sd(5) [OF j'(1) b'(1)] b'(2) oth [OF j'(2)] sz fit by (cases "j = i") auto
    fix k assume k: "unat (n_size (g_nodes fs' ! j)) \<le> k" "k < unat (n_capacity (g_nodes fs' ! j))"
    show "g_data_arena fs' (unat b + k) = 0"
    proof (cases "j = i")
      case True
      then show ?thesis using byte [of b k] b' k sz sd(6) [OF lv, of b k] ar by simp
    next
      case False
      have "unat b + k \<in> block (g_nodes fs ! j)" using b' k by (simp add: block_def)
      then have "unat b + k \<notin> block ?n" using sd(7) [OF j'(1) lv False] by blast
      then show ?thesis using outside ar sd(6) [OF j'(1) b'(1), of k] k b' oth [OF j'(2) False] by simp
    qed
  next
    fix j k assume "live fs' j" "live fs' k" "j \<noteq> k"
    then show "block (g_nodes fs' ! j) \<inter> block (g_nodes fs' ! k) = {}" using blk sd(7) lv' by simp
  qed
  have "\<exists>sz. g_nodes fs' ! i = ?n\<lparr>n_size := sz\<rparr>"
    unfolding self by (cases grow) (auto intro: exI [of _ "n_size ?n"])
  then show thesis using that [OF w st' cont ar(3)] oth same by blast
qed

lemma grow_node_content:
  assumes st: "storage fs" and f: "is_file fs i" and l: "length (g_nodes fs) = MGCORE_MAX_NODES"
    and e: "unat e + 255 + 255 < 2 ^ 32" "unat (n_capacity (g_nodes fs ! i)) < unat e"
  shows "grow_node (int i) (g_nodes fs ! i) e fs = Some (False, fs) \<or>
    (\<exists>fs'. grow_node (int i) (g_nodes fs ! i) e fs = Some (True, fs') \<and> storage fs' \<and> length (g_nodes fs') = MGCORE_MAX_NODES \<and>
      content fs' i = content fs i \<and> unat e \<le> unat (n_capacity (g_nodes fs' ! i)) \<and>
      (\<exists>a c. g_nodes fs' ! i = (g_nodes fs ! i)\<lparr>n_data := a, n_capacity := c\<rparr>) \<and>
      (\<forall>j < MGCORE_MAX_NODES. j \<noteq> i \<longrightarrow> g_nodes fs' ! j = g_nodes fs ! j) \<and>
      (\<forall>j. live fs j \<longrightarrow> j \<noteq> i \<longrightarrow> content fs' j = content fs j))"
proof -
  let ?n = "g_nodes fs ! i"
  note lv = is_file_live [OF f] and sd = storageD [OF st]
  have il: "i < MGCORE_MAX_NODES" using f by (simp add: is_file_def)
  let ?cap = "(e + 255) AND ucast (NOT 255 :: u32) :: u64"
  have cap: "unat ?cap = (unat e + 255) div 256 * 256" using e by (intro unat_align_masks(2)) simp
  have cb: "unat e \<le> unat ?cap" "unat ?cap \<le> unat e + 255"
    using div_mult_mod_eq [of "unat e + 255" 256] mod_less_divisor [of 256 "unat e + 255"] cap by linarith+
  have al: "(unat ?cap + 15) div 16 * 16 = unat ?cap"
  proof -
    define q where "q = (unat e + 255) div 256"
    have "unat ?cap = 16 * (16 * q)" using cap by (simp add: q_def)
    then show ?thesis by simp
  qed
  have "unat ?cap + 255 < 2 ^ 32" using cb(2) e(1) by linarith
  from alloc_storage_cases [OF this sd(1)] show ?thesis
  proof (elim disjE)
    assume "alloc_storage ?cap fs = None \<and> unat (g_data_offset fs) + (unat ?cap + 15) div 16 * 16 > TMPFS_DATA_ARENA_SIZE"
    then show ?thesis by (simp add: grow_node_def Let_def)
  next
    assume "\<exists>fs'. alloc_storage ?cap fs = Some (g_data_offset fs, fs') \<and> g_nodes fs' = g_nodes fs \<and> g_data_arena fs' = g_data_arena fs \<and>
      unat (g_data_offset fs') = unat (g_data_offset fs) + (unat ?cap + 15) div 16 * 16 \<and> unat (g_data_offset fs') \<le> TMPFS_DATA_ARENA_SIZE"
    then obtain fs1 where as: "alloc_storage ?cap fs = Some (g_data_offset fs, fs1)" "g_nodes fs1 = g_nodes fs" "g_data_arena fs1 = g_data_arena fs"
      "unat (g_data_offset fs1) = unat (g_data_offset fs) + unat ?cap" "unat (g_data_offset fs1) \<le> TMPFS_DATA_ARENA_SIZE"
      using al by auto
    define old where "old = (if n_data ?n \<noteq> None \<and> n_size ?n \<noteq> 0 then unat (n_size ?n) else 0)"
    define src where "src = (case n_data ?n of None \<Rightarrow> 0 | Some a \<Rightarrow> unat a)"
    define dst where "dst = unat (g_data_offset fs)"
    have osz: "old = unat (n_size ?n)" using sd(3) [OF lv] by (auto simp: old_def)
    have ob: "old \<le> unat (n_capacity ?n)" "n_data ?n \<noteq> None \<Longrightarrow> src + unat (n_capacity ?n) \<le> dst" "n_data ?n = None \<Longrightarrow> old = 0"
      using sd(3,4,5) [OF lv] by (cases "n_data ?n"; auto simp: osz src_def dst_def)+
    have ia: "in_arena (n_data ?n) 0 old = Some src" "in_arena (Some (g_data_offset fs)) 0 old = Some dst"
      using ob e(2) cb as(4,5) sd(1) by (auto simp: in_arena_def src_def dst_def Let_def split: option.splits)
    define m where "m = kmemcpy dst src old (g_data_arena fs)"
    have mb: "m x = (if dst \<le> x \<and> x < dst + old then g_data_arena fs (src + (x - dst)) else g_data_arena fs x)" for x
    proof (cases "old = 0")
      case False
      then have c: "dst < src \<or> src + 0 + old \<le> dst + 0" using ob by (cases "n_data ?n") auto
      show ?thesis using copy_up_apply [OF c, of "g_data_arena fs" x] by (auto simp: m_def kmemcpy_def)
    qed (auto simp: m_def kmemcpy_def)
    define fs' where "fs' = upd_node (int i) (\<lambda>n. n\<lparr>n_data := Some (g_data_offset fs), n_capacity := ?cap\<rparr>) (fs1\<lparr>g_data_arena := m\<rparr>)"
    have g: "grow_node (int i) ?n e fs = Some (True, fs')"
      unfolding grow_node_def Let_def old_def [symmetric] using as(1-3) ia by (simp add: fs'_def m_def)
    have self: "g_nodes fs' ! i = ?n\<lparr>n_data := Some (g_data_offset fs), n_capacity := ?cap\<rparr>" using il l as(2) by (simp add: fs'_def)
    have oth: "g_nodes fs' ! j = g_nodes fs ! j" if "j < MGCORE_MAX_NODES" "j \<noteq> i" for j using that l as(2) by (simp add: fs'_def)
    have ar: "g_data_arena fs' = m" "unat (g_data_offset fs') = dst + unat ?cap" "length (g_nodes fs') = MGCORE_MAX_NODES"
      using l as(2,4) by (simp_all add: fs'_def dst_def)
    have lv': "live fs' j = live fs j" for j using oth [of j] self by (cases "j = i") (auto simp: live_def)
    have low: "m x = g_data_arena fs x" if "x < dst" for x using that mb by simp
    have bl: "block (g_nodes fs ! j) \<subseteq> {..<dst}" if "live fs j" for j
      using sd(4) [OF that] by (fastforce simp: block_def dst_def split: option.splits)
    have same: "content fs' j = content fs j" if "live fs j" "j \<noteq> i" for j
    proof -
      have "content (fs\<lparr>g_data_arena := m\<rparr>) j = content fs j"
        by (rule block_content [OF st that(1)]) (use bl [OF that(1)] low in auto)
      moreover have "content fs' j = content (fs\<lparr>g_data_arena := m\<rparr>) j"
        using that oth [of j] by (simp add: content_def live_def ar split: option.split)
      ultimately show ?thesis by simp
    qed
    have cont: "content fs' i = content fs i"
    proof (rule nth_equalityI)
      show "length (content fs' i) = length (content fs i)" by (simp add: content_length [OF st lv] content_def [of fs'] self)
      fix k assume "k < length (content fs' i)"
      then have k: "k < unat (n_size ?n)" by (simp add: content_def self)
      then obtain a where a: "n_data ?n = Some a" using sd(3) [OF lv] by (cases "n_data ?n") auto
      show "content fs' i ! k = content fs i ! k" using k a by (simp add: content_def self ar mb osz dst_def src_def)
    qed
    have st': "storage fs'"
    proof (rule storageI)
      show "unat (g_data_offset fs') \<le> TMPFS_DATA_ARENA_SIZE" using as(5) by (simp add: fs'_def)
      show "g_data_arena fs' a = 0" if "unat (g_data_offset fs') \<le> a" for a
        using that ar mb ob(1) e(2) cb(1) sd(2) [of a] by (simp add: dst_def)
      fix j assume j: "live fs' j"
      then have j': "live fs j" "j < MGCORE_MAX_NODES" using lv' by (auto simp: live_def)
      show "n_size (g_nodes fs' ! j) = 0 \<and> n_capacity (g_nodes fs' ! j) = 0" if "n_data (g_nodes fs' ! j) = None"
        using that sd(3) [OF j'(1)] oth [OF j'(2)] self by (cases "j = i") auto
      fix b assume b: "n_data (g_nodes fs' ! j) = Some b"
      show "unat b + unat (n_capacity (g_nodes fs' ! j)) \<le> unat (g_data_offset fs')"
        using b sd(4) [OF j'(1), of b] oth [OF j'(2)] self ar(2) by (cases "j = i") (auto simp: dst_def)
      show "unat (n_size (g_nodes fs' ! j)) \<le> unat (n_capacity (g_nodes fs' ! j))"
        using b sd(5) [OF j'(1), of b] oth [OF j'(2)] self osz ob(1) e(2) cb(1) by (cases "j = i") auto
      fix k assume k: "unat (n_size (g_nodes fs' ! j)) \<le> k" "k < unat (n_capacity (g_nodes fs' ! j))"
      show "g_data_arena fs' (unat b + k) = 0"
      proof (cases "j = i")
        case True
        then have "unat b = dst" using b self by (auto simp: dst_def)
        then show ?thesis using True k self ar(1) mb osz sd(2) by (simp add: dst_def)
      next
        case False
        note o = oth [OF j'(2) False]
        have "unat b + k < dst" using sd(4) [OF j'(1), of b] b o k by (simp add: dst_def)
        then show ?thesis using low ar(1) sd(6) [OF j'(1), of b k] b o k by simp
      qed
    next
      fix j k assume jk: "live fs' j" "live fs' k" "j \<noteq> k"
      have nb: "block (g_nodes fs' ! i) = {dst ..< dst + unat ?cap}" by (simp add: block_def self dst_def)
      have ob: "block (g_nodes fs' ! x) = block (g_nodes fs ! x) \<and> block (g_nodes fs ! x) \<subseteq> {..<dst}" if "live fs' x" "x \<noteq> i" for x
        using that oth [of x] bl lv' by (auto simp: live_def)
      show "block (g_nodes fs' ! j) \<inter> block (g_nodes fs' ! k) = {}"
      proof (cases "j = i \<or> k = i")
        case True
        then show ?thesis using nb ob jk by fastforce
      next
        case False
        then show ?thesis using ob jk sd(7) lv' by simp
      qed
    qed
    show ?thesis using g st' ar(3) cont cb(1) self oth same by auto
  qed
qed

text \<open>What a write changes in the table: data pointer, size and capacity of one node.\<close>

definition rewritten :: "tmpfs \<Rightarrow> tmpfs \<Rightarrow> nat \<Rightarrow> bool" where
  "rewritten fs fs' i \<longleftrightarrow> length (g_nodes fs') = MGCORE_MAX_NODES \<and>
     (\<exists>a s c. g_nodes fs' ! i = (g_nodes fs ! i)\<lparr>n_data := a, n_size := s, n_capacity := c\<rparr>) \<and>
     (\<forall>j < MGCORE_MAX_NODES. j \<noteq> i \<longrightarrow> g_nodes fs' ! j = g_nodes fs ! j)"

lemma rewritten_tree:
  assumes "tree fs ch" and "rewritten fs fs' i"
  shows "tree fs' ch"
proof -
  obtain a s c where i: "g_nodes fs' ! i = (g_nodes fs ! i)\<lparr>n_data := a, n_size := s, n_capacity := c\<rparr>"
    using assms(2) by (auto simp: rewritten_def)
  show ?thesis
  proof (rule tree_cong [OF assms(1)])
    show "length (g_nodes fs') = length (g_nodes fs)" using assms(2) treeD(1) [OF assms(1)] by (simp add: rewritten_def)
    fix k assume "k < MGCORE_MAX_NODES"
    then show "n_type (g_nodes fs' ! k) = n_type (g_nodes fs ! k) \<and>
       n_parent_id (g_nodes fs' ! k) = n_parent_id (g_nodes fs ! k) \<and> n_id (g_nodes fs' ! k) = n_id (g_nodes fs ! k) \<and>
       n_name (g_nodes fs' ! k) = n_name (g_nodes fs ! k) \<and>
       n_first_child_id (g_nodes fs' ! k) = n_first_child_id (g_nodes fs ! k) \<and>
       n_next_sibling_id (g_nodes fs' ! k) = n_next_sibling_id (g_nodes fs ! k)"
      using assms(2) i by (cases "k = i") (auto simp: rewritten_def)
  qed
qed

lemma rewritten_resolve:
  assumes "tree fs ch" and "rewritten fs fs' i" and "resolve_path p fs = Some r" and "r \<ge> 0"
  shows "resolve_path p fs' = Some r"
proof -
  obtain a s c where i: "g_nodes fs' ! i = (g_nodes fs ! i)\<lparr>n_data := a, n_size := s, n_capacity := c\<rparr>"
    using assms(2) by (auto simp: rewritten_def)
  have same: "n_type (g_nodes fs' ! k) = n_type (g_nodes fs ! k) \<and> n_parent_id (g_nodes fs' ! k) = n_parent_id (g_nodes fs ! k) \<and>
      n_name (g_nodes fs' ! k) = n_name (g_nodes fs ! k)" if "k < MGCORE_MAX_NODES" for k
    using assms(2) i that by (cases "k = i") (auto simp: rewritten_def)
  have nm: "child_named fs' tok (ch c) = child_named fs tok (ch c)" if "live fs c" for c tok
  proof -
    have "x < MGCORE_MAX_NODES" if "x \<in> set (ch c)" for x using tree_child(1) [OF assms(1) \<open>live fs c\<close> that] by (simp add: live_def)
    then have "find (\<lambda>i. cstr (n_name (g_nodes fs' ! i)) = cstr tok) (ch c) = find (\<lambda>i. cstr (n_name (g_nodes fs ! i)) = cstr tok) (ch c)"
      using same by (intro find_cong) auto
    then show ?thesis by (simp add: child_named_def)
  qed
  show ?thesis
    by (rule resolve_path_mono [OF assms(1) rewritten_tree [OF assms(1,2)] _ _ assms(3,4)]) (use same nm in \<open>auto simp: live_def\<close>)
qed

lemma write_node_content:
  assumes st: "storage fs" and f: "is_file fs i" and l: "length (g_nodes fs) = MGCORE_MAX_NODES"
    and sane: "unat off + length buf + 510 < 2 ^ 32"
  shows "tmpfs_write_node (int i) buf off fs = Some (- ENOSPC, fs) \<or>
    (\<exists>fs'. tmpfs_write_node (int i) buf off fs = Some (int (length buf), fs') \<and> storage fs' \<and> rewritten fs fs' i \<and>
      content fs' i = overwrite (content fs i) (unat off) buf \<and>
      (\<forall>j. live fs j \<longrightarrow> j \<noteq> i \<longrightarrow> content fs' j = content fs j))"
proof -
  let ?e = "off + of_nat (length buf) :: u64"
  have e: "unat ?e = unat off + length buf" using sane by (simp add: unat_word_ariths unat_of_nat)
  have ty: "n_type (g_nodes fs ! i) = VFS_NODE_FILE" "i < MGCORE_MAX_NODES" using f by (simp_all add: is_file_def)
  show ?thesis
  proof (cases "?e > n_capacity (g_nodes fs ! i)")
    case False
    then have fit: "unat off + length buf \<le> unat (n_capacity (g_nodes fs ! i))"
      using e by (simp add: word_less_nat_alt)
    obtain fs' where s: "store_node (int i) buf off fs = Some (int (length buf), fs')" "storage fs'"
      "content fs' i = overwrite (content fs i) (unat off) buf" "length (g_nodes fs') = MGCORE_MAX_NODES"
      "\<exists>sz. g_nodes fs' ! i = (g_nodes fs ! i)\<lparr>n_size := sz\<rparr>"
      "\<forall>j < MGCORE_MAX_NODES. j \<noteq> i \<longrightarrow> g_nodes fs' ! j = g_nodes fs ! j"
      "\<forall>j. live fs j \<longrightarrow> j \<noteq> i \<longrightarrow> content fs' j = content fs j"
      by (rule store_node_content [OF st f l fit])
    obtain sz where sz: "g_nodes fs' ! i = (g_nodes fs ! i)\<lparr>n_size := sz\<rparr>" using s(5) by blast
    have "g_nodes fs' ! i = (g_nodes fs ! i)\<lparr>n_data := n_data (g_nodes fs ! i), n_size := sz, n_capacity := n_capacity (g_nodes fs ! i)\<rparr>"
      using sz by simp
    then have "rewritten fs fs' i" unfolding rewritten_def using s(4,6) by blast
    then show ?thesis
      using s False ty by (simp add: tmpfs_write_node_def get_node_file [OF f] Let_def)
  next
    case True
    then have lt: "unat (n_capacity (g_nodes fs ! i)) < unat ?e" by (simp add: word_less_nat_alt)
    have w: "tmpfs_write_node (int i) buf off fs = (case grow_node (int i) (g_nodes fs ! i) ?e fs of None \<Rightarrow> None
        | Some (ok, fs1) \<Rightarrow> if \<not> ok then Some (- ENOSPC, fs1) else store_node (int i) buf off fs1)"
      using True ty by (simp add: tmpfs_write_node_def get_node_file [OF f] Let_def)
    have b: "unat ?e + 255 + 255 < 2 ^ 32" using sane e by simp
    from grow_node_content [OF st f l b lt] show ?thesis
    proof (elim disjE exE conjE)
      assume "grow_node (int i) (g_nodes fs ! i) ?e fs = Some (False, fs)"
      then show ?thesis using w by simp
    next
      fix fs1 a c assume g: "grow_node (int i) (g_nodes fs ! i) ?e fs = Some (True, fs1)" "storage fs1" "length (g_nodes fs1) = MGCORE_MAX_NODES"
        "content fs1 i = content fs i" "unat ?e \<le> unat (n_capacity (g_nodes fs1 ! i))"
        "g_nodes fs1 ! i = (g_nodes fs ! i)\<lparr>n_data := a, n_capacity := c\<rparr>"
        "\<forall>j < MGCORE_MAX_NODES. j \<noteq> i \<longrightarrow> g_nodes fs1 ! j = g_nodes fs ! j"
        "\<forall>j. live fs j \<longrightarrow> j \<noteq> i \<longrightarrow> content fs1 j = content fs j"
      have f1: "is_file fs1 i" using ty g(6) by (simp add: is_file_def)
      have fit: "unat off + length buf \<le> unat (n_capacity (g_nodes fs1 ! i))" using g(5) e by simp
      obtain fs' where s: "store_node (int i) buf off fs1 = Some (int (length buf), fs')" "storage fs'"
        "content fs' i = overwrite (content fs1 i) (unat off) buf" "length (g_nodes fs') = MGCORE_MAX_NODES"
        "\<exists>sz. g_nodes fs' ! i = (g_nodes fs1 ! i)\<lparr>n_size := sz\<rparr>"
        "\<forall>j < MGCORE_MAX_NODES. j \<noteq> i \<longrightarrow> g_nodes fs' ! j = g_nodes fs1 ! j"
        "\<forall>j. live fs1 j \<longrightarrow> j \<noteq> i \<longrightarrow> content fs' j = content fs1 j"
        by (rule store_node_content [OF g(2) f1 g(3) fit])
      obtain sz where sz: "g_nodes fs' ! i = (g_nodes fs1 ! i)\<lparr>n_size := sz\<rparr>" using s(5) by blast
      have "g_nodes fs' ! i = (g_nodes fs ! i)\<lparr>n_data := a, n_size := sz, n_capacity := c\<rparr>" using sz g(6) by simp
      moreover have "g_nodes fs' ! j = g_nodes fs ! j" if "j < MGCORE_MAX_NODES" "j \<noteq> i" for j using that s(6) g(7) by simp
      ultimately have "rewritten fs fs' i" unfolding rewritten_def using s(4) by blast
      moreover have "content fs' j = content fs j" if "live fs j" "j \<noteq> i" for j
        using that s(7) g(7,8) by (auto simp: live_def)
      ultimately show ?thesis using w g(1,4) s(1,2,3) by simp
    qed
  qed
qed

subsection \<open>Every operation keeps the invariant\<close>

definition tmpfs_inv :: "tmpfs \<Rightarrow> bool" where
  "tmpfs_inv fs \<longleftrightarrow> (\<exists>ch. tree fs ch) \<and> storage fs"

lemma tmpfs_init_inv:
  assumes "\<And>a. g_data_arena fs a = 0"
  shows "tmpfs_inv (tmpfs_init fs)"
proof -
  let ?f = "tmpfs_init fs"
  have n: "g_nodes ?f ! i = (if i = 0 then zero_node\<lparr>n_id := 0, n_parent_id := -1, n_first_child_id := -1, n_next_sibling_id := -1,
               n_type := VFS_NODE_DIR, n_mode := 0x1ED, n_name := ''/''\<rparr> else zero_node)" if "i < MGCORE_MAX_NODES" for i
    using that by (auto simp: tmpfs_init_def)
  have lv: "live ?f i \<longleftrightarrow> i = 0" for i using n [of i] by (auto simp: live_def zero_node_def MGCORE_MAX_NODES_def split: if_splits)
  have z: "(0 :: nat) < MGCORE_MAX_NODES" by (simp add: MGCORE_MAX_NODES_def)
  note n0 = n [OF z]
  have "tree ?f (\<lambda>_. [])"
  proof (rule treeI)
    show "length (g_nodes ?f) = MGCORE_MAX_NODES" by (simp add: tmpfs_init_def)
    show "is_dir ?f 0" using n0 z by (simp add: is_dir_def)
    show "n_parent_id (g_nodes ?f ! 0) = -1" using n0 by simp
    fix i assume "live ?f i"
    then have i: "i = 0" using lv by simp
    show "n_id (g_nodes ?f ! i) = int i" using n0 i by simp
    show "cstr (n_name (g_nodes ?f ! i)) = n_name (g_nodes ?f ! i)" using n0 i by simp
    show "chain ?f (n_first_child_id (g_nodes ?f ! i)) []" using n0 i by simp
    have "n_parent_id (g_nodes ?f ! 0) \<noteq> int i" using n0 by simp
    then show "set [] = {j. live ?f j \<and> n_parent_id (g_nodes ?f ! j) = int i}" unfolding lv by auto
    show "\<exists>d. is_dir ?f d \<and> n_parent_id (g_nodes ?f ! i) = int d" if "i \<noteq> 0" using that i by simp
  qed auto
  moreover have "storage ?f"
    by (rule storageI) (use n0 lv assms in \<open>auto simp: tmpfs_init_def zero_node_def\<close>)
  ultimately show ?thesis by (auto simp: tmpfs_inv_def)
qed

lemma split_parent_SomeD:
  assumes "char_at path = slash" and "NUL \<notin> set path" and "split_parent path = Some (par, leaf)"
  shows "path = par @ leaf" "dir_prefix par" "char_at par = slash" "length par < 256" "length leaf < 32" "NUL \<notin> set leaf"
proof -
  define l0 where "l0 = back_while (\<lambda>c. c = slash) path (kstrlen path)"
  define l1 where "l1 = back_while (\<lambda>c. c \<noteq> slash) path l0"
  obtain q where q: "path = slash # q" using assms(1) by (cases path) (auto simp: char_at_def)
  have le: "back_while P path n \<le> n" "back_while P path n \<noteq> 0 \<Longrightarrow> \<not> P (path ! (back_while P path n - 1))" for P n
    by (induction n) (auto split: if_splits)
  have "cstr path = path" using assms(2) by (rule cstr_id)
  then have ll: "l1 \<le> length path" using le(1) l0_def l1_def by (metis kstrlen_cstr le_trans)
  have nd: "cstr (drop l1 path) = drop l1 path" using assms(2) by (metis cstr_id in_set_dropD)
  have pl: "par = (if l1 = 0 then ''/'' else take l1 path) \<and> leaf = (if l1 = 0 then q else drop l1 path) \<and>
      length par < 256 \<and> length leaf < 32"
    using assms q nd unfolding split_parent_def Let_def l0_def [symmetric] l1_def [symmetric]
    by (auto simp: char_at_def cstr_id kstrlen_cstr MGCORE_PATH_MAX_def MGCORE_NAME_MAX_def split: if_splits)
  then show "length par < 256" "length leaf < 32" by auto
  show "path = par @ leaf" using pl q by (cases "l1 = 0") auto
  then show "NUL \<notin> set leaf" using assms(2) by auto
  have "last par = slash"
  proof (cases "l1 = 0")
    case False
    then have "path ! (l1 - 1) = slash" using le(2) [of "\<lambda>c. c \<noteq> slash" l0] by (simp add: l1_def)
    then show ?thesis using pl False ll q by (simp add: last_conv_nth)
  qed (use pl in simp)
  then show "dir_prefix par" using \<open>path = par @ leaf\<close> assms(2) by (auto simp: dir_prefix_def)
  show "char_at par = slash" using pl q by (cases l1) (auto simp: char_at_def)
qed

lemma component_of_missing:
  assumes t: "tree fs ch" and par: "dir_prefix par" "char_at par = slash" and leaf: "slash \<notin> set leaf" "NUL \<notin> set leaf" "length leaf < 32"
    and r: "resolve_path par fs = Some (int d)" "live fs d" "resolve_path (par @ leaf) fs = Some r" "r < 0"
  shows "component leaf"
proof -
  have pl: "char_at (par @ leaf) = slash" using par(2) by (auto simp: char_at_def split: list.splits)
  have dp: "dir_prefix (skip_slashes par)" using par(1) dir_prefix_suffix skip_slashes_suffix by metis
  have "resolve_path (par @ leaf) fs = resolve_loop fs leaf (int d)"
    using r(1) resolve_path_slash [OF par(2), of fs] by (simp add: resolve_path_slash [OF pl] skip_slashes_append leaf(1) resolve_loop_append [OF dp leaf(1)])
  then have l: "resolve_loop fs leaf (int d) = Some r" using r(3) by simp
  have tok: "take_token (MGCORE_NAME_MAX - 1) leaf = leaf" using leaf by (intro take_token_whole) (auto simp: MGCORE_NAME_MAX_def)
  obtain e where e: "parent_or_root fs (int d) = int e" by (rule parent_or_root_live [OF t r(2)])
  have "leaf \<noteq> []" using l r(4) by auto
  moreover have "leaf \<noteq> ''.''" "leaf \<noteq> ''..''"
    using l r(4) tok e unfolding resolve_loop.simps [of fs leaf] Let_def tok
    by (auto simp: resolve_step_def kstrcmp_zero_iff char_at_def skip_slashes_def)
  ultimately show ?thesis using leaf by (simp add: component_def)
qed

lemma storage_update:
  assumes st: "storage fs"
    and a: "g_data_arena fs' = g_data_arena fs" "g_data_offset fs' = g_data_offset fs"
    and n: "\<And>j. j < MGCORE_MAX_NODES \<Longrightarrow> n_type (g_nodes fs' ! j) = VFS_NODE_NONE \<or> j = i \<and> n_data (g_nodes fs' ! j) = None \<and>
        n_size (g_nodes fs' ! j) = 0 \<and> n_capacity (g_nodes fs' ! j) = 0 \<or> j \<noteq> i \<and> n_data (g_nodes fs' ! j) = n_data (g_nodes fs ! j) \<and>
        n_size (g_nodes fs' ! j) = n_size (g_nodes fs ! j) \<and> n_capacity (g_nodes fs' ! j) = n_capacity (g_nodes fs ! j) \<and> live fs j"
  shows "storage fs'"
proof -
  note sd = storageD [OF st]
  have new: "j = i \<and> n_data (g_nodes fs' ! j) = None \<and> n_size (g_nodes fs' ! j) = 0 \<and> n_capacity (g_nodes fs' ! j) = 0 \<or>
      j \<noteq> i \<and> live fs j \<and> n_data (g_nodes fs' ! j) = n_data (g_nodes fs ! j) \<and>
      n_size (g_nodes fs' ! j) = n_size (g_nodes fs ! j) \<and> n_capacity (g_nodes fs' ! j) = n_capacity (g_nodes fs ! j)" if "live fs' j" for j
    using n [of j] that by (auto simp: live_def)
  have blk: "block (g_nodes fs' ! j) = {} \<or> live fs j \<and> block (g_nodes fs' ! j) = block (g_nodes fs ! j)" if "live fs' j" for j
    using new [OF that] by (auto simp: block_def split: option.splits)
  show ?thesis
  proof (rule storageI)
    fix j k assume "live fs' j" "live fs' k" "j \<noteq> k"
    then show "block (g_nodes fs' ! j) \<inter> block (g_nodes fs' ! k) = {}" using blk [of j] blk [of k] sd(7) [of j k] by auto
  qed (use a sd(1,2) in simp, use a sd(2) in simp, use new sd(3) in fastforce, use a new sd(4) in fastforce,
       use new sd(5) in fastforce, use a new sd(6) in fastforce)
qed

lemma create_path_effect:
  assumes t: "tree fs ch" and nn: "NUL \<notin> set path" and ty: "ty \<noteq> VFS_NODE_NONE"
    and cr: "tmpfs_create_path path ty mode fs = Some (r, fs')"
  shows "fs' = fs \<or> (\<exists>ch' i d nm sib. tree fs' ch' \<and> \<not> live fs i \<and> g_data_arena fs' = g_data_arena fs \<and>
    g_data_offset fs' = g_data_offset fs \<and> (\<forall>j < MGCORE_MAX_NODES. g_nodes fs' ! j =
       (if j = i then new_node i d nm ty mode sib
        else if j = d then (g_nodes fs ! d)\<lparr>n_first_child_id := int i\<rparr> else g_nodes fs ! j)))"
proof (cases "fs' = fs")
  case False
  note td = treeD [OF t]
  obtain par leaf parent_id existing where sp: "char_at path = slash" "resolve_path path fs = Some existing" "existing < 0"
    "split_parent path = Some (par, leaf)" "resolve_path par fs = Some parent_id" "parent_id \<ge> 0"
    "n_type (node_at fs parent_id) = VFS_NODE_DIR" "create_child parent_id leaf ty mode fs = (r, fs')"
    using cr False by (auto simp: tmpfs_create_path_def split: option.splits prod.splits if_splits)
  note d = split_parent_SomeD [OF sp(1) nn sp(4)]
  obtain d where pd: "parent_id = int d" "live fs d"
    using resolve_path_tree [OF t, of par] sp(5,6) by (auto simp: outcome_def EINVAL_def ENOENT_def)
  have dir: "is_dir fs d" using pd sp(7) by (simp add: is_dir_def live_def)
  have fresh: "n_name (g_nodes fs ! j) \<noteq> take 31 (cstr leaf)" if "j \<in> set (ch d)" "slash \<notin> set (take 31 (cstr leaf))" for j
  proof -
    have tk: "take 31 (cstr leaf) = leaf" "cstr leaf = leaf" using d(5,6) by (simp_all add: cstr_id)
    have c: "component leaf"
      using component_of_missing [OF t d(2,3) _ d(6,5)] that(2) tk sp(2,3,5) pd d(1) by simp
    have "child_named fs leaf (ch d) < 0"
      using resolve_path_component [OF t d(2,3) c sp(5)] sp(2,3) pd lookup_child_tree [OF t pd(2)] d(1) by simp
    moreover have "cstr (n_name (g_nodes fs ! j)) = n_name (g_nodes fs ! j)" using td(6) tree_child(1) [OF t pd(2) that(1)] by blast
    ultimately show ?thesis using child_named_cases [of fs leaf "ch d"] that(1) tk by (metis of_nat_less_0_iff)
  qed
  show ?thesis
  proof (rule create_child_cases [OF td(1) pd(2), of leaf ty mode])
    assume "create_child (int d) leaf ty mode fs = (- ENOSPC, fs)"
    then show ?thesis using sp(8) pd False by simp
  next
    fix i fs1 assume i: "i < MGCORE_MAX_NODES" "\<not> live fs i" "i \<noteq> d" and c: "create_child (int d) leaf ty mode fs = (int i, fs1)"
      and l: "length (g_nodes fs1) = MGCORE_MAX_NODES" and a: "g_data_arena fs1 = g_data_arena fs" "g_data_offset fs1 = g_data_offset fs"
      and n: "\<And>j. j < MGCORE_MAX_NODES \<Longrightarrow> g_nodes fs1 ! j =
       (if j = i then new_node i d leaf ty mode (n_first_child_id (g_nodes fs ! d))
        else if j = d then (g_nodes fs ! d)\<lparr>n_first_child_id := int i\<rparr> else g_nodes fs ! j)"
    have eq: "fs' = fs1" using c sp(8) pd by simp
    have "tree fs1 (ch(d := i # ch d, i := []))" using create_child_tree [OF t dir ty i l n fresh] by blast
    then show ?thesis using eq i(2) a n by blast
  qed
qed simp

lemma tmpfs_create_path_inv [invariants]:
  assumes inv: "tmpfs_inv fs" and nn: "NUL \<notin> set path" and ty: "ty \<noteq> VFS_NODE_NONE"
    and cr: "tmpfs_create_path path ty mode fs = Some (r, fs')"
  shows "tmpfs_inv fs'"
proof -
  obtain ch where t: "tree fs ch" and st: "storage fs" using inv by (auto simp: tmpfs_inv_def)
  from create_path_effect [OF t nn ty cr] show ?thesis
  proof (elim disjE exE conjE)
    fix ch' i d nm sib assume t': "tree fs' ch'" and i: "\<not> live fs i" and a: "g_data_arena fs' = g_data_arena fs" "g_data_offset fs' = g_data_offset fs"
      and n: "\<forall>j < MGCORE_MAX_NODES. g_nodes fs' ! j = (if j = i then new_node i d nm ty mode sib
        else if j = d then (g_nodes fs ! d)\<lparr>n_first_child_id := int i\<rparr> else g_nodes fs ! j)"
    have "storage fs'"
      by (rule storage_update [OF st a, of i]) (use n in \<open>auto simp: new_node_def live_def\<close>)
    then show ?thesis using t' by (auto simp: tmpfs_inv_def)
  qed (use inv in simp)
qed

lemma tmpfs_remove_path_inv [invariants]:
  assumes inv: "tmpfs_inv fs" and rm: "tmpfs_remove_path path want_dir fs = Some (r, fs')"
  shows "tmpfs_inv fs'"
proof (cases "fs' = fs")
  case False
  obtain ch where t: "tree fs ch" and st: "storage fs" using inv by (auto simp: tmpfs_inv_def)
  have "r = 0" using rm False by (auto simp: tmpfs_remove_path_def split: option.splits if_splits)
  then obtain i d where rd: "removed fs fs' i" and t': "tree fs' (ch(d := remove1 i (ch d)))"
    using remove_path_ok [OF t] rm by metis
  have "storage fs'"
  proof (rule storage_update [OF st, of fs' i])
    show "g_data_arena fs' = g_data_arena fs" "g_data_offset fs' = g_data_offset fs" using rd by (simp_all add: removed_def)
    fix j assume j: "j < MGCORE_MAX_NODES"
    show "n_type (g_nodes fs' ! j) = VFS_NODE_NONE \<or> j = i \<and> n_data (g_nodes fs' ! j) = None \<and>
        n_size (g_nodes fs' ! j) = 0 \<and> n_capacity (g_nodes fs' ! j) = 0 \<or> j \<noteq> i \<and> n_data (g_nodes fs' ! j) = n_data (g_nodes fs ! j) \<and>
        n_size (g_nodes fs' ! j) = n_size (g_nodes fs ! j) \<and> n_capacity (g_nodes fs' ! j) = n_capacity (g_nodes fs ! j) \<and> live fs j"
    proof (cases "j = i")
      case True
      then show ?thesis using rd by (simp add: removed_def zero_node_def)
    next
      case False
      then show ?thesis using removedD [OF rd j False] j by (auto simp: live_def)
    qed
  qed
  then show ?thesis using t' by (auto simp: tmpfs_inv_def)
qed (use inv in simp)

lemma tmpfs_write_node_inv [invariants]:
  assumes inv: "tmpfs_inv fs" and sane: "unat off + length buf + 510 < 2 ^ 32"
    and wr: "tmpfs_write_node node_id buf off fs = Some (r, fs')"
  shows "tmpfs_inv fs'"
proof (cases "tmpfs_get_node node_id fs")
  case None
  then show ?thesis using wr inv by (simp add: tmpfs_write_node_def)
next
  case (Some node)
  obtain ch where t: "tree fs ch" and st: "storage fs" using inv by (auto simp: tmpfs_inv_def)
  have n: "node_id = int (nat node_id)" "nat node_id < MGCORE_MAX_NODES" "node = g_nodes fs ! nat node_id"
    using Some by (auto simp: tmpfs_get_node_def split: if_splits)
  show ?thesis
  proof (cases "n_type node = VFS_NODE_FILE")
    case True
    then have "is_file fs (nat node_id)" using n by (simp add: is_file_def)
    from write_node_content [OF st this treeD(1) [OF t] sane] wr n(1) inv rewritten_tree [OF t]
    show ?thesis by (auto simp: tmpfs_inv_def)
  next
    case False
    then show ?thesis using Some wr inv by (simp add: tmpfs_write_node_def)
  qed
qed

lemma tmpfs_device_inv [invariants]: "tmpfs_inv fs \<Longrightarrow> tmpfs_inv (upd_node k (\<lambda>n. n\<lparr>n_device_id := dev\<rparr>) fs)"
proof -
  assume inv: "tmpfs_inv fs"
  obtain ch where t: "tree fs ch" and st: "storage fs" using inv by (auto simp: tmpfs_inv_def)
  let ?f = "upd_node k (\<lambda>n. n\<lparr>n_device_id := dev\<rparr>) fs"
  note l = treeD(1) [OF t]
  have "tree ?f ch" by (rule tree_cong [OF t]) (use l in auto)
  moreover have "storage ?f" by (rule storage_update [OF st, of _ MGCORE_MAX_NODES]) (use l in \<open>auto simp: live_def\<close>)
  ultimately show ?thesis by (auto simp: tmpfs_inv_def)
qed

inductive tmpfs_step :: "tmpfs \<Rightarrow> tmpfs \<Rightarrow> bool" where
  create: "NUL \<notin> set path \<Longrightarrow> ty \<noteq> VFS_NODE_NONE \<Longrightarrow> tmpfs_create_path path ty mode fs = Some (r, fs') \<Longrightarrow> tmpfs_step fs fs'"
| remove: "tmpfs_remove_path path want_dir fs = Some (r, fs') \<Longrightarrow> tmpfs_step fs fs'"
| store: "unat off + length buf + 510 < 2 ^ 32 \<Longrightarrow> tmpfs_write_node node_id buf off fs = Some (r, fs') \<Longrightarrow> tmpfs_step fs fs'"
| device: "tmpfs_step fs (upd_node k (\<lambda>n. n\<lparr>n_device_id := dev\<rparr>) fs)"

definition tmpfs_boot :: "tmpfs \<Rightarrow> bool" where
  "tmpfs_boot fs \<longleftrightarrow> (\<exists>f. (\<forall>a. g_data_arena f a = 0) \<and> fs = tmpfs_init f)"

interpretation tm: state_machine tmpfs_boot tmpfs_step tmpfs_inv
  by unfold_locales (auto simp: tmpfs_boot_def tmpfs_init_inv elim!: tmpfs_step.cases intro: invariants)

subsection \<open>Properties\<close>

lemma remove_path_total:
  assumes t: "tree fs ch"
  shows "\<exists>r fs'. tmpfs_remove_path path want_dir fs = Some (r, fs') \<and> (r = 0 \<or> r < 0 \<and> fs' = fs)"
proof -
  obtain r where r: "resolve_path path fs = Some r" "r = - EINVAL \<or> outcome fs r" using resolve_path_tree [OF t] by blast
  show ?thesis
  proof (cases "r \<le> 0")
    case False
    then obtain i where i: "r = int i" "live fs i" "i \<noteq> 0" using r(2) by (auto simp: outcome_def EINVAL_def ENOENT_def)
    show ?thesis
    proof (cases "ch i = []")
      case True
      obtain fs1 where "unlink_node (int i) fs = Some fs1" by (rule remove_node_tree [OF t i(2,3) True])
      then show ?thesis using r(1) i by (auto simp: tmpfs_remove_path_def ENOTDIR_def EISDIR_def ENOTEMPTY_def)
    next
      case False
      then obtain x xs where x: "ch i = x # xs" by (cases "ch i") auto
      note c = tree_child [OF t i(2), of x]
      obtain d where "is_dir fs d" "n_parent_id (g_nodes fs ! x) = int d" using treeD(4) [OF t c(1,3)] x by auto
      then have "is_dir fs i" using c(2) x by simp
      moreover have "n_first_child_id (g_nodes fs ! i) \<ge> 0" using treeD(7) [OF t i(2)] x by simp
      ultimately show ?thesis using r(1) i by (auto simp: tmpfs_remove_path_def ENOTDIR_def EISDIR_def ENOTEMPTY_def is_dir_def)
    qed
  qed (use r in \<open>simp add: tmpfs_remove_path_def EINVAL_def\<close>)
qed

definition sample_fs :: tmpfs where
  "sample_fs = tmpfs_init \<lparr>g_nodes = [], g_data_arena = (\<lambda>_. 0), g_data_offset = 0\<rparr>"

lemma sample_fs_inv: "tmpfs_inv sample_fs"
  unfolding sample_fs_def by (rule tmpfs_init_inv) simp

lemma sample_fs_nodes:
  "i < MGCORE_MAX_NODES \<Longrightarrow> g_nodes sample_fs ! i =
    (if i = 0 then zero_node\<lparr>n_id := 0, n_parent_id := -1, n_first_child_id := -1, n_next_sibling_id := -1,
       n_type := VFS_NODE_DIR, n_mode := 0x1ED, n_name := ''/''\<rparr> else zero_node)"
  by (auto simp: sample_fs_def tmpfs_init_def)

lemma sample_fs_missing: "resolve_path ''/a'' sample_fs = Some (- ENOENT)"
proof -
  have "lookup_child 0 ''a'' sample_fs = Some (- ENOENT)"
    using sample_fs_nodes [of 0] by (simp add: lookup_child_def child_loop.simps MGCORE_MAX_NODES_def)
  moreover have "component ''a''" "dir_prefix ''/''" by (simp_all add: component_def dir_prefix_def)
  moreover have "resolve_path ''/'' sample_fs = Some 0" by (simp add: resolve_path_def char_at_def)
  moreover obtain ch where "tree sample_fs ch" using sample_fs_inv by (auto simp: tmpfs_inv_def)
  ultimately show ?thesis using resolve_path_component [where par = "''/''" and leaf = "''a''"] by (fastforce simp: char_at_def)
qed

lemma sample_fs_create:
  "\<exists>fs'. tmpfs_create_path ''/a'' VFS_NODE_FILE 0x1A4 sample_fs = Some (1, fs') \<and>
    n_type (g_nodes fs' ! 1) = VFS_NODE_FILE \<and> g_data_offset fs' = 0 \<and> n_data (g_nodes fs' ! 1) = None \<and>
    n_size (g_nodes fs' ! 1) = 0 \<and> n_capacity (g_nodes fs' ! 1) = 0 \<and> length (g_nodes fs') = MGCORE_MAX_NODES"
proof -
  note n = sample_fs_nodes and r = sample_fs_missing
  have z: "(0 :: nat) < MGCORE_MAX_NODES" "(1 :: nat) < MGCORE_MAX_NODES" by (simp_all add: MGCORE_MAX_NODES_def)
  have c: "component ''a''" "dir_prefix ''/''" by (simp_all add: component_def dir_prefix_def)
  have rp: "resolve_path ''/'' sample_fs = Some 0" by (simp add: resolve_path_def char_at_def)
  have sp: "split_parent ''/a'' = Some (''/'', ''a'')" using split_parent_component [OF c(2) _ c(1)] by simp
  have "scan_from (\<lambda>i. n_type (g_nodes sample_fs ! i) = VFS_NODE_NONE) 0 MGCORE_MAX_NODES = Some 1"
    using n z by (auto simp: scan_from_Some_iff zero_node_def)
  moreover have "length (g_nodes sample_fs) = MGCORE_MAX_NODES" "g_data_offset sample_fs = 0"
    by (simp_all add: sample_fs_def tmpfs_init_def)
  ultimately have "\<exists>fs'. create_child 0 ''a'' VFS_NODE_FILE 0x1A4 sample_fs = (1, fs') \<and>
    n_type (g_nodes fs' ! 1) = VFS_NODE_FILE \<and> g_data_offset fs' = 0 \<and> n_data (g_nodes fs' ! 1) = None \<and>
    n_size (g_nodes fs' ! 1) = 0 \<and> n_capacity (g_nodes fs' ! 1) = 0 \<and> length (g_nodes fs') = MGCORE_MAX_NODES"
    using z by (simp add: create_child_def alloc_node_def Let_def)
  then show ?thesis
    using n [OF z(1)] by (simp add: tmpfs_create_path_def r sp rp char_at_def ENOENT_def)
qed



lemma full_path:
  assumes "dir_prefix par" and "char_at par = slash" and "component leaf"
  shows "char_at (par @ leaf) = slash" and "char_at (tl (par @ leaf)) \<noteq> NUL" and "NUL \<notin> set (par @ leaf)"
proof -
  obtain ps where "par = slash # ps" using assms(2) by (cases par) (auto simp: char_at_def)
  then show "char_at (par @ leaf) = slash" "char_at (tl (par @ leaf)) \<noteq> NUL"
    using assms(1,3) by (cases ps; cases leaf; auto simp: char_at_def dir_prefix_def component_def)+
  show "NUL \<notin> set (par @ leaf)" using assms(1,3) by (auto simp: dir_prefix_def component_def)
qed

lemma resolve_absolute:
  assumes "tree fs ch" and "char_at path = slash"
  obtains r where "resolve_path path fs = Some r" "outcome fs r"
  using resolve_path_slash [OF assms(2)] resolve_loop_tree [OF assms(1) is_dir_live [OF treeD(2) [OF assms(1)]], of "skip_slashes path"]
  by auto

text \<open>Creating a missing leaf in an existing directory.\<close>

lemma create_in_dir:
  assumes inv: "tmpfs_inv fs" and par: "dir_prefix par" "char_at par = slash" "length par < 256" and leaf: "component leaf"
    and ty: "ty \<noteq> VFS_NODE_NONE" and d: "resolve_path par fs = Some (int d)" "is_dir fs d"
    and miss: "resolve_path (par @ leaf) fs = Some q" "q < 0"
  obtains "tmpfs_create_path (par @ leaf) ty mode fs = Some (- ENOSPC, fs)"
  | i fs' where "tmpfs_create_path (par @ leaf) ty mode fs = Some (int i, fs')" "tmpfs_inv fs'" "\<not> live fs i" "live fs' i"
      "resolve_path (par @ leaf) fs' = Some (int i)" "\<And>p k. resolve_path p fs = Some k \<Longrightarrow> k \<ge> 0 \<Longrightarrow> resolve_path p fs' = Some k"
      "n_type (g_nodes fs' ! i) = ty" "n_mode (g_nodes fs' ! i) = mode" "n_name (g_nodes fs' ! i) = leaf" "content fs' i = []"
proof -
  obtain ch where t: "tree fs ch" using inv by (auto simp: tmpfs_inv_def)
  note fp = full_path [OF par(1,2) leaf]
  have pn: "par \<noteq> []" using par(2) by (auto simp: char_at_def)
  have mk: "tmpfs_create_path (par @ leaf) ty mode fs = Some (create_child (int d) leaf ty mode fs)"
    using fp miss d by (simp add: tmpfs_create_path_def split_parent_component [OF par(1) pn leaf par(3)] is_dir_def)
  obtain r fs' where c: "create_child (int d) leaf ty mode fs = (r, fs')" by (cases "create_child (int d) leaf ty mode fs")
  then have cr: "tmpfs_create_path (par @ leaf) ty mode fs = Some (r, fs')" using mk by simp
  have inv': "tmpfs_inv fs'" by (rule tmpfs_create_path_inv [OF inv fp(3) ty cr])
  show thesis
  proof (cases "r < 0")
    case True
    have "r = - ENOSPC \<and> fs' = fs"
      by (rule create_child_cases [OF treeD(1) [OF t] is_dir_live [OF d(2)], of leaf ty mode]) (use c True in auto)
    then show thesis using that(1) cr by blast
  next
    case False
    then obtain i where i: "r = int i" "\<not> live fs i" "resolve_path (par @ leaf) fs' = Some (int i)"
      "g_nodes fs' ! i = new_node i d leaf ty mode (n_first_child_id (g_nodes fs ! d))"
      "\<And>q k. resolve_path q fs = Some k \<Longrightarrow> k \<ge> 0 \<Longrightarrow> resolve_path q fs' = Some k"
      using create_path_new [OF t par leaf ty d miss cr] by (metis linorder_not_le)
    have nm: "take 31 (cstr leaf) = leaf" using component_name [OF leaf] by blast
    obtain ch' where t': "tree fs' ch'" using inv' by (auto simp: tmpfs_inv_def)
    have "live fs' i" using resolve_absolute [OF t' fp(1)] i(3) by (auto simp: outcome_def ENOENT_def)
    moreover have "n_type (g_nodes fs' ! i) = ty" "n_mode (g_nodes fs' ! i) = mode" "n_name (g_nodes fs' ! i) = leaf" "content fs' i = []"
      using i(4) nm by (simp_all add: new_node_def content_def)
    ultimately show thesis using that(2) cr inv' i by blast
  qed
qed

lemma create_path_returns:
  assumes "tmpfs_inv fs" and "dir_prefix par" and "char_at par = slash" and "length par < 256"
    and "component leaf" and "ty \<noteq> VFS_NODE_NONE"
  shows "\<exists>r fs'. tmpfs_create_path (par @ leaf) ty mode fs = Some (r, fs') \<and> tmpfs_inv fs' \<and>
    (if r < 0 then fs' = fs \<and> (r = - ENOENT \<or> r = - ENOTDIR \<or> r = - ENOSPC)
     else tmpfs_lookup_path (par @ leaf) fs' = Some r \<and>
       (\<forall>q k. tmpfs_lookup_path q fs = Some k \<longrightarrow> 0 \<le> k \<longrightarrow> tmpfs_lookup_path q fs' = Some k) \<and>
       (tmpfs_lookup_path (par @ leaf) fs = Some r \<or>
        \<not> live fs (nat r) \<and> n_type (node_at fs' r) = ty \<and> n_mode (node_at fs' r) = mode \<and>
        n_name (node_at fs' r) = leaf \<and> content fs' (nat r) = []))"
proof -
  obtain ch where t: "tree fs ch" using assms(1) by (auto simp: tmpfs_inv_def)
  let ?p = "par @ leaf"
  note fp = full_path [OF assms(2,3,5)]
  have pn: "par \<noteq> []" using assms(3) by (auto simp: char_at_def)
  obtain q where q: "resolve_path ?p fs = Some q" "outcome fs q" by (rule resolve_absolute [OF t fp(1)])
  obtain p where p: "resolve_path par fs = Some p" "outcome fs p" by (rule resolve_absolute [OF t assms(3)])
  note sp = split_parent_component [OF assms(2) pn assms(5,4)]
  consider "q \<ge> 0" | "q < 0" "p = - ENOENT" | d where "q < 0" "p = int d" "live fs d" "\<not> is_dir fs d" | d where "q < 0" "p = int d" "is_dir fs d"
    using p(2) unfolding outcome_def by (metis linorder_not_le)
  then show ?thesis
  proof cases
    case 1
    then have "tmpfs_create_path ?p ty mode fs = Some (q, fs)" using fp q(1) by (simp add: tmpfs_create_path_def)
    then show ?thesis using 1 q(1) assms(1) by (simp add: tmpfs_lookup_path_def)
  next
    case 2
    then have "tmpfs_create_path ?p ty mode fs = Some (- ENOENT, fs)" using fp q(1) p(1) by (simp add: tmpfs_create_path_def sp ENOENT_def)
    then show ?thesis using assms(1) by (simp add: ENOENT_def)
  next
    case 3
    then have "tmpfs_create_path ?p ty mode fs = Some (- ENOTDIR, fs)"
      using fp q(1) p(1) by (simp add: tmpfs_create_path_def sp is_dir_def live_def)
    then show ?thesis using assms(1) by (simp add: ENOTDIR_def)
  next
    case 4
    show ?thesis
      by (rule create_in_dir [OF assms(1,2,3,4,5,6) p(1) [unfolded 4(2)] 4(3) q(1) 4(1), of mode])
        (use assms(1) in \<open>auto simp: ENOSPC_def tmpfs_lookup_path_def\<close>)
  qed
qed

text \<open>Creating a path leaves every node that exists as it is, but for the list of its children.\<close>

lemma create_path_keeps:
  assumes inv: "tmpfs_inv fs" and nn: "NUL \<notin> set path" and ty: "ty \<noteq> VFS_NODE_NONE"
    and cr: "tmpfs_create_path path ty mode fs = Some (r, fs')" and j: "live fs j"
  shows "live fs' j \<and> n_type (g_nodes fs' ! j) = n_type (g_nodes fs ! j) \<and> content fs' j = content fs j"
proof -
  obtain ch where t: "tree fs ch" using inv by (auto simp: tmpfs_inv_def)
  from create_path_effect [OF t nn ty cr] show ?thesis
  proof (elim disjE exE conjE)
    fix ch' i d nm sib assume i: "\<not> live fs i" and a: "g_data_arena fs' = g_data_arena fs"
      and n: "\<forall>j < MGCORE_MAX_NODES. g_nodes fs' ! j = (if j = i then new_node i d nm ty mode sib
        else if j = d then (g_nodes fs ! d)\<lparr>n_first_child_id := int i\<rparr> else g_nodes fs ! j)"
    have "j < MGCORE_MAX_NODES" "j \<noteq> i" using j i by (auto simp: live_def)
    then have "n_type (g_nodes fs' ! j) = n_type (g_nodes fs ! j) \<and> n_data (g_nodes fs' ! j) = n_data (g_nodes fs ! j) \<and>
        n_size (g_nodes fs' ! j) = n_size (g_nodes fs ! j)" using n by simp
    then show ?thesis using j a by (simp add: live_def content_def split: option.split)
  qed (use j in simp)
qed

text \<open>
  C6: Create, then look up. Creating \<open>par @ leaf\<close>, where \<open>par\<close> is an absolute prefix that ends with a
  slash and \<open>leaf\<close> a component of 1 to 31 characters, always returns. An error leaves the file system
  as it was. Otherwise the returned node is the one the same path resolves to afterwards: it is
  either the node that existed already or a new empty node of the requested type, mode and name, and
  every path that resolved before still resolves to the same node.
\<close>

theorem tmpfs_create_lookup:
  assumes "tmpfs_inv fs" and "dir_prefix par" and "char_at par = slash" and "length par < 256"
    and "component leaf" and "ty \<noteq> VFS_NODE_NONE"
  shows "\<exists>r fs'. tmpfs_create_path (par @ leaf) ty mode fs = Some (r, fs') \<and> tmpfs_inv fs' \<and>
    (if r < 0 then fs' = fs \<and> (r = - ENOENT \<or> r = - ENOTDIR \<or> r = - ENOSPC)
     else tmpfs_lookup_path (par @ leaf) fs' = Some r \<and>
       (\<forall>q k. tmpfs_lookup_path q fs = Some k \<longrightarrow> 0 \<le> k \<longrightarrow> tmpfs_lookup_path q fs' = Some k) \<and>
       (tmpfs_lookup_path (par @ leaf) fs = Some r \<or>
        \<not> live fs (nat r) \<and> n_type (node_at fs' r) = ty \<and> n_mode (node_at fs' r) = mode \<and>
        n_name (node_at fs' r) = leaf \<and> content fs' (nat r) = []))"
  by (rule create_path_returns [OF assms])

theorem tmpfs_create_lookup_witness:
  "\<exists>r fs'. tmpfs_create_path ''/a'' VFS_NODE_FILE 0x1A4 sample_fs = Some (r, fs') \<and> r = 1 \<and> tmpfs_lookup_path ''/a'' fs' = Some 1"
proof -
  have c: "component ''a''" "dir_prefix ''/''" "char_at ''/'' = slash" by (simp_all add: component_def dir_prefix_def char_at_def)
  obtain fs' where f: "tmpfs_create_path ''/a'' VFS_NODE_FILE 0x1A4 sample_fs = Some (1, fs')" using sample_fs_create by blast
  then show ?thesis
    using tmpfs_create_lookup [OF sample_fs_inv c(2,3) _ c(1), of VFS_NODE_FILE "0x1A4"] by auto
qed

text \<open>
  C23: Remove, then look up. Removing a path always returns. An error leaves the file system as it was.
  On success the path no longer resolves (\<^verbatim>\<open>-ENOENT\<close>), every other path resolves to the same node
  as before or no longer (when it went through the removed node), and no other node loses its type
  or its contents.
\<close>

theorem tmpfs_remove_lookup:
  assumes "tmpfs_inv fs"
  shows "\<exists>r fs'. tmpfs_remove_path path want_dir fs = Some (r, fs') \<and> tmpfs_inv fs' \<and>
    (if r < 0 then fs' = fs
     else r = 0 \<and> tmpfs_lookup_path path fs' = Some (- ENOENT) \<and>
       (\<forall>q k. tmpfs_lookup_path q fs = Some k \<longrightarrow> tmpfs_lookup_path q fs' = Some k \<or> tmpfs_lookup_path q fs' = Some (- ENOENT)) \<and>
       (\<exists>i. tmpfs_lookup_path path fs = Some (int i) \<and> (want_dir \<longleftrightarrow> is_dir fs i) \<and>
         (\<forall>j. live fs' j \<longleftrightarrow> live fs j \<and> j \<noteq> i) \<and>
         (\<forall>j. live fs' j \<longrightarrow> n_type (g_nodes fs' ! j) = n_type (g_nodes fs ! j) \<and> content fs' j = content fs j)))"
proof -
  obtain ch where t: "tree fs ch" using assms by (auto simp: tmpfs_inv_def)
  obtain r fs' where rm: "tmpfs_remove_path path want_dir fs = Some (r, fs')" and rr: "r = 0 \<or> r < 0 \<and> fs' = fs"
    using remove_path_total [OF t] by blast
  have inv': "tmpfs_inv fs'" by (rule tmpfs_remove_path_inv [OF assms rm])
  show ?thesis
  proof (cases "r = 0")
    case True
    show ?thesis
    proof (rule remove_path_ok [OF t, of path want_dir fs'])
      show "tmpfs_remove_path path want_dir fs = Some (0, fs')" using rm True by simp
      fix i d assume i: "resolve_path path fs = Some (int i)" "removed fs fs' i" "want_dir \<longleftrightarrow> is_dir fs i"
        "\<And>q r. resolve_path q fs = Some r \<Longrightarrow> resolve_path q fs' = Some (- ENOENT) \<or> resolve_path q fs' = Some r \<and> r \<noteq> int i"
      note lv = removed_live [OF i(2)]
      have "n_type (g_nodes fs' ! j) = n_type (g_nodes fs ! j) \<and> content fs' j = content fs j" if "live fs' j" for j
      proof -
        have j: "j < MGCORE_MAX_NODES" "j \<noteq> i" using that lv by (auto simp: live_def)
        note s = removedD [OF i(2) j]
        have "g_data_arena fs' = g_data_arena fs" using i(2) by (simp add: removed_def)
        then show ?thesis using s by (simp add: content_def split: option.split)
      qed
      moreover have "tmpfs_lookup_path path fs' = Some (- ENOENT)" using i(4) [OF i(1)] by (auto simp: tmpfs_lookup_path_def)
      moreover have "\<forall>q k. tmpfs_lookup_path q fs = Some k \<longrightarrow> tmpfs_lookup_path q fs' = Some k \<or> tmpfs_lookup_path q fs' = Some (- ENOENT)"
        using i(4) by (auto simp: tmpfs_lookup_path_def)
      moreover have "tmpfs_lookup_path path fs = Some (int i)" using i(1) by (simp add: tmpfs_lookup_path_def)
      moreover have "\<forall>j. live fs' j \<longleftrightarrow> live fs j \<and> j \<noteq> i" using lv by blast
      ultimately show ?thesis using rm inv' True i(3) by (intro exI [of _ r] exI [of _ fs']) auto
    qed
  qed (use rm rr inv' in auto)
qed


lemma sample_file:
  obtains fs where "tmpfs_create_path ''/a'' VFS_NODE_FILE 0x1A4 sample_fs = Some (1, fs)" "tmpfs_inv fs" "is_file fs 1"
    "n_data (g_nodes fs ! 1) = None" "n_size (g_nodes fs ! 1) = 0" "n_capacity (g_nodes fs ! 1) = 0" "g_data_offset fs = 0"
    "length (g_nodes fs) = MGCORE_MAX_NODES" "resolve_path ''/a'' fs = Some 1"
proof -
  obtain fs where c: "tmpfs_create_path ''/a'' VFS_NODE_FILE 0x1A4 sample_fs = Some (1, fs)" "n_type (g_nodes fs ! 1) = VFS_NODE_FILE"
    "g_data_offset fs = 0" "n_data (g_nodes fs ! 1) = None" "n_size (g_nodes fs ! 1) = 0" "n_capacity (g_nodes fs ! 1) = 0"
    "length (g_nodes fs) = MGCORE_MAX_NODES" using sample_fs_create by blast
  have "is_file fs 1" using c(2) by (simp add: is_file_def MGCORE_MAX_NODES_def)
  moreover have "tmpfs_inv fs" by (rule tmpfs_create_path_inv [OF sample_fs_inv _ _ c(1)]) simp_all
  moreover have "resolve_path ''/a'' fs = Some 1"
  proof (rule create_in_dir [OF sample_fs_inv, of "''/''" "''a''" VFS_NODE_FILE 0 "- ENOENT" "0x1A4"])
    show "is_dir sample_fs 0" using sample_fs_nodes [of 0] by (simp add: is_dir_def MGCORE_MAX_NODES_def)
  qed (use c(1) sample_fs_missing in \<open>auto simp: ENOENT_def component_def dir_prefix_def char_at_def resolve_path_def ENOSPC_def\<close>)
  ultimately show thesis using that c by blast
qed

lemma sample_written:
  assumes "length bs = 64"
  obtains fs where "tmpfs_inv fs" "is_file fs 1" "content fs 1 = bs" "resolve_path ''/a'' fs = Some 1"
proof -
  obtain fs where f: "tmpfs_inv fs" "is_file fs 1" "n_data (g_nodes fs ! 1) = None" "n_size (g_nodes fs ! 1) = 0"
    "n_capacity (g_nodes fs ! 1) = 0" "g_data_offset fs = 0" "length (g_nodes fs) = MGCORE_MAX_NODES" "resolve_path ''/a'' fs = Some 1"
    by (rule sample_file)
  obtain ch where t: "tree fs ch" and st: "storage fs" using f(1) by (auto simp: tmpfs_inv_def)
  have "tmpfs_write_node (int 1) bs 0 fs \<noteq> Some (- ENOSPC, fs)"
    using f(2-7) get_node_file [OF f(2)] assms
    by (auto simp: tmpfs_write_node_def grow_node_def alloc_storage_def store_node_def in_arena_def TMPFS_DATA_ARENA_SIZE_def
        is_file_def ENOSPC_def Let_def split: if_splits option.splits)
  moreover have "content fs 1 = []" using f(3) by (simp add: content_def)
  ultimately obtain fs' where w: "tmpfs_write_node (int 1) bs 0 fs = Some (int (length bs), fs')" "rewritten fs fs' 1" "content fs' 1 = bs"
    using write_node_content [OF st f(2,7), of 0 bs] assms by (auto simp: overwrite_def)
  have "is_file fs' 1" using w(2) f(2) by (auto simp: rewritten_def is_file_def)
  moreover have "tmpfs_inv fs'" by (rule tmpfs_write_node_inv [OF f(1) _ w(1)]) (use assms in simp)
  ultimately show thesis using that w(3) rewritten_resolve [OF t w(2) f(8)] by simp
qed

theorem tmpfs_remove_lookup_witness:
  "\<exists>fs fs'. tmpfs_create_path ''/a'' VFS_NODE_FILE 0x1A4 sample_fs = Some (1, fs) \<and>
     (\<exists>r. tmpfs_remove_path ''/a'' False fs = Some (r, fs') \<and> tmpfs_inv fs')"
  by (rule sample_file) (use tmpfs_remove_lookup in blast)


text \<open>
  The bound in the last properties is needed: the 32-bit masks drop the upper half of a large offset,
  the block that is allocated is too small and the store leaves the arena.
\<close>

lemma tmpfs_large_offset_escapes:
  "\<exists>fs. tmpfs_create_path ''/a'' VFS_NODE_FILE 0x1A4 sample_fs = Some (1, fs) \<and> tmpfs_write_node 1 [7] 0x100000000 fs = None"
proof -
  obtain fs where f: "tmpfs_create_path ''/a'' VFS_NODE_FILE 0x1A4 sample_fs = Some (1, fs)" "is_file fs 1"
    "n_data (g_nodes fs ! 1) = None" "n_size (g_nodes fs ! 1) = 0" "n_capacity (g_nodes fs ! 1) = 0" "g_data_offset fs = 0"
    "length (g_nodes fs) = MGCORE_MAX_NODES" by (rule sample_file)
  have "n_type (g_nodes fs ! 1) = VFS_NODE_FILE" using f(2) by (simp add: is_file_def)
  then have "tmpfs_write_node (int 1) [7] 0x100000000 fs = None"
    using f(3-7) get_node_file [OF f(2)]
    by (simp add: tmpfs_write_node_def grow_node_def alloc_storage_def store_node_def in_arena_def TMPFS_DATA_ARENA_SIZE_def
        MGCORE_MAX_NODES_def Let_def)
  then show ?thesis using f(1) by auto
qed

end
