(* ===== verification/Fs.thy ===== *)
theory Fs
  imports Tmpfs_Data Task
begin

text \<open>
  Model of \<^verbatim>\<open>src/kernel/fs.c\<close>: path normalisation, the table of 128 open files, the descriptors of the
  current task, the device nodes and the initramfs reader. A \<^verbatim>\<open>vfs_file *\<close> in a descriptor table is
  the index of the open file. As in the file system below it, \<open>None\<close> means that the C function does
  not come back properly. The characters that arrive on the serial line while a read polls the
  console are an input, indexed by the number of the poll.
\<close>

definition O_CREAT :: int where "O_CREAT = 64"
definition SEEK_SET :: int where "SEEK_SET = 0"
definition SEEK_CUR :: int where "SEEK_CUR = 1"
definition SEEK_END :: int where "SEEK_END = 2"

definition DEV_CONSOLE :: int where "DEV_CONSOLE = 1"
definition DEV_TTY :: int where "DEV_TTY = 2"
definition DEV_NULL :: int where "DEV_NULL = 3"
definition DEV_ZERO :: int where "DEV_ZERO = 4"

lemmas dev_defs = DEV_CONSOLE_def DEV_TTY_def DEV_NULL_def DEV_ZERO_def

record vfs_file =
  f_used :: bool
  f_refs :: int
  f_node_id :: int
  f_offset :: u64
  f_flags :: int

definition zero_file :: vfs_file where
  "zero_file = \<lparr>f_used = False, f_refs = 0, f_node_id = 0, f_offset = 0, f_flags = 0\<rparr>"

definition MAX_OPEN_FILES :: nat where "MAX_OPEN_FILES = 128"

record vfs =
  v_fs :: tmpfs
  v_files :: "vfs_file list"
  v_tasks :: task_table
  v_con :: console

definition upd_file :: "nat \<Rightarrow> (vfs_file \<Rightarrow> vfs_file) \<Rightarrow> vfs \<Rightarrow> vfs" where
  "upd_file i f v = v\<lparr>v_files := (v_files v)[i := f (v_files v ! i)]\<rparr>"

definition upd_current :: "(task \<Rightarrow> task) \<Rightarrow> vfs \<Rightarrow> vfs" where
  "upd_current f v = v\<lparr>v_tasks := upd_task (g_current_index (v_tasks v)) f (v_tasks v)\<rparr>"

subsection \<open>Paths\<close>

text \<open>The copy loop; \<open>out\<close> is what has been written to the output array.\<close>

fun norm_loop :: "string \<Rightarrow> string \<Rightarrow> string" where
  "norm_loop [] out = out"
| "norm_loop (c # source) out =
     (if c = NUL \<or> \<not> length out + 1 < MGCORE_PATH_MAX then out
      else if c = slash \<and> length out > 0 \<and> last out = slash then norm_loop source out
      else norm_loop source (out @ [c]))"

definition normalize_path :: "string option \<Rightarrow> task \<Rightarrow> string" where
  "normalize_path path t =
     (case path of
        None \<Rightarrow> ''/''
      | Some p \<Rightarrow>
          if char_at p = NUL then ''/''
          else if char_at p \<noteq> slash then
            let cwd = cstr (t_cwd t);
                out = (if length cwd > 1 \<and> last cwd \<noteq> slash then cwd @ [slash] else cwd)
            in norm_loop p out
          else norm_loop p [])"

subsection \<open>Open files and descriptors\<close>

definition alloc_open_file :: "vfs \<Rightarrow> int \<times> vfs" where
  "alloc_open_file v =
     (case scan_from (\<lambda>i. \<not> f_used (v_files v ! i)) 0 MAX_OPEN_FILES of
        None \<Rightarrow> (- ENFILE, v)
      | Some i \<Rightarrow> (int i, upd_file i (\<lambda>f. f\<lparr>f_used := True, f_refs := 1, f_offset := 0\<rparr>) v))"

definition attach_fd :: "nat \<Rightarrow> vfs \<Rightarrow> int \<times> vfs" where
  "attach_fd open_id v =
     (case scan_from (\<lambda>fd. t_fds (task_current (v_tasks v)) ! fd = None) 3 MGCORE_MAX_FDS of
        None \<Rightarrow> (- EMFILE, upd_file open_id (\<lambda>f. f\<lparr>f_used := False\<rparr>) v)
      | Some fd \<Rightarrow> (int fd, upd_current (\<lambda>t. t\<lparr>t_fds := (t_fds t)[fd := Some open_id]\<rparr>) v))"

definition lookup_file :: "int \<Rightarrow> vfs \<Rightarrow> nat option" where
  "lookup_file fd v =
     (if fd < 0 \<or> fd \<ge> int MGCORE_MAX_FDS then None else t_fds (task_current (v_tasks v)) ! nat fd)"

definition init_device_node :: "string \<Rightarrow> int \<Rightarrow> tmpfs \<Rightarrow> tmpfs option" where
  "init_device_node path device_id fs =
     (case tmpfs_create_path path VFS_NODE_CHARDEV 0x1B6 fs of
        None \<Rightarrow> None
      | Some (node_id, fs1) \<Rightarrow>
          (case (if node_id < 0 then tmpfs_lookup_path path fs1 else Some node_id) of
             None \<Rightarrow> None
           | Some node_id' \<Rightarrow>
               Some (if tmpfs_get_node node_id' fs1 \<noteq> None
                     then upd_node node_id' (\<lambda>n. n\<lparr>n_device_id := device_id\<rparr>) fs1 else fs1)))"

record mgcore_stat =
  st_ino :: u64
  st_nlink :: u64
  st_mode :: u32
  st_size :: u64
  st_blksize :: u64
  st_blocks :: u64

definition fill_stat_from_node :: "vfs_node option \<Rightarrow> int \<times> mgcore_stat option" where
  "fill_stat_from_node node =
     (case node of
        None \<Rightarrow> (- EINVAL, None)
      | Some n \<Rightarrow>
          (0, Some \<lparr>st_ino = word_of_int (n_id n + 1), st_nlink = 1, st_mode = n_mode n, st_size = n_size n,
                    st_blksize = 4096, st_blocks = (n_size n + 511) div 512\<rparr>))"

subsection \<open>Initialisation and the initramfs\<close>

definition fs_init :: "tmpfs \<Rightarrow> (tmpfs \<times> con_call list) option" where
  "fs_init fs =
     (let mk = (\<lambda>(path, mode) r. Option.bind r (\<lambda>f. map_option snd (tmpfs_create_path path VFS_NODE_DIR mode f)));
          dev = (\<lambda>(path, d) r. Option.bind r (init_device_node path d));
          f1 = fold mk [(''/dev'', 0x1ED), (''/bin'', 0x1ED), (''/tmp'', 0x1FF), (''/etc'', 0x1ED)] (Some (tmpfs_init fs));
          f2 = fold dev [(''/dev/console'', DEV_CONSOLE), (''/dev/tty'', DEV_TTY), (''/dev/null'', DEV_NULL), (''/dev/zero'', DEV_ZERO)] f1
      in map_option (\<lambda>f. (f, [Writeln ''fs: tmpfs root mounted'' []])) f2)"

definition hex_digit :: "u8 \<Rightarrow> u32 option" where
  "hex_digit c =
     (if 0x30 \<le> c \<and> c \<le> 0x39 then Some (ucast (c - 0x30))
      else if 0x61 \<le> c \<and> c \<le> 0x66 then Some (ucast (c - 0x61 + 10))
      else if 0x41 \<le> c \<and> c \<le> 0x46 then Some (ucast (c - 0x41 + 10))
      else None)"

fun hex_loop :: "u8 list \<Rightarrow> u32 \<Rightarrow> u32 option" where
  "hex_loop [] v = Some v"
| "hex_loop (c # text) v =
     (case hex_digit c of None \<Rightarrow> None | Some d \<Rightarrow> hex_loop text (push_bit 4 v OR d))"

text \<open>The variable the digits are parsed into starts at 0 and keeps that value when a digit is malformed.\<close>

definition parse_cpio_hex :: "u8 list \<Rightarrow> u32" where
  "parse_cpio_hex text = (case hex_loop text 0 of None \<Rightarrow> 0 | Some v \<Rightarrow> v)"

definition cpio_field :: "u8 list \<Rightarrow> nat \<Rightarrow> nat \<Rightarrow> u32" where
  "cpio_field archive cursor off = parse_cpio_hex (take 8 (drop (cursor + off) archive))"

definition chars :: "u8 list \<Rightarrow> string" where
  "chars bs = map (\<lambda>b. char_of (unat b)) bs"

definition name_at :: "u8 list \<Rightarrow> nat \<Rightarrow> string option" where
  "name_at archive a = (if 0 \<in> set (drop a archive) then Some (cstr (chars (drop a archive))) else None)"

definition align4 :: "u32 \<Rightarrow> nat" where
  "align4 n = unat ((n + 3) AND NOT 3)"

definition mount_entry :: "string \<Rightarrow> u32 \<Rightarrow> u8 list \<Rightarrow> tmpfs \<Rightarrow> tmpfs option" where
  "mount_entry path mode bytes fs =
     (if mode AND 0xF000 = 0x4000 then map_option snd (tmpfs_create_path path VFS_NODE_DIR mode fs)
      else case tmpfs_create_path path VFS_NODE_FILE mode fs of
        None \<Rightarrow> None
      | Some (node_id, fs1) \<Rightarrow>
          if node_id \<ge> 0 \<and> bytes \<noteq> [] then map_option snd (tmpfs_write_node node_id bytes 0 fs1) else Some fs1)"

partial_function (option) mount_loop :: "u8 list \<Rightarrow> task \<Rightarrow> nat \<Rightarrow> tmpfs \<Rightarrow> (int \<times> tmpfs) option" where
  "mount_loop archive t cursor fs =
     (if cursor + 110 \<le> length archive then
        if kstrncmp (chars (drop cursor archive)) ''070701'' 6 \<noteq> 0 then Some (- EINVAL, fs)
        else
          let mode = cpio_field archive cursor 14;
              file_size = cpio_field archive cursor 54;
              name_size = cpio_field archive cursor 94
          in if name_size = 0 \<or> cursor + 110 + unat name_size > length archive then Some (- EINVAL, fs)
             else case name_at archive (cursor + 110) of
               None \<Rightarrow> None
             | Some nm \<Rightarrow>
                 if kstrcmp nm ''TRAILER!!!'' = 0 then Some (0, fs)
                 else if kstrcmp nm ''.'' = 0
                 then mount_loop archive t (cursor + align4 (110 + name_size) + align4 file_size) fs
                 else
                   let path = normalize_path (Some nm) t;
                       data = cursor + align4 (110 + name_size)
                   in if data + unat file_size > length archive then Some (- EINVAL, fs)
                      else case mount_entry path mode (take (unat file_size) (drop data archive)) fs of
                        None \<Rightarrow> None
                      | Some fs1 \<Rightarrow> mount_loop archive t (data + align4 file_size) fs1
      else Some (0, fs))"

definition fs_mount_initramfs :: "u8 list \<Rightarrow> vfs \<Rightarrow> (int \<times> vfs) option" where
  "fs_mount_initramfs archive v =
     map_option (\<lambda>(r, fs). (r, v\<lparr>v_fs := fs\<rparr>)) (mount_loop archive (task_current (v_tasks v)) 0 (v_fs v))"

subsection \<open>Operations on descriptors\<close>

definition current_path :: "string option \<Rightarrow> vfs \<Rightarrow> string" where
  "current_path path v = normalize_path path (task_current (v_tasks v))"

definition open_node :: "string \<Rightarrow> int \<Rightarrow> int \<Rightarrow> tmpfs \<Rightarrow> (int \<times> tmpfs) option" where
  "open_node resolved flags mode fs =
     (case tmpfs_lookup_path resolved fs of
        None \<Rightarrow> None
      | Some node_id \<Rightarrow>
          if node_id < 0 \<and> flags AND O_CREAT \<noteq> 0
          then tmpfs_create_path resolved VFS_NODE_FILE (word_of_int mode) fs
          else Some (node_id, fs))"

definition fs_open_path :: "string option \<Rightarrow> int \<Rightarrow> int \<Rightarrow> vfs \<Rightarrow> (int \<times> vfs) option" where
  "fs_open_path path flags mode v =
     (case open_node (current_path path v) flags mode (v_fs v) of
        None \<Rightarrow> None
      | Some (node_id, fs) \<Rightarrow>
          let v1 = v\<lparr>v_fs := fs\<rparr>
          in if node_id < 0 then Some (node_id, v1)
             else case alloc_open_file v1 of (open_id, v2) \<Rightarrow>
               if open_id < 0 then Some (open_id, v2)
               else Some (attach_fd (nat open_id)
                      (upd_file (nat open_id) (\<lambda>f. f\<lparr>f_node_id := node_id, f_flags := flags\<rparr>) v2)))"

fun con_read :: "(nat \<Rightarrow> char option) \<Rightarrow> nat \<Rightarrow> nat \<Rightarrow> console \<Rightarrow> string \<times> console" where
  "con_read rx i 0 c = ([], c)"
| "con_read rx i (Suc n) c =
     (case console_try_read_char (rx i) c of
        (None, c1) \<Rightarrow> ([], c1)
      | (Some ch, c1) \<Rightarrow> (case con_read rx (Suc i) n c1 of (s, c2) \<Rightarrow> (ch # s, c2)))"

definition read_console :: "(nat \<Rightarrow> char option) \<Rightarrow> u64 \<Rightarrow> vfs \<Rightarrow> int \<times> u8 list \<times> vfs" where
  "read_console rx count v =
     (case con_read rx 0 (unat count) (v_con v) of
        (s, c) \<Rightarrow> (int (length s), map (\<lambda>ch. of_char ch) s, v\<lparr>v_con := c\<rparr>))"

definition fs_read_fd :: "(nat \<Rightarrow> char option) \<Rightarrow> int \<Rightarrow> u64 \<Rightarrow> vfs \<Rightarrow> (int \<times> u8 list \<times> vfs) option" where
  "fs_read_fd rx fd count v =
     (case lookup_file fd v of
        None \<Rightarrow> if fd = 0 then Some (read_console rx count v) else Some (- EBADF, [], v)
      | Some i \<Rightarrow>
          let file = v_files v ! i
          in case tmpfs_get_node (f_node_id file) (v_fs v) of
               None \<Rightarrow> Some (- EBADF, [], v)
             | Some node \<Rightarrow>
                 if n_type node = VFS_NODE_CHARDEV \<and> n_device_id node = DEV_ZERO
                 then Some (sint count, replicate (unat count) 0, v)
                 else if n_type node = VFS_NODE_CHARDEV \<and>
                         (n_device_id node = DEV_NULL \<or> n_device_id node = DEV_CONSOLE \<or> n_device_id node = DEV_TTY)
                 then Some (read_console rx count v)
                 else case tmpfs_read_node (f_node_id file) count (f_offset file) (v_fs v) of
                        None \<Rightarrow> None
                      | Some (r, out) \<Rightarrow>
                          Some (r, out, if r \<ge> 0 then upd_file i (\<lambda>f. f\<lparr>f_offset := f_offset f + word_of_int r\<rparr>) v else v))"

definition write_console :: "u8 list \<Rightarrow> vfs \<Rightarrow> int \<times> vfs" where
  "write_console buffer v = (sint (of_nat (length buffer) :: u64), v\<lparr>v_con := console_write_n (chars buffer) (v_con v)\<rparr>)"

definition fs_write_fd :: "int \<Rightarrow> u8 list \<Rightarrow> vfs \<Rightarrow> (int \<times> vfs) option" where
  "fs_write_fd fd buffer v =
     (case lookup_file fd v of
        None \<Rightarrow> if fd = 1 \<or> fd = 2 then Some (write_console buffer v) else Some (- EBADF, v)
      | Some i \<Rightarrow>
          let file = v_files v ! i
          in case tmpfs_get_node (f_node_id file) (v_fs v) of
               None \<Rightarrow> Some (- EBADF, v)
             | Some node \<Rightarrow>
                 if n_type node = VFS_NODE_CHARDEV \<and> n_device_id node = DEV_NULL
                 then Some (sint (of_nat (length buffer) :: u64), v)
                 else if n_type node = VFS_NODE_CHARDEV \<and> (n_device_id node = DEV_CONSOLE \<or> n_device_id node = DEV_TTY)
                 then Some (write_console buffer v)
                 else map_option (\<lambda>(r, fs). (r, v\<lparr>v_fs := fs\<rparr>))
                        (tmpfs_write_node (f_node_id file) buffer (f_offset file) (v_fs v)))"

definition fs_close_fd :: "int \<Rightarrow> vfs \<Rightarrow> int \<times> vfs" where
  "fs_close_fd fd v =
     (case lookup_file fd v of
        None \<Rightarrow> (if fd \<ge> 0 \<and> fd \<le> 2 then 0 else - EBADF, v)
      | Some i \<Rightarrow>
          let v1 = upd_file i (\<lambda>f. if f_refs f - 1 \<le> 0 then zero_file else f\<lparr>f_refs := f_refs f - 1\<rparr>) v
          in (0, upd_current (\<lambda>t. t\<lparr>t_fds := (t_fds t)[nat fd := None]\<rparr>) v1))"

definition fs_lseek_fd :: "int \<Rightarrow> u64 \<Rightarrow> int \<Rightarrow> vfs \<Rightarrow> int \<times> vfs" where
  "fs_lseek_fd fd offset whence v =
     (case lookup_file fd v of
        None \<Rightarrow> (- EBADF, v)
      | Some i \<Rightarrow>
          (case tmpfs_get_node (f_node_id (v_files v ! i)) (v_fs v) of
             None \<Rightarrow> (- EBADF, v)
           | Some node \<Rightarrow>
               let pos = (if whence = SEEK_SET then Some offset
                          else if whence = SEEK_CUR then Some (f_offset (v_files v ! i) + offset)
                          else if whence = SEEK_END then Some (n_size node + offset)
                          else None)
               in case pos of
                    None \<Rightarrow> (- EINVAL, v)
                  | Some p \<Rightarrow> (sint p, upd_file i (\<lambda>f. f\<lparr>f_offset := p\<rparr>) v)))"

definition fs_stat_path :: "string option \<Rightarrow> vfs \<Rightarrow> (int \<times> mgcore_stat option) option" where
  "fs_stat_path path v =
     map_option (\<lambda>node_id. fill_stat_from_node (tmpfs_get_node node_id (v_fs v)))
       (tmpfs_lookup_path (current_path path v) (v_fs v))"

definition fs_fstat_fd :: "int \<Rightarrow> vfs \<Rightarrow> int \<times> mgcore_stat option" where
  "fs_fstat_fd fd v =
     (case lookup_file fd v of
        None \<Rightarrow> (- EBADF, None)
      | Some i \<Rightarrow> fill_stat_from_node (tmpfs_get_node (f_node_id (v_files v ! i)) (v_fs v)))"

definition on_fs :: "(int \<times> tmpfs) option \<Rightarrow> vfs \<Rightarrow> (int \<times> vfs) option" where
  "on_fs res v = map_option (\<lambda>(r, fs). (r, v\<lparr>v_fs := fs\<rparr>)) res"

definition fs_mkdir_path :: "string option \<Rightarrow> u32 \<Rightarrow> vfs \<Rightarrow> (int \<times> vfs) option" where
  "fs_mkdir_path path mode v = on_fs (tmpfs_create_path (current_path path v) VFS_NODE_DIR mode (v_fs v)) v"

definition fs_rmdir_path :: "string option \<Rightarrow> vfs \<Rightarrow> (int \<times> vfs) option" where
  "fs_rmdir_path path v = on_fs (tmpfs_remove_path (current_path path v) True (v_fs v)) v"

definition fs_unlink_path :: "string option \<Rightarrow> vfs \<Rightarrow> (int \<times> vfs) option" where
  "fs_unlink_path path v = on_fs (tmpfs_remove_path (current_path path v) False (v_fs v)) v"

definition fs_chdir_path :: "string option \<Rightarrow> vfs \<Rightarrow> (int \<times> vfs) option" where
  "fs_chdir_path path v =
     (let resolved = current_path path v
      in case tmpfs_lookup_path resolved (v_fs v) of
           None \<Rightarrow> None
         | Some node_id \<Rightarrow>
             if node_id < 0 then Some (node_id, v)
             else case tmpfs_get_node node_id (v_fs v) of
               None \<Rightarrow> Some (- ENOTDIR, v)
             | Some node \<Rightarrow>
                 if n_type node \<noteq> VFS_NODE_DIR then Some (- ENOTDIR, v)
                 else Some (0, upd_current (\<lambda>t. t\<lparr>t_cwd := bounded_name 127 resolved\<rparr>) v))"

definition fs_getcwd :: "vfs \<Rightarrow> string" where
  "fs_getcwd v = t_cwd (task_current (v_tasks v))"

definition fs_dump_root :: "vfs \<Rightarrow> con_call list option" where
  "fs_dump_root v = tmpfs_dump_root (v_fs v)"

subsection \<open>Normalisation\<close>

fun single_slashes :: "string \<Rightarrow> bool" where
  "single_slashes (a # b # s) \<longleftrightarrow> \<not> (a = slash \<and> b = slash) \<and> single_slashes (b # s)"
| "single_slashes _ \<longleftrightarrow> True"

lemma single_slashes_snoc:
  "single_slashes (s @ [c]) \<longleftrightarrow> single_slashes s \<and> \<not> (s \<noteq> [] \<and> last s = slash \<and> c = slash)"
  by (induction s rule: single_slashes.induct) auto

definition clean_path :: "string \<Rightarrow> bool" where
  "clean_path p \<longleftrightarrow> single_slashes p \<and> NUL \<notin> set p \<and> length p < 256"

lemma norm_loop_clean: "clean_path out \<Longrightarrow> clean_path (norm_loop s out) \<and> (out \<noteq> [] \<longrightarrow> char_at (norm_loop s out) = char_at out)"
proof (induction s out rule: norm_loop.induct)
  case (2 c s out)
  show ?case
  proof (cases "c = NUL \<or> \<not> length out + 1 < MGCORE_PATH_MAX")
    case True
    then show ?thesis using 2 by simp
  next
    case step: False
    show ?thesis
    proof (cases "c = slash \<and> length out > 0 \<and> last out = slash")
      case False
      then have "clean_path (out @ [c])"
        using "2.prems" step by (auto simp: clean_path_def single_slashes_snoc MGCORE_PATH_MAX_def)
      then show ?thesis using "2.IH"(2) step False by (auto simp: char_at_def split: list.splits)
    qed (use 2 step in simp)
  qed
qed simp

lemma norm_loop_id: "clean_path (out @ s) \<Longrightarrow> norm_loop s out = out @ s"
proof (induction s arbitrary: out)
  case (Cons c s)
  have c: "clean_path ((out @ [c]) @ s)" using Cons.prems by simp
  have "\<not> (c = slash \<and> length out > 0 \<and> last out = slash)"
  proof
    assume "c = slash \<and> length out > 0 \<and> last out = slash"
    then obtain us where "out = us @ [slash]" "c = slash" by (metis append_butlast_last_id length_greater_0_conv)
    moreover have "\<not> single_slashes (us @ slash # slash # s)"
      by (induction us rule: single_slashes.induct) auto
    ultimately show False using Cons.prems by (simp add: clean_path_def)
  qed
  moreover have "c \<noteq> NUL" "length out + 1 < MGCORE_PATH_MAX"
    using Cons.prems by (auto simp: clean_path_def MGCORE_PATH_MAX_def)
  ultimately show ?case using Cons.IH [OF c] by auto
qed simp

definition cwd_ok :: "string \<Rightarrow> bool" where
  "cwd_ok s \<longleftrightarrow> char_at s = slash \<and> single_slashes s \<and> NUL \<notin> set s \<and> length s < 128"

lemma cwd_ok_root [simp]: "cwd_ok ''/''"
  by (simp add: cwd_ok_def char_at_def)

lemma normalize_path_clean:
  assumes "cwd_ok (t_cwd t)"
  shows "clean_path (normalize_path path t)" and "char_at (normalize_path path t) = slash"
proof -
  have root: "clean_path ''/''" "char_at ''/'' = slash" by (simp_all add: clean_path_def char_at_def)
  have cwd: "cstr (t_cwd t) = t_cwd t" "t_cwd t \<noteq> []" using assms by (auto simp: cwd_ok_def cstr_id char_at_def)
  let ?out = "if length (t_cwd t) > 1 \<and> last (t_cwd t) \<noteq> slash then t_cwd t @ [slash] else t_cwd t"
  have out: "clean_path ?out" "?out \<noteq> []" "char_at ?out = slash"
    using assms cwd(2) by (auto simp: cwd_ok_def clean_path_def single_slashes_snoc char_at_def split: list.splits)
  have abs: "clean_path (norm_loop p []) \<and> char_at (norm_loop p []) = slash" if p: "char_at p = slash" for p
  proof -
    obtain q where q: "p = slash # q" using p by (cases p) (auto simp: char_at_def)
    have "norm_loop p [] = norm_loop q ''/''" by (simp add: q MGCORE_PATH_MAX_def)
    then show ?thesis using norm_loop_clean [of "''/''" q] root by simp
  qed
  show "clean_path (normalize_path path t)"
    using abs norm_loop_clean [OF out(1)] root by (auto simp: normalize_path_def Let_def cwd(1) split: option.splits)
  show "char_at (normalize_path path t) = slash"
    using abs norm_loop_clean [OF out(1)] out(2,3) root by (auto simp: normalize_path_def Let_def cwd(1) split: option.splits)
qed



subsection \<open>Descriptors and open files\<close>

definition fdt :: "vfs \<Rightarrow> nat \<Rightarrow> nat \<Rightarrow> nat option" where
  "fdt v i fd = t_fds (g_tasks (v_tasks v) ! i) ! fd"

definition fd_refs :: "vfs \<Rightarrow> nat \<Rightarrow> (nat \<times> nat) set" where
  "fd_refs v k = {(i, fd). i < MGCORE_MAX_TASKS \<and> fd < MGCORE_MAX_FDS \<and> fdt v i fd = Some k}"

definition file_in_use :: "vfs \<Rightarrow> nat \<Rightarrow> bool" where
  "file_in_use v k \<longleftrightarrow> k < MAX_OPEN_FILES \<and> f_used (v_files v ! k)"

text \<open>
  The invariant of the open file layer: descriptor tables have 32 entries, those of free task slots are
  empty and no descriptor below 3 is ever set; an open file in use belongs to exactly one descriptor
  of one task and has one reference, and an open file that is not in use belongs to none.
\<close>

definition fd_inv :: "vfs \<Rightarrow> bool" where
  "fd_inv v \<longleftrightarrow> length (v_files v) = MAX_OPEN_FILES \<and>
     (\<forall>i < MGCORE_MAX_TASKS. length (t_fds (g_tasks (v_tasks v) ! i)) = MGCORE_MAX_FDS) \<and>
     (\<forall>i < MGCORE_MAX_TASKS. tstate (v_tasks v) i = TASK_UNUSED \<longrightarrow> (\<forall>fd < MGCORE_MAX_FDS. fdt v i fd = None)) \<and>
     (\<forall>i < MGCORE_MAX_TASKS. tstate (v_tasks v) i \<noteq> TASK_UNUSED \<longrightarrow> cwd_ok (t_cwd (g_tasks (v_tasks v) ! i))) \<and>
     (\<forall>k i fd. (i, fd) \<in> fd_refs v k \<longrightarrow> 3 \<le> fd) \<and>
     (\<forall>k. file_in_use v k \<longrightarrow> f_refs (v_files v ! k) = 1 \<and> (\<exists>p. fd_refs v k = {p})) \<and>
     (\<forall>k. \<not> file_in_use v k \<longrightarrow> fd_refs v k = {})"

lemma fd_invD:
  assumes "fd_inv v"
  shows "length (v_files v) = MAX_OPEN_FILES" "i < MGCORE_MAX_TASKS \<Longrightarrow> length (t_fds (g_tasks (v_tasks v) ! i)) = MGCORE_MAX_FDS"
    "i < MGCORE_MAX_TASKS \<Longrightarrow> tstate (v_tasks v) i = TASK_UNUSED \<Longrightarrow> fd < MGCORE_MAX_FDS \<Longrightarrow> fdt v i fd = None"
    "i < MGCORE_MAX_TASKS \<Longrightarrow> tstate (v_tasks v) i \<noteq> TASK_UNUSED \<Longrightarrow> cwd_ok (t_cwd (g_tasks (v_tasks v) ! i))"
    "(i, fd) \<in> fd_refs v k \<Longrightarrow> 3 \<le> fd" "file_in_use v k \<Longrightarrow> f_refs (v_files v ! k) = 1"
    "file_in_use v k \<Longrightarrow> \<exists>p. fd_refs v k = {p}" "\<not> file_in_use v k \<Longrightarrow> fd_refs v k = {}"
  using assms unfolding fd_inv_def by meson+

lemma fd_invI:
  assumes "length (v_files v) = MAX_OPEN_FILES" "\<And>i. i < MGCORE_MAX_TASKS \<Longrightarrow> length (t_fds (g_tasks (v_tasks v) ! i)) = MGCORE_MAX_FDS"
    "\<And>i fd. i < MGCORE_MAX_TASKS \<Longrightarrow> tstate (v_tasks v) i = TASK_UNUSED \<Longrightarrow> fd < MGCORE_MAX_FDS \<Longrightarrow> fdt v i fd = None"
    "\<And>i. i < MGCORE_MAX_TASKS \<Longrightarrow> tstate (v_tasks v) i \<noteq> TASK_UNUSED \<Longrightarrow> cwd_ok (t_cwd (g_tasks (v_tasks v) ! i))"
    "\<And>i fd k. (i, fd) \<in> fd_refs v k \<Longrightarrow> 3 \<le> fd" "\<And>k. file_in_use v k \<Longrightarrow> f_refs (v_files v ! k) = 1"
    "\<And>k. file_in_use v k \<Longrightarrow> \<exists>p. fd_refs v k = {p}" "\<And>k. \<not> file_in_use v k \<Longrightarrow> fd_refs v k = {}"
  shows "fd_inv v"
  using assms unfolding fd_inv_def by meson

lemma fd_inv_cong:
  assumes inv: "fd_inv v" and l: "length (v_files v') = length (v_files v)"
    and f: "\<And>k. k < MAX_OPEN_FILES \<Longrightarrow> f_used (v_files v' ! k) = f_used (v_files v ! k) \<and> (f_used (v_files v ! k) \<longrightarrow> f_refs (v_files v' ! k) = f_refs (v_files v ! k))"
    and t: "\<And>i. i < MGCORE_MAX_TASKS \<Longrightarrow> t_fds (g_tasks (v_tasks v') ! i) = t_fds (g_tasks (v_tasks v) ! i)"
    and u: "\<And>i. i < MGCORE_MAX_TASKS \<Longrightarrow> tstate (v_tasks v') i = TASK_UNUSED \<Longrightarrow> tstate (v_tasks v) i = TASK_UNUSED"
    and c: "\<And>i. i < MGCORE_MAX_TASKS \<Longrightarrow> tstate (v_tasks v') i \<noteq> TASK_UNUSED \<Longrightarrow> cwd_ok (t_cwd (g_tasks (v_tasks v') ! i))"
  shows "fd_inv v'"
proof -
  note d = fd_invD [OF inv]
  have fd: "fdt v' i fd = fdt v i fd" if "i < MGCORE_MAX_TASKS" for i fd using t that by (simp add: fdt_def)
  have r: "fd_refs v' k = fd_refs v k" for k using fd by (auto simp: fd_refs_def)
  have use: "file_in_use v' k = file_in_use v k" for k using f by (auto simp: file_in_use_def)
  show ?thesis
  proof (rule fd_invI)
    show "\<And>k. file_in_use v' k \<Longrightarrow> f_refs (v_files v' ! k) = 1" using d(6) f use by (auto simp: file_in_use_def)
  qed (use d l t u c fd in \<open>auto simp: use r\<close>)
qed

definition cur :: "vfs \<Rightarrow> nat" where
  "cur v = g_current_index (v_tasks v)"

lemma upd_current_tasks:
  assumes "task_inv (v_tasks v)" and "i < MGCORE_MAX_TASKS"
  shows "g_tasks (v_tasks (upd_current f v)) ! i = (if i = cur v then f (g_tasks (v_tasks v) ! i) else g_tasks (v_tasks v) ! i)"
  using task_invD(1) [OF assms(1)] assms(2) by (simp add: upd_current_def cur_def)

lemma upd_current_sel [simp]:
  "v_files (upd_current f v) = v_files v" "v_fs (upd_current f v) = v_fs v" "v_con (upd_current f v) = v_con v"
  "cur (upd_current f v) = cur v"
  by (simp_all add: upd_current_def cur_def)

lemma upd_file_sel [simp]:
  "length (v_files (upd_file k f v)) = length (v_files v)" "v_fs (upd_file k f v) = v_fs v"
  "v_tasks (upd_file k f v) = v_tasks v" "v_con (upd_file k f v) = v_con v"
  "j < length (v_files v) \<Longrightarrow> v_files (upd_file k f v) ! j = (if j = k then f (v_files v ! k) else v_files v ! j)"
  by (auto simp: upd_file_def)

lemma attach_inv:
  assumes inv: "fd_inv v" and ti: "task_inv (v_tasks v)" and k: "k < MAX_OPEN_FILES" "\<not> file_in_use v k"
    and fd: "3 \<le> fd" "fd < MGCORE_MAX_FDS" "fdt v (cur v) fd = None"
    and files: "length (v_files v') = MAX_OPEN_FILES" "f_used (v_files v' ! k)" "f_refs (v_files v' ! k) = 1"
      "\<And>j. j < MAX_OPEN_FILES \<Longrightarrow> j \<noteq> k \<Longrightarrow> v_files v' ! j = v_files v ! j"
    and tasks: "v_tasks v' = v_tasks (upd_current (\<lambda>t. t\<lparr>t_fds := (t_fds t)[fd := Some k]\<rparr>) v)"
  shows "fd_inv v'"
proof -
  note d = fd_invD [OF inv] and td = task_invD [OF ti]
  have ci: "cur v < MGCORE_MAX_TASKS" "tstate (v_tasks v) (cur v) \<noteq> TASK_UNUSED" using td(2,4) by (simp_all add: cur_def)
  have n: "g_tasks (v_tasks v') ! i = (if i = cur v then (g_tasks (v_tasks v) ! i)\<lparr>t_fds := (t_fds (g_tasks (v_tasks v) ! i))[fd := Some k]\<rparr>
      else g_tasks (v_tasks v) ! i)" if "i < MGCORE_MAX_TASKS" for i
    unfolding tasks using upd_current_tasks [OF ti that] by simp
  have st: "tstate (v_tasks v') i = tstate (v_tasks v) i" if "i < MGCORE_MAX_TASKS" for i using n [OF that] by (simp add: tstate_def)
  have f: "fdt v' i g = (if i = cur v \<and> g = fd then Some k else fdt v i g)" if "i < MGCORE_MAX_TASKS" "g < MGCORE_MAX_FDS" for i g
    using n [OF that(1)] d(2) [OF ci(1)] that(2) by (simp add: fdt_def)
  have r: "fd_refs v' j = (if j = k then {(cur v, fd)} else fd_refs v j)" for j
    using f fd(2,3) ci(1) d(8) [OF k(2)] by (auto simp: fd_refs_def split: if_splits)
  have use: "file_in_use v' j \<longleftrightarrow> j = k \<or> file_in_use v j" for j using files k(1) by (cases "j = k") (auto simp: file_in_use_def)
  show ?thesis
  proof (rule fd_invI)
    show "length (t_fds (g_tasks (v_tasks v') ! i)) = MGCORE_MAX_FDS" if "i < MGCORE_MAX_TASKS" for i using n [OF that] d(2) [OF that] by auto
    show "fdt v' i g = None" if "i < MGCORE_MAX_TASKS" "tstate (v_tasks v') i = TASK_UNUSED" "g < MGCORE_MAX_FDS" for i g
      using that f st d(3) ci(2) by auto
    show "cwd_ok (t_cwd (g_tasks (v_tasks v') ! i))" if "i < MGCORE_MAX_TASKS" "tstate (v_tasks v') i \<noteq> TASK_UNUSED" for i
      using that n st d(4) by auto
    show "3 \<le> g" if "(i, g) \<in> fd_refs v' j" for i g j using that r d(5) fd(1) by (auto split: if_splits)
    show "f_refs (v_files v' ! j) = 1" if "file_in_use v' j" for j using that use files d(6) by (cases "j = k") (auto simp: file_in_use_def)
    show "\<exists>p. fd_refs v' j = {p}" if "file_in_use v' j" for j using that use r d(7) by auto
    show "fd_refs v' j = {}" if "\<not> file_in_use v' j" for j using that use r d(8) by auto
  qed (rule files(1))
qed

lemma detach_inv:
  assumes inv: "fd_inv v" and ti: "task_inv (v_tasks v)" and fd: "fd < MGCORE_MAX_FDS" "fdt v (cur v) fd = Some k"
    and files: "length (v_files v') = MAX_OPEN_FILES" "\<not> f_used (v_files v' ! k)"
      "\<And>j. j < MAX_OPEN_FILES \<Longrightarrow> j \<noteq> k \<Longrightarrow> v_files v' ! j = v_files v ! j"
    and tasks: "v_tasks v' = v_tasks (upd_current (\<lambda>t. t\<lparr>t_fds := (t_fds t)[fd := None]\<rparr>) v)"
  shows "fd_inv v'"
proof -
  note d = fd_invD [OF inv] and td = task_invD [OF ti]
  have ci: "cur v < MGCORE_MAX_TASKS" "tstate (v_tasks v) (cur v) \<noteq> TASK_UNUSED" using td(2,4) by (simp_all add: cur_def)
  have in_k: "(cur v, fd) \<in> fd_refs v k" using fd ci(1) by (simp add: fd_refs_def)
  then have u: "file_in_use v k" using d(8) by blast
  then have rk: "fd_refs v k = {(cur v, fd)}" using d(7) in_k by force
  have n: "g_tasks (v_tasks v') ! i = (if i = cur v then (g_tasks (v_tasks v) ! i)\<lparr>t_fds := (t_fds (g_tasks (v_tasks v) ! i))[fd := None]\<rparr>
      else g_tasks (v_tasks v) ! i)" if "i < MGCORE_MAX_TASKS" for i
    unfolding tasks using upd_current_tasks [OF ti that] by simp
  have st: "tstate (v_tasks v') i = tstate (v_tasks v) i" if "i < MGCORE_MAX_TASKS" for i using n [OF that] by (simp add: tstate_def)
  have f: "fdt v' i g = (if i = cur v \<and> g = fd then None else fdt v i g)" if "i < MGCORE_MAX_TASKS" "g < MGCORE_MAX_FDS" for i g
    using n [OF that(1)] d(2) [OF ci(1)] that(2) by (simp add: fdt_def)
  have r: "fd_refs v' j = (if j = k then {} else fd_refs v j)" for j
    using f fd ci(1) rk by (auto simp: fd_refs_def split: if_splits)
  have use: "file_in_use v' j \<longleftrightarrow> j \<noteq> k \<and> file_in_use v j" for j using files u by (cases "j = k") (auto simp: file_in_use_def)
  show ?thesis
  proof (rule fd_invI)
    show "length (t_fds (g_tasks (v_tasks v') ! i)) = MGCORE_MAX_FDS" if "i < MGCORE_MAX_TASKS" for i using n [OF that] d(2) [OF that] by auto
    show "fdt v' i g = None" if "i < MGCORE_MAX_TASKS" "tstate (v_tasks v') i = TASK_UNUSED" "g < MGCORE_MAX_FDS" for i g
      using that f st d(3) by auto
    show "cwd_ok (t_cwd (g_tasks (v_tasks v') ! i))" if "i < MGCORE_MAX_TASKS" "tstate (v_tasks v') i \<noteq> TASK_UNUSED" for i
      using that n st d(4) by auto
    show "3 \<le> g" if "(i, g) \<in> fd_refs v' j" for i g j using that r d(5) by (auto split: if_splits)
    show "f_refs (v_files v' ! j) = 1" if "file_in_use v' j" for j using that use files d(6) by (auto simp: file_in_use_def)
    show "\<exists>p. fd_refs v' j = {p}" if "file_in_use v' j" for j using that use r d(7) by auto
    show "fd_refs v' j = {}" if "\<not> file_in_use v' j" for j using that use r d(8) by auto
  qed (rule files(1))
qed

definition vfs_inv :: "vfs \<Rightarrow> bool" where
  "vfs_inv v \<longleftrightarrow> tmpfs_inv (v_fs v) \<and> task_inv (v_tasks v) \<and> fd_inv v \<and> console_inv (v_con v)"

lemma current_task:
  assumes "vfs_inv v"
  shows "cur v < MGCORE_MAX_TASKS" "task_current (v_tasks v) = g_tasks (v_tasks v) ! cur v" "cwd_ok (t_cwd (task_current (v_tasks v)))"
    "length (t_fds (task_current (v_tasks v))) = MGCORE_MAX_FDS" "tstate (v_tasks v) (cur v) \<noteq> TASK_UNUSED"
proof -
  have ti: "task_inv (v_tasks v)" and fi: "fd_inv v" using assms by (auto simp: vfs_inv_def)
  show c: "cur v < MGCORE_MAX_TASKS" "task_current (v_tasks v) = g_tasks (v_tasks v) ! cur v" "tstate (v_tasks v) (cur v) \<noteq> TASK_UNUSED"
    using task_invD(2,4) [OF ti] by (simp_all add: cur_def task_current_def)
  show "cwd_ok (t_cwd (task_current (v_tasks v)))" "length (t_fds (task_current (v_tasks v))) = MGCORE_MAX_FDS"
    using fd_invD(2,4) [OF fi c(1)] c by simp_all
qed

lemma lookup_file_fdt:
  assumes "vfs_inv v"
  shows "lookup_file fd v = (if 0 \<le> fd \<and> fd < int MGCORE_MAX_FDS then fdt v (cur v) (nat fd) else None)"
  using current_task(2) [OF assms] by (auto simp: lookup_file_def fdt_def)

lemma lookup_file_SomeD:
  assumes "vfs_inv v" and "lookup_file fd v = Some k"
  shows "0 \<le> fd" "fd < int MGCORE_MAX_FDS" "fdt v (cur v) (nat fd) = Some k" "file_in_use v k" "k < length (v_files v)" "3 \<le> nat fd"
proof -
  have fi: "fd_inv v" using assms(1) by (simp add: vfs_inv_def)
  show f: "0 \<le> fd" "fd < int MGCORE_MAX_FDS" "fdt v (cur v) (nat fd) = Some k"
    using assms(2) lookup_file_fdt [OF assms(1)] by (auto split: if_splits)
  then have m: "(cur v, nat fd) \<in> fd_refs v k" using current_task(1) [OF assms(1)] by (simp add: fd_refs_def)
  then show u: "file_in_use v k" using fd_invD(8) [OF fi] by blast
  then show "k < length (v_files v)" using fd_invD(1) [OF fi] by (simp add: file_in_use_def)
  show "3 \<le> nat fd" using fd_invD(5) [OF fi m] .
qed

definition open_file :: "int \<Rightarrow> int \<Rightarrow> vfs_file" where
  "open_file node flags = \<lparr>f_used = True, f_refs = 1, f_node_id = node, f_offset = 0, f_flags = flags\<rparr>"

lemma fs_open_cases:
  assumes inv: "vfs_inv v" and op: "fs_open_path path flags mode v = Some (r, v')"
  obtains node fs where "open_node (current_path path v) flags mode (v_fs v) = Some (node, fs)" "r < 0"
      "v_fs v' = fs" "v_tasks v' = v_tasks v" "length (v_files v') = length (v_files v)" "v_con v' = v_con v"
      "\<And>k. k < MAX_OPEN_FILES \<Longrightarrow> f_used (v_files v' ! k) = f_used (v_files v ! k) \<and> (f_used (v_files v ! k) \<longrightarrow> v_files v' ! k = v_files v ! k)"
  | node fs k fd where "open_node (current_path path v) flags mode (v_fs v) = Some (node, fs)" "r = int fd" "0 \<le> node"
      "3 \<le> fd" "fd < MGCORE_MAX_FDS" "fdt v (cur v) fd = None" "k < MAX_OPEN_FILES" "\<not> file_in_use v k"
      "\<And>j. j < k \<Longrightarrow> file_in_use v j"
      "v' = upd_current (\<lambda>t. t\<lparr>t_fds := (t_fds t)[fd := Some k]\<rparr>) (v\<lparr>v_fs := fs, v_files := (v_files v)[k := open_file node flags]\<rparr>)"
proof -
  have fi: "fd_inv v" using inv by (simp add: vfs_inv_def)
  note len = fd_invD(1) [OF fi]
  obtain node fs where on: "open_node (current_path path v) flags mode (v_fs v) = Some (node, fs)"
    using op by (auto simp: fs_open_path_def split: option.splits)
  let ?v1 = "v\<lparr>v_fs := fs\<rparr>"
  show thesis
  proof (cases "node < 0")
    case True
    then have "r = node" "v' = ?v1" using op on by (simp_all add: fs_open_path_def)
    then show thesis using that(1) [OF on] True by simp
  next
    case nn: False
    show thesis
    proof (cases "scan_from (\<lambda>i. \<not> f_used (v_files v ! i)) 0 MAX_OPEN_FILES")
      case None
      then have "r = - ENFILE" "v' = ?v1" using op on nn by (simp_all add: fs_open_path_def alloc_open_file_def ENFILE_def)
      then show thesis using that(1) [OF on] by (simp add: ENFILE_def)
    next
      case (Some k)
      note sk = scan_from_SomeD [OF Some]
      have k: "k < MAX_OPEN_FILES" "\<not> f_used (v_files v ! k)" "\<And>j. j < k \<Longrightarrow> f_used (v_files v ! j)" using sk by auto
      let ?v2 = "v\<lparr>v_fs := fs, v_files := (v_files v)[k := open_file node flags]\<rparr>"
      have v2: "upd_file k (\<lambda>f. f\<lparr>f_node_id := node, f_flags := flags\<rparr>) (upd_file k (\<lambda>f. f\<lparr>f_used := True, f_refs := 1, f_offset := 0\<rparr>) ?v1) = ?v2"
      proof -
        have "(v_files v ! k)\<lparr>f_used := True, f_refs := 1, f_offset := 0, f_node_id := node, f_flags := flags\<rparr> = open_file node flags"
          by (cases "v_files v ! k") (simp add: open_file_def)
        then show ?thesis using k(1) len by (simp add: upd_file_def)
      qed
      have at: "attach_fd k ?v2 = (r, v')" using op on nn Some v2 by (simp add: fs_open_path_def alloc_open_file_def)
      show thesis
      proof (cases "scan_from (\<lambda>fd. t_fds (task_current (v_tasks v)) ! fd = None) 3 MGCORE_MAX_FDS")
        case None
        then have "r = - EMFILE" "v' = upd_file k (\<lambda>f. f\<lparr>f_used := False\<rparr>) ?v2" using at by (simp_all add: attach_fd_def)
        then show thesis using that(1) [OF on] k len by (auto simp: EMFILE_def)
      next
        case (Some fd)
        note sf = scan_from_SomeD [OF Some]
        have "r = int fd" "v' = upd_current (\<lambda>t. t\<lparr>t_fds := (t_fds t)[fd := Some k]\<rparr>) ?v2" using at Some by (simp_all add: attach_fd_def)
        moreover have "fdt v (cur v) fd = None" using sf(3) current_task(2) [OF inv] by (simp add: fdt_def)
        ultimately show thesis using that(2) [OF on, of fd k] sf k nn by (auto simp: file_in_use_def)
      qed
    qed
  qed
qed

lemma current_path_clean: "vfs_inv v \<Longrightarrow> clean_path (current_path path v)"
  unfolding current_path_def by (rule normalize_path_clean(1)) (rule current_task(3))

lemma open_node_inv:
  assumes "tmpfs_inv fs" and "clean_path p" and "open_node p flags mode fs = Some (node, fs')"
  shows "tmpfs_inv fs'"
  using assms tmpfs_create_path_inv [of fs p VFS_NODE_FILE] by (auto simp: open_node_def clean_path_def split: option.splits if_splits)

lemma vfs_inv_fs: "vfs_inv v \<Longrightarrow> tmpfs_inv fs \<Longrightarrow> vfs_inv (v\<lparr>v_fs := fs\<rparr>)"
  unfolding vfs_inv_def using fd_inv_cong [of v "v\<lparr>v_fs := fs\<rparr>"] fd_invD(4) [of v] by simp

lemma vfs_inv_con: "vfs_inv v \<Longrightarrow> console_inv c \<Longrightarrow> vfs_inv (v\<lparr>v_con := c\<rparr>)"
  unfolding vfs_inv_def using fd_inv_cong [of v "v\<lparr>v_con := c\<rparr>"] fd_invD(4) [of v] by simp

lemma con_read_inv [invariants]: "console_inv c \<Longrightarrow> console_inv (snd (con_read rx i n c))"
proof (induction n arbitrary: i c)
  case (Suc n)
  obtain r c1 where t: "console_try_read_char (rx i) c = (r, c1)" by fastforce
  have "console_inv c1" by (rule try_read_inv [OF Suc.prems t])
  then show ?case using Suc.IH [of c1 "Suc i"] by (cases r; cases "con_read rx (Suc i) n c1") (simp_all add: t)
qed simp

lemma read_console_inv: "vfs_inv v \<Longrightarrow> read_console rx n v = (r, out, v') \<Longrightarrow> vfs_inv v'"
  using vfs_inv_con [of v] con_read_inv [of "v_con v" rx 0 "unat n"]
  by (cases "con_read rx 0 (unat n) (v_con v)") (auto simp: read_console_def vfs_inv_def)

lemma write_console_inv: "vfs_inv v \<Longrightarrow> write_console buf v = (r, v') \<Longrightarrow> vfs_inv v'"
  using vfs_inv_con [of v] by (auto simp: write_console_def vfs_inv_def console_write_n_inv)

lemma fs_open_con: "fs_open_path path flags mode v = Some (r, v') \<Longrightarrow> v_con v' = v_con v"
  by (auto simp: fs_open_path_def alloc_open_file_def attach_fd_def upd_file_def upd_current_def Let_def
      split: option.splits if_splits prod.splits)

lemma fs_open_path_inv [invariants]:
  assumes inv: "vfs_inv v" and op: "fs_open_path path flags mode v = Some (r, v')"
  shows "vfs_inv v'"
proof (rule fs_open_cases [OF inv op])
  have fi: "fd_inv v" and ti: "task_inv (v_tasks v)" and fsi: "tmpfs_inv (v_fs v)" using inv by (auto simp: vfs_inv_def)
  have con: "console_inv (v_con v')" using inv fs_open_con [OF op] by (simp add: vfs_inv_def)
  note on = open_node_inv [OF fsi current_path_clean [OF inv]]
  {
    fix node fs assume o: "open_node (current_path path v) flags mode (v_fs v) = Some (node, fs)" "v_fs v' = fs" "v_tasks v' = v_tasks v"
      "length (v_files v') = length (v_files v)"
      "\<And>k. k < MAX_OPEN_FILES \<Longrightarrow> f_used (v_files v' ! k) = f_used (v_files v ! k) \<and> (f_used (v_files v ! k) \<longrightarrow> v_files v' ! k = v_files v ! k)"
    have "fd_inv v'" by (rule fd_inv_cong [OF fi o(4)]) (use o(3,5) fd_invD(4) [OF fi] in auto)
    then show ?thesis using on [OF o(1)] o(2,3) ti con by (simp add: vfs_inv_def)
  next
    fix node fs k fd assume o: "open_node (current_path path v) flags mode (v_fs v) = Some (node, fs)"
      "3 \<le> fd" "fd < MGCORE_MAX_FDS" "fdt v (cur v) fd = None" "k < MAX_OPEN_FILES" "\<not> file_in_use v k"
      and v': "v' = upd_current (\<lambda>t. t\<lparr>t_fds := (t_fds t)[fd := Some k]\<rparr>) (v\<lparr>v_fs := fs, v_files := (v_files v)[k := open_file node flags]\<rparr>)"
    have "fd_inv v'"
      by (rule attach_inv [OF fi ti o(5,6,2,3,4)]) (use v' fd_invD(1) [OF fi] o(5) in \<open>auto simp: open_file_def upd_current_def\<close>)
    moreover have "task_inv (v_tasks v')" unfolding v' upd_current_def by simp (rule upd_task_inv [OF ti]; simp)
    ultimately show ?thesis using on [OF o(1)] con by (simp add: vfs_inv_def v')
  }
qed

lemma close_effect:
  assumes inv: "vfs_inv v" and l: "lookup_file fd v = Some k"
  shows "fs_close_fd fd v = (0, upd_current (\<lambda>t. t\<lparr>t_fds := (t_fds t)[nat fd := None]\<rparr>) (v\<lparr>v_files := (v_files v)[k := zero_file]\<rparr>))"
proof -
  have fi: "fd_inv v" using inv by (simp add: vfs_inv_def)
  have "f_refs (v_files v ! k) = 1" using fd_invD(6) [OF fi] lookup_file_SomeD(4) [OF inv l] by blast
  then show ?thesis using l by (simp add: fs_close_fd_def upd_file_def Let_def)
qed

lemma fs_close_fd_inv [invariants]:
  assumes inv: "vfs_inv v" and cl: "fs_close_fd fd v = (r, v')"
  shows "vfs_inv v'"
proof (cases "lookup_file fd v")
  case None
  then show ?thesis using cl inv by (auto simp: fs_close_fd_def)
next
  case (Some k)
  have fi: "fd_inv v" and ti: "task_inv (v_tasks v)" using inv by (auto simp: vfs_inv_def)
  note l = lookup_file_SomeD [OF inv Some]
  have v': "v' = upd_current (\<lambda>t. t\<lparr>t_fds := (t_fds t)[nat fd := None]\<rparr>) (v\<lparr>v_files := (v_files v)[k := zero_file]\<rparr>)"
    using close_effect [OF inv Some] cl by simp
  have "nat fd < MGCORE_MAX_FDS" using l(1,2) by simp
  then have "fd_inv v'"
    by (rule detach_inv [OF fi ti _ l(3)]) (use v' fd_invD(1) [OF fi] l(5) in \<open>auto simp: zero_file_def upd_current_def\<close>)
  moreover have "task_inv (v_tasks v')" unfolding v' upd_current_def by simp (rule upd_task_inv [OF ti]; simp)
  ultimately show ?thesis using inv by (simp add: vfs_inv_def v')
qed

lemma vfs_inv_offset: "vfs_inv v \<Longrightarrow> vfs_inv (upd_file k (\<lambda>f. f\<lparr>f_offset := g f\<rparr>) v)"
proof -
  assume inv: "vfs_inv v"
  then have fi: "fd_inv v" by (simp add: vfs_inv_def)
  have "fd_inv (upd_file k (\<lambda>f. f\<lparr>f_offset := g f\<rparr>) v)"
    by (rule fd_inv_cong [OF fi]) (use fd_invD(1,4) [OF fi] in auto)
  then show ?thesis using inv by (simp add: vfs_inv_def)
qed

lemma fs_read_fd_inv [invariants]:
  assumes "vfs_inv v" and "fs_read_fd rx fd count v = Some (r, out, v')"
  shows "vfs_inv v'"
  using assms vfs_inv_offset [of v]
  by (auto simp: fs_read_fd_def Let_def split: option.splits if_splits prod.splits dest: read_console_inv)

lemma fs_lseek_fd_inv [invariants]:
  assumes "vfs_inv v" and "fs_lseek_fd fd off whence v = (r, v')"
  shows "vfs_inv v'"
  using assms vfs_inv_offset [of v] by (auto simp: fs_lseek_fd_def Let_def split: option.splits if_splits)

definition sane_write :: "int \<Rightarrow> u8 list \<Rightarrow> vfs \<Rightarrow> bool" where
  "sane_write fd buf v \<longleftrightarrow>
     (case lookup_file fd v of None \<Rightarrow> True | Some k \<Rightarrow> unat (f_offset (v_files v ! k)) + length buf + 510 < 2 ^ 32)"

lemma fs_write_fd_inv [invariants]:
  assumes inv: "vfs_inv v" and sane: "sane_write fd buf v" and wr: "fs_write_fd fd buf v = Some (r, v')"
  shows "vfs_inv v'"
proof (cases "lookup_file fd v")
  case None
  then show ?thesis using wr inv write_console_inv [OF inv] by (auto simp: fs_write_fd_def split: if_splits)
next
  case (Some k)
  have "tmpfs_inv (v_fs v)" using inv by (simp add: vfs_inv_def)
  then have "tmpfs_inv fs" if "tmpfs_write_node (f_node_id (v_files v ! k)) buf (f_offset (v_files v ! k)) (v_fs v) = Some (q, fs)" for q fs
    using tmpfs_write_node_inv [OF _ _ that] sane Some by (simp add: sane_write_def)
  then show ?thesis
    using wr inv write_console_inv [OF inv] vfs_inv_fs [OF inv] Some
    by (auto simp: fs_write_fd_def Let_def split: option.splits if_splits)
qed

lemma fs_dir_ops_inv [invariants]:
  assumes inv: "vfs_inv v"
  shows "fs_mkdir_path path mode v = Some (r, v') \<Longrightarrow> vfs_inv v'" "fs_rmdir_path path v = Some (r, v') \<Longrightarrow> vfs_inv v'"
    "fs_unlink_path path v = Some (r, v') \<Longrightarrow> vfs_inv v'"
proof -
  have fsi: "tmpfs_inv (v_fs v)" using inv by (simp add: vfs_inv_def)
  have "NUL \<notin> set (current_path path v)" using current_path_clean [OF inv] by (simp add: clean_path_def)
  then show "fs_mkdir_path path mode v = Some (r, v') \<Longrightarrow> vfs_inv v'"
    using tmpfs_create_path_inv [OF fsi, of "current_path path v" VFS_NODE_DIR] vfs_inv_fs [OF inv]
    by (auto simp: fs_mkdir_path_def on_fs_def)
  show "fs_rmdir_path path v = Some (r, v') \<Longrightarrow> vfs_inv v'" "fs_unlink_path path v = Some (r, v') \<Longrightarrow> vfs_inv v'"
    using tmpfs_remove_path_inv [OF fsi] vfs_inv_fs [OF inv] by (auto simp: fs_rmdir_path_def fs_unlink_path_def on_fs_def)
qed

lemma single_slashes_take: "single_slashes s \<Longrightarrow> single_slashes (take n s)"
proof (induction s arbitrary: n rule: single_slashes.induct)
  case (1 a b s)
  show ?case
  proof (cases n)
    case (Suc m)
    have "single_slashes (take m (b # s))" using 1 by simp
    then show ?thesis using "1.prems" Suc by (cases m) auto
  qed simp
qed (auto simp: take_Cons')

lemma clean_path_cwd: "clean_path p \<Longrightarrow> char_at p = slash \<Longrightarrow> cwd_ok (bounded_name 127 p)"
  using single_slashes_take [of p 127]
  by (cases p) (auto simp: clean_path_def cwd_ok_def bounded_name_def cstr_id char_at_def dest: in_set_takeD)

lemma fs_chdir_path_inv [invariants]:
  assumes inv: "vfs_inv v" and ch: "fs_chdir_path path v = Some (r, v')"
  shows "vfs_inv v'"
proof (cases "v' = v")
  case False
  let ?p = "current_path path v"
  have fi: "fd_inv v" and ti: "task_inv (v_tasks v)" using inv by (auto simp: vfs_inv_def)
  have v': "v' = upd_current (\<lambda>t. t\<lparr>t_cwd := bounded_name 127 ?p\<rparr>) v"
    using ch False by (auto simp: fs_chdir_path_def Let_def split: option.splits if_splits)
  have "char_at ?p = slash" using normalize_path_clean(2) [OF current_task(3) [OF inv]] by (simp add: current_path_def)
  then have ok: "cwd_ok (bounded_name 127 ?p)" using clean_path_cwd current_path_clean [OF inv] by blast
  have n: "g_tasks (v_tasks v') ! i = (if i = cur v then (g_tasks (v_tasks v) ! i)\<lparr>t_cwd := bounded_name 127 ?p\<rparr> else g_tasks (v_tasks v) ! i)"
    if "i < MGCORE_MAX_TASKS" for i unfolding v' by (rule upd_current_tasks [OF ti that])
  have "fd_inv v'"
    by (rule fd_inv_cong [OF fi]) (use n ok fd_invD(4) [OF fi] in \<open>auto simp: v' tstate_def split: if_splits\<close>)
  moreover have "task_inv (v_tasks v')" unfolding v' upd_current_def by simp (rule upd_task_inv [OF ti]; simp)
  ultimately show ?thesis using inv by (simp add: vfs_inv_def v')
qed (use inv in simp)

subsection \<open>Task events leave descriptors alone\<close>

lemma run_event_fds:
  assumes ti: "task_inv tt" and i: "i < MGCORE_MAX_TASKS"
  shows "t_fds (g_tasks (run_event ev tt) ! i) = t_fds (g_tasks tt ! i)"
    and "tstate (run_event ev tt) i = TASK_UNUSED \<Longrightarrow> tstate tt i = TASK_UNUSED"
    and "tstate (run_event ev tt) i \<noteq> TASK_UNUSED \<Longrightarrow>
      t_cwd (g_tasks (run_event ev tt) ! i) = ''/'' \<or> tstate tt i \<noteq> TASK_UNUSED \<and> t_cwd (g_tasks (run_event ev tt) ! i) = t_cwd (g_tasks tt ! i)"
proof -
  note td = task_invD [OF ti]
  have alloc: "t_fds (g_tasks tt' ! i) = t_fds (g_tasks tt ! i) \<and> (tstate tt' i = TASK_UNUSED \<longrightarrow> tstate tt i = TASK_UNUSED) \<and>
      (tstate tt' i \<noteq> TASK_UNUSED \<longrightarrow> t_cwd (g_tasks tt' ! i) = ''/'' \<or> tstate tt i \<noteq> TASK_UNUSED \<and> t_cwd (g_tasks tt' ! i) = t_cwd (g_tasks tt ! i)) \<and>
      length (g_tasks tt') = MGCORE_MAX_TASKS \<and> j < MGCORE_MAX_TASKS"
    if "task_alloc (nm, TASK_RUNNABLE) tt = Some (j, tt')" for nm j tt'
    using task_alloc_SomeD(1,4,10,12,14,15) [OF ti that] i by (cases "i = j") (auto simp: tstate_def)
  have tick: "t_fds (g_tasks (task_scheduler_tick now tt) ! i) = t_fds (g_tasks tt ! i) \<and>
      t_cwd (g_tasks (task_scheduler_tick now tt) ! i) = t_cwd (g_tasks tt ! i)" for now
  proof -
    have dl: "length (g_tasks (demote_current tt)) = MGCORE_MAX_TASKS" using td(1) by (simp add: demote_current_def)
    have w: "g_tasks (woken now tt) ! i = wake_task now (g_tasks (demote_current tt) ! i)"
      unfolding woken_def using wake_loop_nth [OF order_refl dl i] by simp
    have "t_fds (g_tasks (woken now tt) ! i) = t_fds (g_tasks tt ! i)" "t_cwd (g_tasks (woken now tt) ! i) = t_cwd (g_tasks tt ! i)"
      unfolding w using td(1) i by (auto simp: wake_task_def demote_current_def)
    moreover have "task_scheduler_tick now tt = woken now tt \<or> (\<exists>c. task_scheduler_tick now tt =
        upd_task c (\<lambda>e. e\<lparr>t_state := TASK_RUNNING\<rparr>) ((woken now tt)\<lparr>g_current_index := c\<rparr>))"
      using tick_none(1) [OF ti, of now] tick_some [OF ti, of _ now] by metis
    ultimately show ?thesis
      using i woken_props(1) [OF ti, of now] by auto
  qed
  have st: "tstate (run_event (Tick now) tt) i = TASK_UNUSED \<longleftrightarrow> tstate tt i = TASK_UNUSED" for now
  proof (cases "\<forall>j<MGCORE_MAX_TASKS. \<not> ready now tt j")
    case True
    then show ?thesis using tick_none(3) [OF ti True i] by simp
  next
    case False
    then obtain j where j: "j < MGCORE_MAX_TASKS" "ready now tt j" by auto
    from tick_some [OF ti j] obtain k where k: "k < MGCORE_MAX_TASKS" "ready now tt (cyc (g_current_index tt) k)"
      "task_scheduler_tick now tt = upd_task (cyc (g_current_index tt) k) (\<lambda>e. e\<lparr>t_state := TASK_RUNNING\<rparr>)
       ((woken now tt)\<lparr>g_current_index := cyc (g_current_index tt) k\<rparr>)" by blast
    show ?thesis using tick_some_states(1) [OF ti k(1) i k(3)] k(2) by (auto simp: ready_def)
  qed
  have all: "t_fds (g_tasks (run_event ev tt) ! i) = t_fds (g_tasks tt ! i) \<and>
      (tstate (run_event ev tt) i = TASK_UNUSED \<longrightarrow> tstate tt i = TASK_UNUSED) \<and>
      (tstate (run_event ev tt) i \<noteq> TASK_UNUSED \<longrightarrow>
        t_cwd (g_tasks (run_event ev tt) ! i) = ''/'' \<or> tstate tt i \<noteq> TASK_UNUSED \<and> t_cwd (g_tasks (run_event ev tt) ! i) = t_cwd (g_tasks tt ! i))"
  proof (cases ev)
    case (Tick now)
    then show ?thesis using tick [of now] st [of now] by auto
  next
    case (Create nm)
    then show ?thesis using alloc [of nm] by (auto simp: task_create_kernel_def split: option.splits)
  next
    case (Spawn nm)
    show ?thesis
    proof (cases "task_alloc (nm, TASK_RUNNABLE) tt")
      case (Some r)
      obtain j tt' where r: "r = (j, tt')" by (cases r)
      show ?thesis using alloc [OF Some [unfolded r]] i by (auto simp: Spawn task_spawn_user_def Some r tstate_def)
    qed (auto simp: Spawn task_spawn_user_def)
  next
    case (Kill p st)
    show ?thesis
    proof (cases "task_find p tt")
      case (Some w)
      then show ?thesis using task_find_SomeD [OF Some] td(1) i by (auto simp: Kill task_kill_def tstate_def)
    qed (auto simp: Kill task_kill_def)
  qed (use td(1,4) i in \<open>auto simp: task_exit_def task_sleep_until_def tstate_def\<close>)
  show "t_fds (g_tasks (run_event ev tt) ! i) = t_fds (g_tasks tt ! i)"
    "tstate (run_event ev tt) i = TASK_UNUSED \<Longrightarrow> tstate tt i = TASK_UNUSED"
    "tstate (run_event ev tt) i \<noteq> TASK_UNUSED \<Longrightarrow>
      t_cwd (g_tasks (run_event ev tt) ! i) = ''/'' \<or> tstate tt i \<noteq> TASK_UNUSED \<and> t_cwd (g_tasks (run_event ev tt) ! i) = t_cwd (g_tasks tt ! i)"
    using all by blast+
qed

lemma task_event_vfs_inv [invariants]:
  assumes inv: "vfs_inv v"
  shows "vfs_inv (v\<lparr>v_tasks := run_event ev (v_tasks v)\<rparr>)"
proof -
  have fi: "fd_inv v" and ti: "task_inv (v_tasks v)" using inv by (auto simp: vfs_inv_def)
  note r = run_event_fds [OF ti, of _ ev]
  have "fd_inv (v\<lparr>v_tasks := run_event ev (v_tasks v)\<rparr>)"
  proof (rule fd_inv_cong [OF fi])
    fix i assume i: "i < MGCORE_MAX_TASKS"
    show "cwd_ok (t_cwd (g_tasks (v_tasks (v\<lparr>v_tasks := run_event ev (v_tasks v)\<rparr>)) ! i))"
      if "tstate (v_tasks (v\<lparr>v_tasks := run_event ev (v_tasks v)\<rparr>)) i \<noteq> TASK_UNUSED"
      using r(3) [OF i] that fd_invD(4) [OF fi i] by fastforce
  qed (use r in auto)
  then show ?thesis using inv run_event_inv [OF ti] by (simp add: vfs_inv_def)
qed

inductive vfs_step :: "vfs \<Rightarrow> vfs \<Rightarrow> bool" where
  "fs_open_path path flags mode v = Some (r, v') \<Longrightarrow> vfs_step v v'"
| "fs_close_fd fd v = (r, v') \<Longrightarrow> vfs_step v v'"
| "fs_read_fd rx fd count v = Some (r, out, v') \<Longrightarrow> vfs_step v v'"
| "sane_write fd buf v \<Longrightarrow> fs_write_fd fd buf v = Some (r, v') \<Longrightarrow> vfs_step v v'"
| "fs_lseek_fd fd off whence v = (r, v') \<Longrightarrow> vfs_step v v'"
| "fs_mkdir_path path perm v = Some (r, v') \<Longrightarrow> vfs_step v v'"
| "fs_rmdir_path path v = Some (r, v') \<Longrightarrow> vfs_step v v'"
| "fs_unlink_path path v = Some (r, v') \<Longrightarrow> vfs_step v v'"
| "fs_chdir_path path v = Some (r, v') \<Longrightarrow> vfs_step v v'"
| "vfs_step v (v\<lparr>v_tasks := run_event ev (v_tasks v)\<rparr>)"

inductive_cases vfs_stepE: "vfs_step v v'"

definition vfs_boot :: "vfs \<Rightarrow> bool" where
  "vfs_boot v \<longleftrightarrow> tmpfs_inv (v_fs v) \<and> task_boot (v_tasks v) \<and> v_files v = replicate MAX_OPEN_FILES zero_file \<and>
     console_inv (v_con v)"

lemma vfs_boot_inv:
  assumes "vfs_boot v"
  shows "vfs_inv v"
proof -
  obtain t where t: "g_next_pid t = 1" "v_tasks v = task_init t" using assms by (auto simp: vfs_boot_def task_boot_def)
  have n: "g_tasks (v_tasks v) ! i = (if i = 0 then zero_task\<lparr>t_pid := g_next_pid t, t_state := TASK_RUNNING, t_name := ''bootstrap'',
       t_cwd := ''/'', t_mm := vmm_address_space_init\<rparr> else zero_task)" if "i < MGCORE_MAX_TASKS" for i
    using that by (cases i) (auto simp: t task_init_sel MGCORE_MAX_TASKS_def)
  have f: "fdt v i fd = None" if "i < MGCORE_MAX_TASKS" "fd < MGCORE_MAX_FDS" for i fd
    using n [OF that(1)] that(2) by (simp add: fdt_def zero_task_def)
  have r: "fd_refs v k = {}" for k using f by (auto simp: fd_refs_def)
  have u: "\<not> file_in_use v k" for k using assms by (simp add: file_in_use_def vfs_boot_def zero_file_def)
  have "fd_inv v"
  proof (rule fd_invI)
    show "length (v_files v) = MAX_OPEN_FILES" using assms by (simp add: vfs_boot_def)
    show "length (t_fds (g_tasks (v_tasks v) ! i)) = MGCORE_MAX_FDS" if "i < MGCORE_MAX_TASKS" for i using n [OF that] by (simp add: zero_task_def)
    show "cwd_ok (t_cwd (g_tasks (v_tasks v) ! i))" if "i < MGCORE_MAX_TASKS" "tstate (v_tasks v) i \<noteq> TASK_UNUSED" for i
      using n [OF that(1)] that(2) by (auto simp: tstate_def zero_task_def split: if_splits)
  qed (use f r u in auto)
  then show ?thesis using assms task_init_inv [OF t(1)] t(2) by (simp add: vfs_inv_def vfs_boot_def)
qed

lemma vfs_step_inv: "vfs_inv v \<Longrightarrow> vfs_step v v' \<Longrightarrow> vfs_inv v'"
  by (erule vfs_stepE) (auto intro: invariants)

interpretation vm: state_machine vfs_boot vfs_step vfs_inv
  using vfs_boot_inv vfs_step_inv by unfold_locales auto

lemma used_files_card:
  assumes "vfs_inv v"
  shows "card {k. file_in_use v k} = card {(i, fd). i < MGCORE_MAX_TASKS \<and> fd < MGCORE_MAX_FDS \<and> fdt v i fd \<noteq> None}"
proof -
  have fi: "fd_inv v" using assms by (simp add: vfs_inv_def)
  note d = fd_invD [OF fi]
  let ?A = "{(i, fd). i < MGCORE_MAX_TASKS \<and> fd < MGCORE_MAX_FDS \<and> fdt v i fd \<noteq> None}"
  let ?g = "\<lambda>(i, fd). the (fdt v i fd)"
  have inj: "inj_on ?g ?A"
  proof (rule inj_onI, clarify)
    fix i fd j gd k l assume a: "i < MGCORE_MAX_TASKS" "fd < MGCORE_MAX_FDS" "fdt v i fd = Some k" "j < MGCORE_MAX_TASKS" "gd < MGCORE_MAX_FDS"
      "fdt v j gd = Some l" "the (fdt v i fd) = the (fdt v j gd)"
    then have "(i, fd) \<in> fd_refs v k" "(j, gd) \<in> fd_refs v k" by (auto simp: fd_refs_def)
    then show "i = j \<and> fd = gd" using d(7,8) by (metis empty_iff prod.inject singletonD)
  qed
  have "?g ` ?A = {k. file_in_use v k}"
  proof (rule set_eqI)
    fix k
    have "k \<in> ?g ` ?A \<longleftrightarrow> fd_refs v k \<noteq> {}" by (force simp: fd_refs_def)
    moreover have "fd_refs v k \<noteq> {} \<longleftrightarrow> file_in_use v k" using d(7) [of k] d(8) [of k] by auto
    ultimately show "k \<in> ?g ` ?A \<longleftrightarrow> k \<in> {k. file_in_use v k}" by simp
  qed
  then show ?thesis using card_image [OF inj] by (simp only:)
qed

subsection \<open>Properties\<close>

definition sample_vfs :: vfs where
  "sample_vfs = \<lparr>v_fs = sample_fs, v_files = replicate MAX_OPEN_FILES zero_file, v_tasks = sample_table, v_con = sample_console\<rparr>"

lemma sample_vfs_boot: "vfs_boot sample_vfs"
proof -
  have "task_boot sample_table" unfolding task_boot_def sample_table_def
    by (rule exI [of _ "\<lparr>g_tasks = [], g_next_pid = 1, g_current_index = 0, g_task_count = 0\<rparr>"]) simp
  then show ?thesis using sample_fs_inv sample_console_inv by (simp add: vfs_boot_def sample_vfs_def)
qed

lemmas sample_vfs_inv = vfs_boot_inv [OF sample_vfs_boot]

text \<open>
  C7: Descriptors never alias. In every state reached from boot by any sequence of opens, closes, reads,
  writes below 4 GiB, seeks, directory operations, changes of directory and task events, each open
  file in use is referenced by exactly one descriptor of one task, the number of open files in use is
  the number of open descriptors, and no descriptor refers to a file that is not in use.
\<close>

theorem fs_descriptors_exclusive:
  assumes "reach vfs_boot vfs_step v"
  shows "(\<forall>i j fd gd k. i < MGCORE_MAX_TASKS \<longrightarrow> j < MGCORE_MAX_TASKS \<longrightarrow> fd < MGCORE_MAX_FDS \<longrightarrow> gd < MGCORE_MAX_FDS \<longrightarrow>
      fdt v i fd = Some k \<longrightarrow> fdt v j gd = Some k \<longrightarrow> i = j \<and> fd = gd \<and> file_in_use v k) \<and>
    card {k. file_in_use v k} = card {(i, fd). i < MGCORE_MAX_TASKS \<and> fd < MGCORE_MAX_FDS \<and> fdt v i fd \<noteq> None}"
proof -
  have inv: "vfs_inv v" by (rule vm.reach_inv [OF assms])
  then have fi: "fd_inv v" by (simp add: vfs_inv_def)
  have "i = j \<and> fd = gd \<and> file_in_use v k" if "i < MGCORE_MAX_TASKS" "j < MGCORE_MAX_TASKS" "fd < MGCORE_MAX_FDS" "gd < MGCORE_MAX_FDS"
    "fdt v i fd = Some k" "fdt v j gd = Some k" for i j fd gd k
  proof -
    have m: "(i, fd) \<in> fd_refs v k" "(j, gd) \<in> fd_refs v k" using that by (auto simp: fd_refs_def)
    then show ?thesis using fd_invD(7,8) [OF fi] by (metis empty_iff prod.inject singletonD)
  qed
  then show ?thesis using used_files_card [OF inv] by blast
qed

theorem fs_descriptors_exclusive_witness:
  "card {k. file_in_use sample_vfs k} = card {(i, fd). i < MGCORE_MAX_TASKS \<and> fd < MGCORE_MAX_FDS \<and> fdt sample_vfs i fd \<noteq> None}"
  using fs_descriptors_exclusive [OF reach.start [of vfs_boot, OF sample_vfs_boot]] by blast

text \<open>
  What a successful open leaves behind, and that closing the descriptor undoes it in every state
  \<open>w\<close> that differs from the one after the open only in the open file itself.
\<close>

lemma fs_open_effect:
  assumes inv: "vfs_inv v" and op: "fs_open_path path flags mode v = Some (fd, v1)" and nn: "0 \<le> fd"
  obtains node fs k where "open_node (current_path path v) flags mode (v_fs v) = Some (node, fs)" "0 \<le> node" "v_fs v1 = fs"
    "lookup_file fd v1 = Some k" "v_files v1 ! k = open_file node flags" "v_con v1 = v_con v" "3 \<le> fd" "fd < 32" "lookup_file fd v = None"
    "\<And>gd. gd \<noteq> fd \<Longrightarrow> lookup_file gd v1 = lookup_file gd v"
    "\<And>w. vfs_inv w \<Longrightarrow> v_tasks w = v_tasks v1 \<Longrightarrow> (\<And>j. j \<noteq> k \<Longrightarrow> v_files w ! j = v_files v1 ! j) \<Longrightarrow>
       \<exists>w'. fs_close_fd fd w = (0, w') \<and> vfs_inv w' \<and> v_tasks w' = v_tasks v \<and> v_fs w' = v_fs w \<and> v_con w' = v_con w \<and>
         (\<forall>j. file_in_use w' j = file_in_use v j)"
proof (rule fs_open_cases [OF inv op])
  fix node fs k n
  assume o: "open_node (current_path path v) flags mode (v_fs v) = Some (node, fs)" "0 \<le> node" "fd = int n" "3 \<le> n" "n < MGCORE_MAX_FDS"
    "fdt v (cur v) n = None" "k < MAX_OPEN_FILES" "\<not> file_in_use v k"
    and v1: "v1 = upd_current (\<lambda>t. t\<lparr>t_fds := (t_fds t)[n := Some k]\<rparr>) (v\<lparr>v_fs := fs, v_files := (v_files v)[k := open_file node flags]\<rparr>)"
  have inv1: "vfs_inv v1" by (rule fs_open_path_inv [OF inv op])
  have fi: "fd_inv v" and ti: "task_inv (v_tasks v)" using inv by (auto simp: vfs_inv_def)
  have c1: "cur v1 = cur v" by (simp add: v1 cur_def upd_current_def)
  have tv: "task_inv (v_tasks (v\<lparr>v_fs := fs, v_files := (v_files v)[k := open_file node flags]\<rparr>))" using ti by simp
  have cv: "cur (v\<lparr>v_fs := fs, v_files := (v_files v)[k := open_file node flags]\<rparr>) = cur v" by (simp add: cur_def)
  have t1: "g_tasks (v_tasks v1) ! cur v = (g_tasks (v_tasks v) ! cur v)\<lparr>t_fds := (t_fds (g_tasks (v_tasks v) ! cur v))[n := Some k]\<rparr>"
    unfolding v1 using upd_current_tasks [OF tv current_task(1) [OF inv]] cv by simp
  have ln: "length (t_fds (g_tasks (v_tasks v) ! cur v)) = MGCORE_MAX_FDS" using fd_invD(2) [OF fi current_task(1) [OF inv]] .
  have f1: "fdt v1 (cur v) g = (if g = n then Some k else fdt v (cur v) g)" if "g < MGCORE_MAX_FDS" for g
    using t1 ln that by (simp add: fdt_def)
  have len: "k < length (v_files v)" using fd_invD(1) [OF fi] o(7) by simp
  have l1: "lookup_file fd v1 = Some k" using lookup_file_fdt [OF inv1] o(3,5) c1 f1 [OF o(5)] by simp
  have lg: "lookup_file gd v1 = lookup_file gd v" if "gd \<noteq> fd" for gd
    unfolding lookup_file_fdt [OF inv1] lookup_file_fdt [OF inv] c1 using that o(3) f1 [of "nat gd"] by auto
  have close: "\<exists>w'. fs_close_fd fd w = (0, w') \<and> vfs_inv w' \<and> v_tasks w' = v_tasks v \<and> v_fs w' = v_fs w \<and> v_con w' = v_con w \<and>
         (\<forall>j. file_in_use w' j = file_in_use v j)"
    if w: "vfs_inv w" "v_tasks w = v_tasks v1" "\<And>j. j \<noteq> k \<Longrightarrow> v_files w ! j = v_files v1 ! j" for w
  proof -
    let ?w = "upd_current (\<lambda>t. t\<lparr>t_fds := (t_fds t)[nat fd := None]\<rparr>) (w\<lparr>v_files := (v_files w)[k := zero_file]\<rparr>)"
    have cl: "fs_close_fd fd w = (0, ?w)" by (rule close_effect [OF w(1)]) (use l1 w(2) in \<open>simp add: lookup_file_def split: if_splits\<close>)
    have "(t_fds (g_tasks (v_tasks v) ! cur v))[n := None] = t_fds (g_tasks (v_tasks v) ! cur v)"
      using o(5,6) ln by (intro list_update_same_conv [THEN iffD2]) (auto simp: fdt_def)
    then have "v_tasks ?w = v_tasks v"
      using task_invD(1,2) [OF ti] by (simp add: w(2) v1 upd_current_def upd_task_def o(3) cur_def)
    moreover have "length (v_files w) = length (v_files v)" using w(1) fd_invD(1) [OF fi] fd_invD(1) [of w] by (simp add: vfs_inv_def)
    then have "file_in_use ?w j = file_in_use v j" for j
      using o(8) len w(3) [of j] by (cases "j = k") (auto simp: file_in_use_def v1 zero_file_def)
    ultimately show ?thesis using cl fs_close_fd_inv [OF w(1) cl] by auto
  qed
  show thesis
    by (rule that [OF o(1,2) _ l1 _ _ _ _ _ lg close])
      (use o(3-6) len in \<open>auto simp: v1 lookup_file_fdt [OF inv] MGCORE_MAX_FDS_def\<close>)
qed (use nn in auto)

text \<open>
  C22: Open, then close. A successful open returns a free descriptor between 3 and 31 that afterwards
  refers, at offset 0, to the node the path resolved to or that was created for it; no other
  descriptor of any task changes. Closing that descriptor returns 0 and gives back every descriptor
  table and the set of open files in use.
\<close>

theorem fs_open_close_roundtrip:
  assumes "vfs_inv v" and "fs_open_path path flags mode v = Some (fd, v1)" and "0 \<le> fd"
  shows "3 \<le> fd \<and> fd < 32 \<and> lookup_file fd v = None \<and>
    (\<exists>k node fs. open_node (current_path path v) flags mode (v_fs v) = Some (node, fs) \<and> v_fs v1 = fs \<and>
       lookup_file fd v1 = Some k \<and> v_files v1 ! k = open_file node flags) \<and>
    (\<forall>gd. gd \<noteq> fd \<longrightarrow> lookup_file gd v1 = lookup_file gd v) \<and>
    (\<exists>v2. fs_close_fd fd v1 = (0, v2) \<and> v_tasks v2 = v_tasks v \<and> (\<forall>k. file_in_use v2 k = file_in_use v k))"
proof -
  have inv1: "vfs_inv v1" by (rule fs_open_path_inv [OF assms(1,2)])
  show ?thesis by (rule fs_open_effect [OF assms]) (use inv1 in blast)
qed

lemma sample_open:
  assumes "open_node p flags mode fs0 = Some (int i, fs)" and "char_at p = slash" and "clean_path p"
  shows "\<exists>v1. fs_open_path (Some p) flags mode (sample_vfs\<lparr>v_fs := fs0\<rparr>) = Some (3, v1) \<and> v_fs v1 = fs \<and> lookup_file 3 v1 = Some 0 \<and>
    v_files v1 ! 0 = open_file (int i) flags"
proof -
  have cp: "current_path (Some p) (sample_vfs\<lparr>v_fs := fs0\<rparr>) = p"
    using assms(2,3) norm_loop_id [of "[]" p] by (auto simp: current_path_def normalize_path_def)
  have sc: "scan_from (\<lambda>i. \<not> f_used (v_files sample_vfs ! i)) 0 MAX_OPEN_FILES = Some 0"
    by (simp add: scan_from_Some_iff sample_vfs_def zero_file_def MAX_OPEN_FILES_def)
  have fd: "t_fds (task_current sample_table) = replicate MGCORE_MAX_FDS None"
    by (simp add: sample_table_def task_current_def task_init_sel zero_task_def)
  have sf: "scan_from (\<lambda>fd. replicate MGCORE_MAX_FDS None ! fd = (None :: nat option)) 3 MGCORE_MAX_FDS = Some 3"
    by (simp add: scan_from_Some_iff MGCORE_MAX_FDS_def)
  have cu: "g_current_index sample_table = 0" "length (g_tasks sample_table) = 32" by (simp_all add: sample_table_def task_init_sel)
  have "fs_open_path (Some p) flags mode (sample_vfs\<lparr>v_fs := fs0\<rparr>) = Some (3, upd_current (\<lambda>t. t\<lparr>t_fds := (t_fds t)[3 := Some 0]\<rparr>)
      (upd_file 0 (\<lambda>f. f\<lparr>f_node_id := int i, f_flags := flags\<rparr>) (upd_file 0 (\<lambda>f. f\<lparr>f_used := True, f_refs := 1, f_offset := 0\<rparr>)
        (sample_vfs\<lparr>v_fs := fs\<rparr>))))"
    using assms(1) cp sc fd sf
    by (simp add: fs_open_path_def alloc_open_file_def attach_fd_def upd_file_def sample_vfs_def)
  then show ?thesis
    using fd cu
    by (simp add: upd_file_def upd_current_def sample_vfs_def lookup_file_def task_current_def upd_task_def MGCORE_MAX_FDS_def
        open_file_def zero_file_def MAX_OPEN_FILES_def)
qed

lemma sample_vfs_fs: "sample_vfs\<lparr>v_fs := sample_fs\<rparr> = sample_vfs"
  by (simp add: sample_vfs_def)

theorem fs_open_close_roundtrip_witness:
  "\<exists>v1 v2. fs_open_path (Some ''/'') 0 0 sample_vfs = Some (3, v1) \<and> lookup_file 3 v1 = Some 0 \<and>
     fs_close_fd 3 v1 = (0, v2) \<and> v_tasks v2 = v_tasks sample_vfs"
proof -
  have "open_node ''/'' 0 0 sample_fs = Some (int 0, sample_fs)"
    by (simp add: open_node_def tmpfs_lookup_path_def resolve_path_def char_at_def)
  then obtain v1 where v1: "fs_open_path (Some ''/'') 0 0 sample_vfs = Some (3, v1)" "lookup_file 3 v1 = Some 0"
    using sample_open [of "''/''" 0 0 sample_fs 0, unfolded sample_vfs_fs] by (auto simp: char_at_def clean_path_def)
  then show ?thesis using fs_open_close_roundtrip [OF sample_vfs_inv, of "Some ''/''" 0 0 3 v1] by auto
qed

text \<open>
  Reading a file in pieces. A descriptor reads a file when it is open on a regular file.
\<close>

definition reads_file :: "int \<Rightarrow> nat \<Rightarrow> nat \<Rightarrow> vfs \<Rightarrow> bool" where
  "reads_file fd k i v \<longleftrightarrow> lookup_file fd v = Some k \<and> f_node_id (v_files v ! k) = int i \<and> is_file (v_fs v) i"

fun read_pieces :: "(nat \<Rightarrow> char option) \<Rightarrow> int \<Rightarrow> u64 list \<Rightarrow> vfs \<Rightarrow> (u8 list \<times> vfs) option" where
  "read_pieces rx fd [] v = Some ([], v)"
| "read_pieces rx fd (c # cs) v =
     (case fs_read_fd rx fd c v of
        None \<Rightarrow> None
      | Some (r, out, v1) \<Rightarrow> map_option (\<lambda>(more, v2). (out @ more, v2)) (read_pieces rx fd cs v1))"

lemma fs_read_file:
  fixes count :: u64
  assumes inv: "vfs_inv v" and rf: "reads_file fd k i v"
  defines "out \<equiv> take (unat count) (drop (unat (f_offset (v_files v ! k))) (content (v_fs v) i))"
  shows "\<exists>v'. fs_read_fd rx fd count v = Some (int (length out), out, v') \<and> vfs_inv v' \<and> reads_file fd k i v' \<and> v_fs v' = v_fs v \<and>
    unat (f_offset (v_files v' ! k)) = unat (f_offset (v_files v ! k)) + length out"
proof -
  let ?f = "v_files v ! k"
  have st: "storage (v_fs v)" using inv by (simp add: vfs_inv_def tmpfs_inv_def)
  have l: "lookup_file fd v = Some k" "f_node_id ?f = int i" "is_file (v_fs v) i" using rf by (auto simp: reads_file_def)
  note kl = lookup_file_SomeD(5) [OF inv l(1)]
  have ty: "n_type (g_nodes (v_fs v) ! i) = VFS_NODE_FILE" using l(3) by (simp add: is_file_def)
  let ?v = "upd_file k (\<lambda>f. f\<lparr>f_offset := f_offset f + word_of_int (int (length out))\<rparr>) v"
  have rd: "fs_read_fd rx fd count v = Some (int (length out), out, ?v)"
    using read_node_content [OF st l(3), of count "f_offset ?f"] l ty get_node_file [OF l(3)]
    by (simp add: fs_read_fd_def Let_def out_def)
  have inv': "vfs_inv ?v" by (rule fs_read_fd_inv [OF inv rd])
  have len: "length (content (v_fs v) i) \<le> TMPFS_DATA_ARENA_SIZE"
    by (rule storage_size [OF st is_file_live [OF l(3)]])
  have "unat (f_offset ?f + word_of_int (int (length out))) = unat (f_offset ?f) + length out"
  proof (cases "out = []")
    case False
    then have "unat (f_offset ?f) + length out \<le> length (content (v_fs v) i)" by (auto simp: out_def)
    then show ?thesis using len by (simp add: unat_word_ariths unat_of_nat TMPFS_DATA_ARENA_SIZE_def)
  qed simp
  moreover have "reads_file fd k i ?v" using l kl by (auto simp: reads_file_def lookup_file_def split: if_splits)
  ultimately show ?thesis using rd inv' kl by auto
qed

text \<open>
  C21: A file is read through a descriptor piece by piece without loss or repetition: any sequence of
  reads returns, and the pieces together are exactly the contents of the file from the offset on, up
  to the sum of the requested lengths or the end of the file.
\<close>

theorem fs_sequential_read:
  assumes "vfs_inv v" and "reads_file fd k i v"
  shows "\<exists>v'. read_pieces rx fd counts v =
    Some (take (\<Sum>c\<leftarrow>counts. unat c) (drop (unat (f_offset (v_files v ! k))) (content (v_fs v) i)), v')"
  using assms
proof (induction counts arbitrary: v)
  case (Cons c cs)
  let ?off = "unat (f_offset (v_files v ! k))"
  let ?out = "take (unat c) (drop ?off (content (v_fs v) i))"
  obtain v1 where v1: "fs_read_fd rx fd c v = Some (int (length ?out), ?out, v1)" "vfs_inv v1" "reads_file fd k i v1" "v_fs v1 = v_fs v"
    "unat (f_offset (v_files v1 ! k)) = ?off + length ?out" using fs_read_file [OF Cons.prems] by blast
  obtain v' where v': "read_pieces rx fd cs v1 = Some (take (\<Sum>c\<leftarrow>cs. unat c) (drop (?off + length ?out) (content (v_fs v) i)), v')"
    using Cons.IH [OF v1(2,3)] v1(4,5) by auto
  have "?out @ take (\<Sum>c\<leftarrow>cs. unat c) (drop (?off + length ?out) (content (v_fs v) i)) =
      take (unat c + (\<Sum>c\<leftarrow>cs. unat c)) (drop ?off (content (v_fs v) i))"
  proof (cases "unat c \<le> length (content (v_fs v) i) - ?off")
    case True
    then have "length ?out = unat c" by simp
    then show ?thesis by (simp only: take_add drop_drop add.commute)
  next
    case False
    then show ?thesis by simp
  qed
  then show ?case using v1(1) v' by simp
qed simp

theorem fs_sequential_read_witness:
  "\<exists>v1 v2 v3. fs_open_path (Some ''/a'') 64 0x1A4 sample_vfs = Some (3, v1) \<and> fs_write_fd 3 [7, 8, 9] v1 = Some (3, v2) \<and>
     read_pieces (\<lambda>_. None) 3 [1, 4] v2 = Some ([7, 8, 9], v3)"
proof -
  obtain fs where f: "tmpfs_create_path ''/a'' VFS_NODE_FILE 0x1A4 sample_fs = Some (1, fs)" "tmpfs_inv fs" "is_file fs 1"
    "n_data (g_nodes fs ! 1) = None" "n_size (g_nodes fs ! 1) = 0" "n_capacity (g_nodes fs ! 1) = 0" "g_data_offset fs = 0"
    "length (g_nodes fs) = MGCORE_MAX_NODES" by (rule sample_file)
  have "open_node ''/a'' 64 0x1A4 sample_fs = Some (int 1, fs)"
    using f(1) sample_fs_missing by (simp add: open_node_def tmpfs_lookup_path_def ENOENT_def O_CREAT_def)
  then obtain v1 where v1: "fs_open_path (Some ''/a'') 64 0x1A4 sample_vfs = Some (3, v1)" "v_fs v1 = fs" "lookup_file 3 v1 = Some 0"
    "v_files v1 ! 0 = open_file (int 1) 64" using sample_open [of "''/a''" 64 "0x1A4" sample_fs 1 fs, unfolded sample_vfs_fs] by (auto simp: char_at_def clean_path_def)
  have inv1: "vfs_inv v1" by (rule fs_open_path_inv [OF sample_vfs_inv v1(1)])
  have st: "storage fs" using f(2) by (simp add: tmpfs_inv_def)
  have "tmpfs_write_node (int 1) [7, 8, 9] 0 fs \<noteq> Some (- ENOSPC, fs)"
    using f(3-8) get_node_file [OF f(3)]
    by (auto simp: tmpfs_write_node_def grow_node_def alloc_storage_def store_node_def in_arena_def TMPFS_DATA_ARENA_SIZE_def
        is_file_def ENOSPC_def Let_def split: if_splits option.splits)
  moreover have "content fs 1 = []" using f(4) by (simp add: content_def)
  ultimately obtain fs' where w: "tmpfs_write_node (int 1) [7, 8, 9] 0 fs = Some (3, fs')" "rewritten fs fs' 1" "content fs' 1 = [7, 8, 9]"
    using write_node_content [OF st f(3,8), of 0 "[7, 8, 9]"] by (auto simp: overwrite_def)
  let ?v2 = "v1\<lparr>v_fs := fs'\<rparr>"
  have fw: "fs_write_fd 3 [7, 8, 9] v1 = Some (3, ?v2)"
    using v1 w(1) f(3) get_node_file [OF f(3)] by (simp add: fs_write_fd_def open_file_def is_file_def)
  have inv2: "vfs_inv ?v2" using fs_write_fd_inv [OF inv1 _ fw] v1(3,4) by (simp add: sane_write_def open_file_def)
  have "is_file fs' 1" using w(2) f(3) by (auto simp: rewritten_def is_file_def)
  then have "reads_file 3 0 1 ?v2" using v1(3,4) by (simp add: reads_file_def open_file_def lookup_file_def MGCORE_MAX_FDS_def)
  from fs_sequential_read [OF inv2 this, of "\<lambda>_. None" "[1, 4]"] show ?thesis
    using v1(1,4) fw w(3) by (auto simp: open_file_def)
qed

end
