(* ===== verification/Kheap.thy ===== *)
theory Kheap
  imports Kstring
begin

text \<open>
  Model of \<^verbatim>\<open>src/kernel/util.c\<close>: the kernel heap, a bump allocator over a 1 MiB array. A pointer into
  the heap is its offset in the array. \<^verbatim>\<open>kalloc\<close> returns \<open>None\<close> when it clears memory outside the
  array, \<open>Some (None, _)\<close> for \<^verbatim>\<open>NULL\<close>.
\<close>

definition KERNEL_HEAP_SIZE :: u64 where "KERNEL_HEAP_SIZE = 1024 * 1024"

record kheap =
  g_kernel_heap :: memory
  g_heap_offset :: u64

definition kalign_up :: "u64 \<Rightarrow> u64 \<Rightarrow> u64" where
  "kalign_up v align = (v + (align - 1)) AND NOT (align - 1)"

definition kalloc :: "u64 \<Rightarrow> kheap \<Rightarrow> (u64 option \<times> kheap) option" where
  "kalloc sz h =
     (let aligned = kalign_up sz 16
      in if aligned = 0 then Some (None, h)
         else if g_heap_offset h + aligned > KERNEL_HEAP_SIZE then Some (None, h)
         else
           let result = g_heap_offset h;
               h' = h\<lparr>g_heap_offset := g_heap_offset h + aligned\<rparr>
           in if unat result + unat aligned \<le> unat KERNEL_HEAP_SIZE
              then Some (Some result,
                         h'\<lparr>g_kernel_heap := kmemset (unat result) 0 (unat aligned) (g_kernel_heap h')\<rparr>)
              else None)"

definition kcalloc :: "u64 \<Rightarrow> u64 \<Rightarrow> kheap \<Rightarrow> (u64 option \<times> kheap) option" where
  "kcalloc count sz h = kalloc (count * sz) h"

fun store_bytes :: "nat \<Rightarrow> u8 list \<Rightarrow> memory \<Rightarrow> memory" where
  "store_bytes a [] m = m"
| "store_bytes a (b # bs) m = store_bytes (Suc a) bs (m(a := b))"

definition kstrdup :: "string \<Rightarrow> kheap \<Rightarrow> (u64 option \<times> kheap) option" where
  "kstrdup s h =
     (let len = kstrlen s + 1
      in case kalloc (of_nat len) h of
           None \<Rightarrow> None
         | Some (None, h') \<Rightarrow> Some (None, h')
         | Some (Some p, h') \<Rightarrow>
             Some (Some p, h'\<lparr>g_kernel_heap :=
               store_bytes (unat p) (map of_char (cstr s) @ [0]) (g_kernel_heap h')\<rparr>))"

subsection \<open>Lemmas\<close>

definition heap_inv :: "kheap \<Rightarrow> bool" where
  "heap_inv h \<longleftrightarrow> g_heap_offset h \<le> KERNEL_HEAP_SIZE"

definition sane_size :: "nat \<Rightarrow> bool" where
  "sane_size n \<longleftrightarrow> n < 2 ^ 63"

lemma unat_heap_size [simp]: "unat KERNEL_HEAP_SIZE = 1048576"
  by (simp add: KERNEL_HEAP_SIZE_def)

lemma unat_kalign_up_16:
  assumes "unat v + 15 < 2 ^ 64"
  shows "unat (kalign_up v 16) = (unat v + 15) div 16 * 16"
proof -
  have "kalign_up v 16 = (v + 15) AND NOT (mask 4)"
    by (simp add: kalign_up_def mask_eq_exp_minus_1)
  then show ?thesis
    using assms by (simp add: unat_and_not_mask unat_word_ariths)
qed

lemma align_16_bounds: "n \<le> (n + 15) div 16 * 16 \<and> (n + 15) div 16 * 16 < n + 16" for n :: nat
  by presburger

lemma kalloc_cases:
  assumes inv: "heap_inv h" and sz: "sane_size (unat sz)"
  defines "al \<equiv> (unat sz + 15) div 16 * 16"
  shows "kalloc sz h =
    (if sz = 0 \<or> unat (g_heap_offset h) + al > 1048576 then Some (None, h)
     else Some (Some (g_heap_offset h), h\<lparr>g_heap_offset := g_heap_offset h + of_nat al,
       g_kernel_heap := kmemset (unat (g_heap_offset h)) 0 al (g_kernel_heap h)\<rparr>))"
proof -
  have u: "unat (kalign_up sz 16) = al"
    using sz by (simp add: al_def sane_size_def unat_kalign_up_16)
  have bounds: "unat sz \<le> al" "al < unat sz + 16" using align_16_bounds by (auto simp: al_def)
  then have al64: "al < 2 ^ 63 + 16" using sz by (simp add: sane_size_def)
  have "al = 0 \<longleftrightarrow> unat sz = 0" using bounds(1) by (auto simp: al_def)
  then have z: "kalign_up sz 16 = 0 \<longleftrightarrow> sz = 0" using u by (metis unat_eq_zero)
  have off: "unat (g_heap_offset h) \<le> 1048576"
    using inv by (simp add: heap_inv_def word_le_nat_alt)
  have "unat (g_heap_offset h + kalign_up sz 16) = unat (g_heap_offset h) + al"
    using off al64 by (simp add: unat_word_ariths u)
  then have gt: "g_heap_offset h + kalign_up sz 16 > KERNEL_HEAP_SIZE \<longleftrightarrow>
      unat (g_heap_offset h) + al > 1048576"
    by (simp add: word_less_nat_alt)
  have w: "kalign_up sz 16 = of_nat al" unfolding u [symmetric] by simp
  show ?thesis
    unfolding kalloc_def Let_def z gt by (simp add: u) (simp add: w)
qed

lemma kalloc_Some:
  assumes "heap_inv h" and "sane_size (unat sz)" and "kalloc sz h = Some (Some a, h')"
  shows "a = g_heap_offset h" and "unat a + unat sz \<le> unat (g_heap_offset h')" and "heap_inv h'"
    and "\<And>i. i < unat sz \<Longrightarrow> g_kernel_heap h' (unat a + i) = 0"
    and "\<And>i. i < unat a \<Longrightarrow> g_kernel_heap h' i = g_kernel_heap h i"
proof -
  define al where "al = (unat sz + 15) div 16 * 16"
  have b: "unat sz \<le> al" using align_16_bounds by (simp add: al_def)
  have c: "unat (g_heap_offset h) + al \<le> 1048576" "a = g_heap_offset h"
    "h' = h\<lparr>g_heap_offset := g_heap_offset h + of_nat al,
       g_kernel_heap := kmemset (unat (g_heap_offset h)) 0 al (g_kernel_heap h)\<rparr>"
    using assms(3) kalloc_cases [OF assms(1,2)] by (auto simp: al_def split: if_splits)
  have o: "unat (g_heap_offset h + of_nat al) = unat (g_heap_offset h) + al"
    using c(1) by (simp add: unat_word_ariths unat_of_nat)
  show "a = g_heap_offset h" "unat a + unat sz \<le> unat (g_heap_offset h')" "heap_inv h'"
    using b c o by (simp_all add: heap_inv_def word_le_nat_alt)
  show "g_kernel_heap h' (unat a + i) = 0" if "i < unat sz" for i
    using that b c by (simp add: kmemset_def set_up_apply)
  show "g_kernel_heap h' i = g_kernel_heap h i" if "i < unat a" for i
    using that c by (simp add: kmemset_def set_up_apply)
qed

text \<open>The heap provides the bump allocator contract.\<close>

definition heap_alloc :: "nat \<Rightarrow> kheap \<Rightarrow> (nat \<times> kheap) option" where
  "heap_alloc n h =
     (case kalloc (of_nat n) h of Some (Some a, h') \<Rightarrow> Some (unat a, h') | _ \<Rightarrow> None)"

lemma sane_unat: "sane_size n \<Longrightarrow> unat (of_nat n :: u64) = n"
  by (simp add: sane_size_def unat_of_nat)

interpretation kh: bump_allocator "\<lambda>h. unat (g_heap_offset h)" 1048576 sane_size heap_inv heap_alloc
proof
  show "unat (g_heap_offset h) \<le> 1048576" if "heap_inv h" for h
    using that by (simp add: heap_inv_def word_le_nat_alt)
next
  fix h n a h'
  assume "heap_inv h" and s: "sane_size n" and "heap_alloc n h = Some (a, h')"
  moreover from this obtain p where "kalloc (of_nat n) h = Some (Some p, h')" "a = unat p"
    by (auto simp: heap_alloc_def split: option.splits)
  ultimately show "a = unat (g_heap_offset h) \<and> a + n \<le> unat (g_heap_offset h')" "heap_inv h'"
    using kalloc_Some [of h "of_nat n" p h'] sane_unat [OF s] by auto
qed

subsection \<open>Properties\<close>





text \<open>
  Without the bound on the request the check of \<^verbatim>\<open>kalloc\<close> wraps around: the sum of offset and size
  is small again, the check passes, and the block to clear is almost the whole address space.
\<close>

lemma kalloc_wraps:
  "kalloc (- 16) \<lparr>g_kernel_heap = m, g_heap_offset = 16\<rparr> = None"
  by (simp add: kalloc_def kalign_up_def KERNEL_HEAP_SIZE_def)

end
