(* ===== verification/Elf.thy ===== *)
theory Elf
  imports Fs Kheap
begin

text \<open>
  Model of \<^verbatim>\<open>src/kernel/elf.c\<close>: the check of an ELF header and the probe of a file, which opens it, reads
  it whole into the kernel heap and closes it again. Pointers are addresses in the kernel heap;
  loads are little endian. The property is that a probe accepts exactly the regular files that start
  with an x86-64 ELF header and fit the heap, and never keeps a descriptor.
\<close>

record elf64_header =
  ident :: "u8 list"
  e_type :: u16
  e_machine :: u16
  e_version :: u32
  e_entry :: u64
  e_phoff :: u64
  e_shoff :: u64
  e_flags :: u32
  e_ehsize :: u16
  e_phentsize :: u16
  e_phnum :: u16
  e_shentsize :: u16
  e_shnum :: u16
  e_shstrndx :: u16

record elf_image =
  i_base :: u64
  i_size :: u64
  i_entry :: u64

definition le_load :: "nat \<Rightarrow> memory \<Rightarrow> nat \<Rightarrow> 'a::len word" where
  "le_load n m a = foldr (\<lambda>i w. push_bit 8 w OR ucast (m (a + i))) [0..<n] 0"

definition header_at :: "memory \<Rightarrow> nat \<Rightarrow> elf64_header" where
  "header_at m a =
     \<lparr>ident = map (\<lambda>i. m (a + i)) [0..<16], e_type = le_load 2 m (a + 16), e_machine = le_load 2 m (a + 18),
      e_version = le_load 4 m (a + 20), e_entry = le_load 8 m (a + 24), e_phoff = le_load 8 m (a + 32),
      e_shoff = le_load 8 m (a + 40), e_flags = le_load 4 m (a + 48), e_ehsize = le_load 2 m (a + 52),
      e_phentsize = le_load 2 m (a + 54), e_phnum = le_load 2 m (a + 56), e_shentsize = le_load 2 m (a + 58),
      e_shnum = le_load 2 m (a + 60), e_shstrndx = le_load 2 m (a + 62)\<rparr>"

definition ELF_MAGIC :: "u8 list" where "ELF_MAGIC = [0x7F, 0x45, 0x4C, 0x46]"

text \<open>The size of the header is 64 bytes; \<open>None\<close> as \<open>data\<close> is the null pointer.\<close>

definition elf_parse_image :: "u64 option \<Rightarrow> u64 \<Rightarrow> memory \<Rightarrow> int \<times> elf_image option" where
  "elf_parse_image data sz m =
     (case data of
        None \<Rightarrow> (- EINVAL, None)
      | Some a \<Rightarrow>
          if sz < 64 then (- EINVAL, None)
          else
            let header = header_at m (unat a)
            in if kmemcmp (ident header) ELF_MAGIC 4 \<noteq> 0 \<or> ident header ! 4 \<noteq> 2 then (- ENOEXEC, None)
               else if e_machine header \<noteq> 62 then (- ENOEXEC, None)
               else (0, Some \<lparr>i_base = a, i_size = sz, i_entry = e_entry header\<rparr>))"

text \<open>
  The file is read into the block just allocated. The state is the file system and the heap; the
  result is the status, the image and the new state.
\<close>

definition elf_probe_path ::
  "(nat \<Rightarrow> char option) \<Rightarrow> string option \<Rightarrow> vfs \<times> kheap \<Rightarrow> (int \<times> elf_image option \<times> vfs \<times> kheap) option" where
  "elf_probe_path rx path st =
     (case st of (v, h) \<Rightarrow>
      (case fs_open_path path 0 0 v of
        None \<Rightarrow> None
      | Some (fd, v1) \<Rightarrow>
          if fd < 0 then Some (fd, None, v1, h)
          else
            (case fs_fstat_fd fd v1 of (status, statbuf) \<Rightarrow>
             if status < 0 then Some (status, None, snd (fs_close_fd fd v1), h)
             else
               let sz = st_size (the statbuf)
               in case kalloc sz h of
                    None \<Rightarrow> None
                  | Some (None, h1) \<Rightarrow> Some (- ENOMEM, None, snd (fs_close_fd fd v1), h1)
                  | Some (Some p, h1) \<Rightarrow>
                      (case fs_read_fd rx fd sz v1 of
                         None \<Rightarrow> None
                       | Some (r, out, v2) \<Rightarrow>
                           let h2 = h1\<lparr>g_kernel_heap := put_bytes (unat p) out (g_kernel_heap h1)\<rparr>
                           in if r < 0 then Some (- EIO, None, snd (fs_close_fd fd v2), h2)
                              else case elf_parse_image (Some p) sz (g_kernel_heap h2) of
                                     (s, img) \<Rightarrow> Some (s, img, snd (fs_close_fd fd v2), h2)))))"

subsection \<open>The header of a byte list\<close>

definition bytes_mem :: "u8 list \<Rightarrow> memory" where
  "bytes_mem bs i = (if i < length bs then bs ! i else 0)"

definition valid_elf :: "u8 list \<Rightarrow> bool" where
  "valid_elf bs \<longleftrightarrow> 64 \<le> length bs \<and> take 4 bs = ELF_MAGIC \<and> bs ! 4 = 2 \<and> bs ! 18 = 62 \<and> bs ! 19 = 0"

lemma le_load_cong: "(\<And>i. i < n \<Longrightarrow> m (a + i) = m' (b + i)) \<Longrightarrow> le_load n m a = le_load n m' b"
  unfolding le_load_def by (intro foldr_cong) auto

lemma le_load_shift:
  assumes "\<And>i. i < 64 \<Longrightarrow> m (a + i) = m' (b + i)" and "n + k \<le> 64"
  shows "le_load n m (a + k) = le_load n m' (b + k)"
  by (rule le_load_cong) (use assms(1) [of "k + _"] assms(2) in \<open>simp add: add.assoc\<close>)

lemma header_at_cong:
  assumes "\<And>i. i < 64 \<Longrightarrow> m (a + i) = m' (b + i)"
  shows "header_at m a = header_at m' b"
  using assms le_load_shift [of m a m' b, OF assms, where 'a = 16] le_load_shift [of m a m' b, OF assms, where 'a = 32]
    le_load_shift [of m a m' b, OF assms, where 'a = 64]
  by (simp add: header_at_def)

lemma le16_cases: "le_load 2 m a = (62 :: u16) \<longleftrightarrow> m a = 62 \<and> m (a + 1) = 0"
proof -
  have e: "le_load 2 m a = push_bit 8 (ucast (m (a + 1))) OR (ucast (m a) :: u16)"
    by (simp add: le_load_def numeral_2_eq_2)
  have lo: "ucast (push_bit 8 (ucast y) OR (ucast x :: u16)) = x" for x y :: u8
    by (rule bit_word_eqI) (simp add: bit_simps)
  have hi: "ucast (drop_bit 8 (push_bit 8 (ucast y) OR (ucast x :: u16))) = y" for x y :: u8
    by (rule bit_word_eqI) (auto simp: bit_simps dest: bit_imp_le_length)
  show ?thesis
  proof
    assume a: "le_load 2 m a = (62 :: u16)"
    have "m a = ucast (le_load 2 m a :: u16)" "m (a + 1) = ucast (drop_bit 8 (le_load 2 m a :: u16))" by (simp_all only: e lo hi)
    then show "m a = 62 \<and> m (a + 1) = 0" unfolding a by simp
  qed (simp add: e)
qed

lemma kmemcmp_zero: "n \<le> length xs \<Longrightarrow> n \<le> length ys \<Longrightarrow> kmemcmp xs ys n = 0 \<longleftrightarrow> take n xs = take n ys"
  by (induction xs ys n rule: kmemcmp.induct) (auto simp: word_uint_eq_iff)

lemma parse_bytes:
  assumes "unat sz = length bs" and "\<And>i. i < length bs \<Longrightarrow> m (unat a + i) = bs ! i"
  shows "elf_parse_image (Some a) sz m =
    (if length bs < 64 then (- EINVAL, None) else if \<not> valid_elf bs then (- ENOEXEC, None)
     else (0, Some \<lparr>i_base = a, i_size = sz, i_entry = le_load 8 (bytes_mem bs) 24\<rparr>))"
proof (cases "length bs < 64")
  case True
  then show ?thesis using assms(1) by (simp add: elf_parse_image_def word_less_nat_alt)
next
  case False
  have h: "header_at m (unat a) = header_at (bytes_mem bs) 0"
    by (rule header_at_cong) (use assms(2) False in \<open>simp add: bytes_mem_def\<close>)
  have i: "ident (header_at (bytes_mem bs) 0) = take 16 bs"
    using False by (auto simp: header_at_def bytes_mem_def intro!: nth_equalityI)
  have mag: "kmemcmp (take 16 bs) ELF_MAGIC 4 = 0 \<longleftrightarrow> take 4 bs = ELF_MAGIC"
    using False by (subst kmemcmp_zero) (auto simp: ELF_MAGIC_def min_def)
  have mach: "e_machine (header_at (bytes_mem bs) 0) = 62 \<longleftrightarrow> bs ! 18 = 62 \<and> bs ! 19 = 0"
    using False by (simp add: header_at_def le16_cases bytes_mem_def)
  have "e_entry (header_at (bytes_mem bs) 0) = le_load 8 (bytes_mem bs) 24" by (simp add: header_at_def)
  then show ?thesis using False assms(1) mag mach
    by (auto simp: elf_parse_image_def word_less_nat_alt h i valid_elf_def Let_def)
qed

subsection \<open>Probing\<close>

lemma open_plain: "open_node p 0 0 fs = map_option (\<lambda>node. (node, fs)) (tmpfs_lookup_path p fs)"
  by (simp add: open_node_def split: option.split)

lemma fs_fstat_file:
  assumes "lookup_file fd v = Some k" and "f_node_id (v_files v ! k) = int i" and "is_file (v_fs v) i"
  shows "fst (fs_fstat_fd fd v) = 0" and "st_size (the (snd (fs_fstat_fd fd v))) = n_size (g_nodes (v_fs v) ! i)"
  using assms by (simp_all add: fs_fstat_fd_def fill_stat_from_node_def get_node_file)

definition heap_fits :: "nat \<Rightarrow> kheap \<Rightarrow> bool" where
  "heap_fits n h \<longleftrightarrow> n \<noteq> 0 \<and> unat (g_heap_offset h) + (n + 15) div 16 * 16 \<le> 1048576"

definition probe_status :: "u8 list \<Rightarrow> kheap \<Rightarrow> int" where
  "probe_status bs h =
     (if \<not> heap_fits (length bs) h then - ENOMEM else if length bs < 64 then - EINVAL
      else if \<not> valid_elf bs then - ENOEXEC else 0)"

text \<open>Any read or failed operation between open and close leaves the descriptors as they were.\<close>

lemma fs_read_fd_frame:
  assumes "fs_read_fd rx fd count v = Some (r, out, v')" and "lookup_file fd v = Some k" and "k < length (v_files v)"
  shows "v_tasks v' = v_tasks v" and "v_fs v' = v_fs v" and "\<And>j. j \<noteq> k \<Longrightarrow> v_files v' ! j = v_files v ! j"
  using assms
  by (auto simp: fs_read_fd_def read_console_def upd_file_def Let_def split: option.splits if_splits prod.splits)

definition descriptors_kept :: "vfs \<Rightarrow> vfs \<Rightarrow> bool" where
  "descriptors_kept v v' \<longleftrightarrow> vfs_inv v' \<and> v_tasks v' = v_tasks v \<and> v_fs v' = v_fs v \<and> (\<forall>k. file_in_use v' k = file_in_use v k)"

lemma probe_keeps_descriptors:
  assumes inv: "vfs_inv v" and pr: "elf_probe_path rx path (v, h) = Some (r, img, v', h')"
  shows "descriptors_kept v v'"
proof -
  obtain fd v1 where o: "fs_open_path path 0 0 v = Some (fd, v1)" using pr by (auto simp: elf_probe_path_def split: option.splits)
  have inv1: "vfs_inv v1" by (rule fs_open_path_inv [OF inv o])
  show ?thesis
  proof (cases "fd < 0")
    case True
    then have v': "v' = v1" using pr o by (simp add: elf_probe_path_def)
    show ?thesis
    proof (rule fs_open_cases [OF inv o])
      fix node fs
      assume n: "open_node (current_path path v) 0 0 (v_fs v) = Some (node, fs)" "v_fs v1 = fs" "v_tasks v1 = v_tasks v"
        "length (v_files v1) = length (v_files v)"
        "\<And>k. k < MAX_OPEN_FILES \<Longrightarrow> f_used (v_files v1 ! k) = f_used (v_files v ! k) \<and> (f_used (v_files v ! k) \<longrightarrow> v_files v1 ! k = v_files v ! k)"
      then show ?thesis using inv1 unfolding v' by (auto simp: descriptors_kept_def open_plain file_in_use_def)
    qed (use True in simp)
  next
    case False
    then have nn: "0 \<le> fd" by simp
    show ?thesis
    proof (rule fs_open_effect [OF inv o nn])
      fix node fs k
      assume e: "open_node (current_path path v) 0 0 (v_fs v) = Some (node, fs)" "v_fs v1 = fs" "lookup_file fd v1 = Some k"
        and close: "\<And>w. vfs_inv w \<Longrightarrow> v_tasks w = v_tasks v1 \<Longrightarrow> (\<And>j. j \<noteq> k \<Longrightarrow> v_files w ! j = v_files v1 ! j) \<Longrightarrow>
         \<exists>w'. fs_close_fd fd w = (0, w') \<and> vfs_inv w' \<and> v_tasks w' = v_tasks v \<and> v_fs w' = v_fs w \<and> v_con w' = v_con w \<and>
           (\<forall>j. file_in_use w' j = file_in_use v j)"
      have fs: "v_fs v1 = v_fs v" using e(1,2) by (auto simp: open_plain)
      obtain w where w: "v' = snd (fs_close_fd fd w)" "w = v1 \<or> (\<exists>sz r out. fs_read_fd rx fd sz v1 = Some (r, out, w))"
        using pr o False by (auto simp: elf_probe_path_def Let_def split: option.splits if_splits prod.splits)
      have fr: "vfs_inv w \<and> v_tasks w = v_tasks v1 \<and> v_fs w = v_fs v1 \<and> (\<forall>j. j \<noteq> k \<longrightarrow> v_files w ! j = v_files v1 ! j)"
        using w(2)
      proof
        assume "\<exists>sz r out. fs_read_fd rx fd sz v1 = Some (r, out, w)"
        then obtain sz r out where rd: "fs_read_fd rx fd sz v1 = Some (r, out, w)" by blast
        show ?thesis
          using fs_read_fd_inv [OF inv1 rd] fs_read_fd_frame [OF rd e(3) lookup_file_SomeD(5) [OF inv1 e(3)]] by blast
      qed (use inv1 in simp)
      with close [of w] obtain w' where "fs_close_fd fd w = (0, w')" "vfs_inv w'" "v_tasks w' = v_tasks v" "v_fs w' = v_fs w"
        "\<forall>j. file_in_use w' j = file_in_use v j" by blast
      with fr fs w(1) show ?thesis by (simp add: descriptors_kept_def)
    qed
  qed
qed

lemma probe_file:
  assumes inv: "vfs_inv v" and h: "heap_inv h" and o: "fs_open_path path 0 0 v = Some (fd, v1)" "0 \<le> fd"
    and fl: "tmpfs_lookup_path (current_path path v) (v_fs v) = Some (int i)" "is_file (v_fs v) i"
  defines "bs \<equiv> content (v_fs v) i"
  shows "\<exists>img v' h'. elf_probe_path rx path (v, h) = Some (probe_status bs h, img, v', h') \<and> heap_inv h' \<and>
    (probe_status bs h = 0 \<longrightarrow> img = Some \<lparr>i_base = g_heap_offset h, i_size = of_nat (length bs), i_entry = le_load 8 (bytes_mem bs) 24\<rparr> \<and>
       (\<forall>j < length bs. g_kernel_heap h' (unat (g_heap_offset h) + j) = bs ! j))"
proof (rule fs_open_effect [OF inv o])
  fix node fs k
  assume "open_node (current_path path v) 0 0 (v_fs v) = Some (node, fs)" "v_fs v1 = fs" and l: "lookup_file fd v1 = Some k"
    and at: "v_files v1 ! k = open_file node 0"
  then have fs: "v_fs v1 = v_fs v" and node: "node = int i" using fl(1) by (auto simp: open_plain)
  have inv1: "vfs_inv v1" by (rule fs_open_path_inv [OF inv o(1)])
  have st: "storage (v_fs v)" using inv by (simp add: vfs_inv_def tmpfs_inv_def)
  have f: "f_node_id (v_files v1 ! k) = int i" "is_file (v_fs v1) i" using at node fl(2) fs by (simp_all add: open_file_def)
  have sz: "unat (n_size (g_nodes (v_fs v1) ! i)) = length bs" unfolding bs_def fs using content_length [OF st is_file_live [OF fl(2)]] by simp
  have small: "sane_size (length bs)"
    using storage_size [OF st is_file_live [OF fl(2)]] by (simp add: bs_def sane_size_def TMPFS_DATA_ARENA_SIZE_def)
  have rf: "reads_file fd k i v1" using l f by (simp add: reads_file_def)
  have "f_offset (v_files v1 ! k) = 0" using at by (simp add: open_file_def)
  then obtain v2 where rd: "fs_read_fd rx fd (n_size (g_nodes (v_fs v1) ! i)) v1 = Some (int (length bs), bs, v2)"
    using fs_read_file [OF inv1 rf, of rx "n_size (g_nodes (v_fs v1) ! i)"] sz fs by (auto simp: bs_def)
  note ka = kalloc_cases [OF h, of "n_size (g_nodes (v_fs v1) ! i)", unfolded sz, OF small]
  obtain stat where stat: "fs_fstat_fd fd v1 = (0, stat)" "st_size (the stat) = n_size (g_nodes (v_fs v1) ! i)"
    using fs_fstat_file [OF l f] by (metis prod.collapse)
  have z: "n_size (g_nodes (v_fs v1) ! i) = 0 \<longleftrightarrow> length bs = 0" using sz by (metis unat_eq_zero unat_0)
  show ?thesis
  proof (cases "heap_fits (length bs) h")
    case False
    then have "kalloc (n_size (g_nodes (v_fs v1) ! i)) h = Some (None, h)" using ka z by (auto simp: heap_fits_def)
    then show ?thesis using False o stat h by (simp add: elf_probe_path_def probe_status_def ENOMEM_def)
  next
    case True
    define h1 where "h1 = snd (the (kalloc (n_size (g_nodes (v_fs v1) ! i)) h))"
    have k: "kalloc (n_size (g_nodes (v_fs v1) ! i)) h = Some (Some (g_heap_offset h), h1)"
      using ka True z by (auto simp: heap_fits_def h1_def)
    have h1: "heap_inv h1" by (rule kalloc_Some(3) [OF h _ k]) (use small sz in simp)
    let ?m = "put_bytes (unat (g_heap_offset h)) bs (g_kernel_heap h1)"
    have m: "?m (unat (g_heap_offset h) + j) = bs ! j" if "j < length bs" for j using that by (simp add: put_bytes_apply)
    have w: "n_size (g_nodes (v_fs v1) ! i) = of_nat (length bs)" using sz [symmetric] by simp
    show ?thesis
      using True o stat k rd h1 m parse_bytes [OF sz, of ?m "g_heap_offset h", OF m]
      by (auto simp: elf_probe_path_def probe_status_def heap_inv_def w EINVAL_def ENOEXEC_def)
  qed
qed


definition sample_elf :: "u8 list" where
  "sample_elf = ELF_MAGIC @ [2] @ replicate 13 0 @ [62, 0] @ replicate 4 0 @ [0, 0x10, 0x40, 0, 0, 0, 0, 0] @ replicate 32 0"

definition empty_heap :: kheap where
  "empty_heap = \<lparr>g_kernel_heap = (\<lambda>_. 0), g_heap_offset = 0\<rparr>"


end
