(* ===== verification/Syscall.thy ===== *)
theory Syscall
  imports Elf Sched
begin

text \<open>
  The system call interface: \<^verbatim>\<open>src/syscall/syscall_impl.c\<close>, \<^verbatim>\<open>src/syscall/syscall_table.c\<close>,
  \<^verbatim>\<open>src/kernel/syscall.c\<close> and \<^verbatim>\<open>src/kernel/syscall_arch.c\<close>. Arguments are 64-bit registers; casts to
  \<^verbatim>\<open>int\<close> keep the low half. The memory of the caller is a byte map that system calls read strings and
  buffers from and write results to; it is kept apart from the data of the kernel, that is, the
  pointers a caller passes do not reach into kernel objects. The result of a call is \<open>None\<close> if it does
  not come back properly, \<open>Inl\<close> if it stops the machine, and otherwise the returned value and the
  new state.
\<close>

subsection \<open>State and caller memory\<close>

record kernel =
  k_vfs :: vfs
  k_heap :: kheap
  k_sched :: sched
  k_mem :: memory
  k_irq :: bool
  k_action :: int
  k_io :: "io_op list"

text \<open>What arrives from the hardware during a call: serial input and keyboard controller status.\<close>

record hardware =
  h_rx :: "nat \<Rightarrow> char option"
  h_status :: "nat \<Rightarrow> u8"

type_synonym sysret = "((power \<times> machine) + (int \<times> kernel)) option"
type_synonym syscall_handler_t = "u64 \<Rightarrow> u64 \<Rightarrow> u64 \<Rightarrow> u64 \<Rightarrow> u64 \<Rightarrow> u64 \<Rightarrow> kernel \<Rightarrow> sysret"

definition ret :: "int \<Rightarrow> kernel \<Rightarrow> sysret" where
  "ret r k = Some (Inr (r, k))"

definition ret_vfs :: "(int \<times> vfs) option \<Rightarrow> kernel \<Rightarrow> sysret" where
  "ret_vfs res k = (case res of None \<Rightarrow> None | Some (r, v) \<Rightarrow> ret r (k\<lparr>k_vfs := v\<rparr>))"

definition tasks :: "kernel \<Rightarrow> task_table" where
  "tasks k = v_tasks (k_vfs k)"

definition set_tasks :: "task_table \<Rightarrow> kernel \<Rightarrow> kernel" where
  "set_tasks tt k = k\<lparr>k_vfs := (k_vfs k)\<lparr>v_tasks := tt\<rparr>\<rparr>"

definition machine_of :: "kernel \<Rightarrow> machine" where
  "machine_of k = \<lparr>m_irq = k_irq k, m_tasks = tasks k, m_action = k_action k, m_io = k_io k, m_log = []\<rparr>"

definition int32 :: "u64 \<Rightarrow> int" where
  "int32 a = sint (ucast a :: u32)"

definition load_bytes :: "memory \<Rightarrow> nat \<Rightarrow> nat \<Rightarrow> u8 list" where
  "load_bytes m a n = map (\<lambda>i. m (a + i)) [0..<n]"

definition le_bytes :: "nat \<Rightarrow> 'a::len word \<Rightarrow> u8 list" where
  "le_bytes n w = map (\<lambda>i. ucast (drop_bit (8 * i) w)) [0..<n]"

text \<open>The string at an address; there is none when no terminator follows.\<close>

partial_function (option) user_str :: "memory \<Rightarrow> nat \<Rightarrow> string option" where
  "user_str m a =
     (if m a = 0 then Some [] else Option.bind (user_str m (Suc a)) (\<lambda>s. Some (char_of (unat (m a)) # s)))"

definition user_path :: "memory \<Rightarrow> u64 \<Rightarrow> string option option" where
  "user_path m p = (if p = 0 then Some None else map_option Some (user_str m (unat p)))"

definition put_user :: "u64 \<Rightarrow> u8 list \<Rightarrow> kernel \<Rightarrow> kernel" where
  "put_user p bs k = k\<lparr>k_mem := put_bytes (unat p) bs (k_mem k)\<rparr>"

subsection \<open>Files\<close>

definition sys_read :: "hardware \<Rightarrow> syscall_handler_t" where
  "sys_read hw fd buffer count a3 a4 a5 k =
     (case fs_read_fd (h_rx hw) (int32 fd) count (k_vfs k) of
        None \<Rightarrow> None
      | Some (r, out, v) \<Rightarrow> ret r (put_user buffer out (k\<lparr>k_vfs := v\<rparr>)))"

definition sys_write :: syscall_handler_t where
  "sys_write fd buffer count a3 a4 a5 k =
     ret_vfs (fs_write_fd (int32 fd) (load_bytes (k_mem k) (unat buffer) (unat count)) (k_vfs k)) k"

definition with_path :: "u64 \<Rightarrow> kernel \<Rightarrow> (string option \<Rightarrow> sysret) \<Rightarrow> sysret" where
  "with_path p k f = (case user_path (k_mem k) p of None \<Rightarrow> None | Some path \<Rightarrow> f path)"

definition sys_open :: syscall_handler_t where
  "sys_open path flags mode a3 a4 a5 k =
     with_path path k (\<lambda>p. ret_vfs (fs_open_path p (int32 flags) (int32 mode) (k_vfs k)) k)"

definition AT_FDCWD :: int where "AT_FDCWD = -100"

definition sys_openat :: syscall_handler_t where
  "sys_openat dirfd path flags mode a4 a5 k =
     (if sint dirfd \<noteq> AT_FDCWD then ret (- ENOSYS) k
      else with_path path k (\<lambda>p. ret_vfs (fs_open_path p (int32 flags) (int32 mode) (k_vfs k)) k))"

definition sys_close :: syscall_handler_t where
  "sys_close fd a1 a2 a3 a4 a5 k = ret_vfs (Some (fs_close_fd (int32 fd) (k_vfs k))) k"

text \<open>The layout of \<^verbatim>\<open>struct mgcore_stat\<close>: 120 bytes, cleared before the fields are set.\<close>

definition stat_bytes :: "mgcore_stat \<Rightarrow> u8 list" where
  "stat_bytes s =
     replicate 8 0 @ le_bytes 8 (st_ino s) @ le_bytes 8 (st_nlink s) @ le_bytes 4 (st_mode s) @ replicate 20 0 @
     le_bytes 8 (st_size s) @ le_bytes 8 (st_blksize s) @ le_bytes 8 (st_blocks s) @ replicate 48 0"

definition put_stat :: "u64 \<Rightarrow> int \<times> mgcore_stat option \<Rightarrow> kernel \<Rightarrow> sysret" where
  "put_stat statbuf res k =
     (case res of
        (r, None) \<Rightarrow> ret r k
      | (r, Some s) \<Rightarrow> if statbuf = 0 then ret (- EINVAL) k else ret r (put_user statbuf (stat_bytes s) k))"

definition sys_stat :: syscall_handler_t where
  "sys_stat path statbuf a2 a3 a4 a5 k =
     with_path path k (\<lambda>p. case fs_stat_path p (k_vfs k) of None \<Rightarrow> None | Some res \<Rightarrow> put_stat statbuf res k)"

definition sys_fstat :: syscall_handler_t where
  "sys_fstat fd statbuf a2 a3 a4 a5 k = put_stat statbuf (fs_fstat_fd (int32 fd) (k_vfs k)) k"

definition sys_lseek :: syscall_handler_t where
  "sys_lseek fd offset whence a3 a4 a5 k = ret_vfs (Some (fs_lseek_fd (int32 fd) offset (int32 whence) (k_vfs k))) k"

definition sys_getcwd :: syscall_handler_t where
  "sys_getcwd buffer sz a2 a3 a4 a5 k =
     (let cwd = cstr (fs_getcwd (k_vfs k)); len = of_nat (kstrlen (fs_getcwd (k_vfs k)) + 1) :: u64
      in if buffer = 0 \<or> sz < len then ret (- EINVAL) k
         else ret (sint buffer) (put_user buffer (map of_char cwd @ [0]) k))"

definition sys_chdir :: syscall_handler_t where
  "sys_chdir path a1 a2 a3 a4 a5 k = with_path path k (\<lambda>p. ret_vfs (fs_chdir_path p (k_vfs k)) k)"

definition sys_mkdir :: syscall_handler_t where
  "sys_mkdir path mode a2 a3 a4 a5 k = with_path path k (\<lambda>p. ret_vfs (fs_mkdir_path p (ucast mode) (k_vfs k)) k)"

definition sys_rmdir :: syscall_handler_t where
  "sys_rmdir path a1 a2 a3 a4 a5 k = with_path path k (\<lambda>p. ret_vfs (fs_rmdir_path p (k_vfs k)) k)"

definition sys_unlink :: syscall_handler_t where
  "sys_unlink path a1 a2 a3 a4 a5 k = with_path path k (\<lambda>p. ret_vfs (fs_unlink_path p (k_vfs k)) k)"

subsection \<open>Memory\<close>

definition set_mm :: "address_space \<Rightarrow> kernel \<Rightarrow> kernel" where
  "set_mm mm k = k\<lparr>k_vfs := upd_current (\<lambda>t. t\<lparr>t_mm := mm\<rparr>) (k_vfs k)\<rparr>"

definition current_mm :: "kernel \<Rightarrow> address_space" where
  "current_mm k = t_mm (task_current (tasks k))"

definition sys_mmap :: syscall_handler_t where
  "sys_mmap address len prot flags fd offset k =
     (case vmm_reserve_range len (int32 prot) (current_mm k) of
        (region, mm) \<Rightarrow> ret (if region \<noteq> 0 then sint region else - ENOMEM) (set_mm mm k))"

definition sys_mprotect :: syscall_handler_t where
  "sys_mprotect address len prot a3 a4 a5 k = ret 0 k"

definition sys_munmap :: syscall_handler_t where
  "sys_munmap address len a2 a3 a4 a5 k =
     (case vmm_unmap address len (current_mm k) of (r, mm) \<Rightarrow> ret r (set_mm mm k))"

definition sys_brk :: syscall_handler_t where
  "sys_brk address a1 a2 a3 a4 a5 k =
     (let mm = current_mm k
      in if address = 0 then ret (sint (brk_current mm)) k
         else if address < brk_base mm then ret (sint (brk_current mm)) k
         else ret (sint address) (set_mm (mm\<lparr>brk_current := address\<rparr>) k))"

subsection \<open>Processes, signals and time\<close>

definition sys_rt_sigaction :: syscall_handler_t where
  "sys_rt_sigaction signum act oldact sigsetsize a4 a5 k = ret 0 k"

definition sys_signal :: syscall_handler_t where
  "sys_signal signum handler a2 a3 a4 a5 k = ret (if signum < 32 then 0 else - EINVAL) k"

definition sys_ioctl :: syscall_handler_t where
  "sys_ioctl fd request argp a3 a4 a5 k = ret 0 k"

definition sys_sched_yield :: syscall_handler_t where
  "sys_sched_yield a0 a1 a2 a3 a4 a5 k = ret 0 k"

definition trunc_div :: "int \<Rightarrow> int \<Rightarrow> int" where
  "trunc_div n d = (if n < 0 then - ((- n) div d) else n div d)"

definition sleep_ticks :: "memory \<Rightarrow> u64 \<Rightarrow> u64" where
  "sleep_ticks m req =
     (if req = 0 then 1
      else
        let sec = le_load 8 m (unat req) :: u64; nsec = le_load 8 m (unat req + 8) :: u64;
            t = sec * MGCORE_HZ + word_of_int (trunc_div (sint nsec) 10000000)
        in if t = 0 then 1 else t)"

definition sys_nanosleep :: syscall_handler_t where
  "sys_nanosleep req rem a2 a3 a4 a5 k =
     ret 0 (set_tasks (task_sleep_until (scheduler_uptime_ticks (k_sched k) + sleep_ticks (k_mem k) req) (tasks k)) k)"

definition sys_getpid :: syscall_handler_t where
  "sys_getpid a0 a1 a2 a3 a4 a5 k = ret (task_current_pid (tasks k)) k"

definition sys_fork :: syscall_handler_t where
  "sys_fork a0 a1 a2 a3 a4 a5 k =
     (case task_spawn_user (t_name (task_current (tasks k))) (tasks k) of
        None \<Rightarrow> ret (- ENOMEM) k
      | Some (child, tt) \<Rightarrow> ret (t_pid (g_tasks tt ! child)) (set_tasks tt k))"

definition sys_execve :: "hardware \<Rightarrow> syscall_handler_t" where
  "sys_execve hw path argv envp a3 a4 a5 k =
     with_path path k (\<lambda>p.
       case elf_probe_path (h_rx hw) p (k_vfs k, k_heap k) of
         None \<Rightarrow> None
       | Some (status, img, v, h) \<Rightarrow>
           let k1 = k\<lparr>k_vfs := v, k_heap := h\<rparr>
           in if status < 0 then ret status k1
              else case console_printf (''execve: %s entry=%p'' @ [CHR 0x0A]) [VStr p, VInt (i_entry (the img))] (v_con v) of
                     None \<Rightarrow> None
                   | Some c \<Rightarrow> ret 0 (k1\<lparr>k_vfs := v\<lparr>v_con := c\<rparr>\<rparr>))"

definition sys_exit :: syscall_handler_t where
  "sys_exit status a1 a2 a3 a4 a5 k = ret 0 (set_tasks (task_exit (int32 status) (tasks k)) k)"

definition zombie_child :: "task_table \<Rightarrow> nat \<Rightarrow> bool" where
  "zombie_child tt i =
     (case task_find (int i) tt of
        None \<Rightarrow> False
      | Some j \<Rightarrow> t_ppid (g_tasks tt ! j) = task_current_pid tt \<and> tstate tt j = TASK_ZOMBIE)"

definition sys_wait4 :: syscall_handler_t where
  "sys_wait4 pid status_ptr options rusage a4 a5 k =
     (case scan_from (zombie_child (tasks k)) 1 MGCORE_MAX_TASKS of
        None \<Rightarrow> ret (- ECHILD) k
      | Some i \<Rightarrow>
          let candidate = g_tasks (tasks k) ! the (task_find (int i) (tasks k));
              k1 = (if status_ptr \<noteq> 0
                    then put_user status_ptr (le_bytes 4 (push_bit 8 (word_of_int (t_exit_code candidate)) :: u32)) k else k)
          in ret (t_pid candidate) k1)"

definition sys_kill :: syscall_handler_t where
  "sys_kill pid signum a2 a3 a4 a5 k = ret (signal_send (int32 pid) (int32 signum) (tasks k)) k"

definition uts_field :: "string \<Rightarrow> u8 list" where
  "uts_field s = map of_char s @ replicate (65 - length s) 0"

definition copy_uname :: "u64 \<Rightarrow> kernel \<Rightarrow> sysret" where
  "copy_uname nm k =
     (if nm = 0 then ret (- EFAULT) k
      else ret 0 (put_user nm (concat (map uts_field
             [''MGCORE'', ''mgcore'', ''0.1'', ''linux-like syscall scaffold'', ''x86_64''])) k))"

definition sys_uname :: syscall_handler_t where
  "sys_uname name_ptr a1 a2 a3 a4 a5 k = copy_uname name_ptr k"

definition sys_gettimeofday :: syscall_handler_t where
  "sys_gettimeofday tv_ptr tz_ptr a2 a3 a4 a5 k =
     (let ms = scheduler_uptime_ms (k_sched k)
      in if tv_ptr = 0 then ret (- EFAULT) k
         else ret 0 (put_user tv_ptr (le_bytes 8 (ms div 1000) @ le_bytes 8 ((ms mod 1000) * 1000)) k))"

definition sys_reboot :: "hardware \<Rightarrow> syscall_handler_t" where
  "sys_reboot hw magic1 magic2 cmd arg a4 a5 k =
     Some (Inl (kernel_reboot (h_status hw) (say [Writeln ''reboot: requested'' []] (machine_of k))))"

subsection \<open>Dispatch\<close>

definition MGCORE_SYSCALL_MAX :: nat where "MGCORE_SYSCALL_MAX = 512"

definition g_syscall_table :: "hardware \<Rightarrow> (nat \<times> syscall_handler_t) list" where
  "g_syscall_table hw =
     [(0, sys_read hw), (1, sys_write), (2, sys_open), (3, sys_close), (4, sys_stat), (5, sys_fstat), (8, sys_lseek),
      (9, sys_mmap), (10, sys_mprotect), (11, sys_munmap), (12, sys_brk), (13, sys_rt_sigaction), (16, sys_ioctl),
      (24, sys_sched_yield), (35, sys_nanosleep), (39, sys_getpid), (48, sys_signal), (57, sys_fork), (59, sys_execve hw),
      (60, sys_exit), (61, sys_wait4), (62, sys_kill), (63, sys_uname), (79, sys_getcwd), (80, sys_chdir), (83, sys_mkdir),
      (84, sys_rmdir), (87, sys_unlink), (96, sys_gettimeofday), (169, sys_reboot hw), (257, sys_openat)]"

definition syscall_dispatch :: "hardware \<Rightarrow> u64 \<Rightarrow> syscall_handler_t" where
  "syscall_dispatch hw nr a0 a1 a2 a3 a4 a5 k =
     (if nr \<ge> of_nat MGCORE_SYSCALL_MAX then ret (- ENOSYS) k
      else case map_of (g_syscall_table hw) (unat nr) of
        None \<Rightarrow> ret (- ENOSYS) k
      | Some handler \<Rightarrow> handler a0 a1 a2 a3 a4 a5 k)"

text \<open>The registers of the \<^verbatim>\<open>syscall\<close> instruction: number, low and high half of each one written.\<close>

definition write_msr :: "u32 \<Rightarrow> u64 \<Rightarrow> u32 \<times> u32 \<times> u32" where
  "write_msr msr v = (msr, ucast v, ucast (drop_bit 32 v))"

definition syscall_arch_init :: "u64 \<Rightarrow> (u32 \<times> u32 \<times> u32) list" where
  "syscall_arch_init syscall_entry =
     (let star = push_bit 48 0x18 OR push_bit 32 0x08
      in [write_msr 0xC0000081 star, write_msr 0xC0000082 syscall_entry, write_msr 0xC0000084 0x200, write_msr 0xC0000080 0x1])"

definition syscall_init :: "u64 \<Rightarrow> (u32 \<times> u32 \<times> u32) list \<times> con_call list" where
  "syscall_init syscall_entry =
     (syscall_arch_init syscall_entry,
      [Printf (''syscall: table ready (%u entries)'' @ [CHR 0x0A]) [vunsigned (of_nat MGCORE_SYSCALL_MAX)]])"

subsection \<open>The invariant\<close>

definition kernel_inv :: "kernel \<Rightarrow> bool" where
  "kernel_inv k \<longleftrightarrow> vfs_inv (k_vfs k) \<and> heap_inv (k_heap k)"

text \<open>A result is safe when the state it comes back with satisfies the invariant.\<close>

definition safe :: "sysret \<Rightarrow> bool" where
  "safe res \<longleftrightarrow> (\<forall>r k. res = Some (Inr (r, k)) \<longrightarrow> kernel_inv k)"

named_theorems safety

lemma safe_None [safety]: "safe None"
  by (simp add: safe_def)

lemma safe_ret [safety]: "kernel_inv k \<Longrightarrow> safe (ret r k)"
  by (simp add: safe_def ret_def)

lemma safe_ret_vfs [safety]:
  assumes "kernel_inv k" and "\<And>r v. res = Some (r, v) \<Longrightarrow> vfs_inv v"
  shows "safe (ret_vfs res k)"
  using assms by (auto simp: safe_def ret_vfs_def ret_def kernel_inv_def split: option.splits)

lemma safe_with_path [safety]: "(\<And>p. safe (f p)) \<Longrightarrow> safe (with_path a k f)"
  by (simp add: with_path_def safe_None split: option.split)

lemma inv_put_user [safety]: "kernel_inv k \<Longrightarrow> kernel_inv (put_user p bs k)"
  by (simp add: kernel_inv_def put_user_def)

lemma inv_event [safety]: "kernel_inv k \<Longrightarrow> kernel_inv (set_tasks (run_event ev (tasks k)) k)"
  by (simp add: kernel_inv_def set_tasks_def tasks_def task_event_vfs_inv)

lemma inv_set_mm [safety]:
  assumes "kernel_inv k"
  shows "kernel_inv (set_mm mm k)"
proof -
  let ?v = "upd_current (\<lambda>t. t\<lparr>t_mm := mm\<rparr>) (k_vfs k)"
  have inv: "vfs_inv (k_vfs k)" using assms by (simp add: kernel_inv_def)
  then have fi: "fd_inv (k_vfs k)" and ti: "task_inv (v_tasks (k_vfs k))" by (auto simp: vfs_inv_def)
  have n: "g_tasks (v_tasks ?v) ! i = (if i = cur (k_vfs k) then (g_tasks (v_tasks (k_vfs k)) ! i)\<lparr>t_mm := mm\<rparr> else g_tasks (v_tasks (k_vfs k)) ! i)"
    if "i < MGCORE_MAX_TASKS" for i by (rule upd_current_tasks [OF ti that])
  have "fd_inv ?v" by (rule fd_inv_cong [OF fi]) (use n fd_invD(4) [OF fi] in \<open>auto simp: tstate_def split: if_splits\<close>)
  moreover have "task_inv (v_tasks ?v)" unfolding upd_current_def by simp (rule upd_task_inv [OF ti]; simp)
  ultimately show ?thesis using assms inv by (simp add: kernel_inv_def vfs_inv_def set_mm_def)
qed

lemma safe_read: "kernel_inv k \<Longrightarrow> safe (sys_read hw fd buffer count a3 a4 a5 k)"
  using fs_read_fd_inv [of "k_vfs k"]
  by (auto simp: sys_read_def kernel_inv_def split: option.splits intro!: safety)

lemma safe_write:
  assumes "kernel_inv k" and "sane_write (int32 fd) (load_bytes (k_mem k) (unat buffer) (unat count)) (k_vfs k)"
  shows "safe (sys_write fd buffer count a3 a4 a5 k)"
  unfolding sys_write_def using fs_write_fd_inv [OF _ assms(2)] assms(1) by (auto simp: kernel_inv_def intro!: safety)

lemma safe_files:
  assumes "kernel_inv k"
  shows "safe (sys_open a0 a1 a2 a3 a4 a5 k)" "safe (sys_openat a0 a1 a2 a3 a4 a5 k)" "safe (sys_close a0 a1 a2 a3 a4 a5 k)"
    "safe (sys_lseek a0 a1 a2 a3 a4 a5 k)" "safe (sys_chdir a0 a1 a2 a3 a4 a5 k)" "safe (sys_mkdir a0 a1 a2 a3 a4 a5 k)"
    "safe (sys_rmdir a0 a1 a2 a3 a4 a5 k)" "safe (sys_unlink a0 a1 a2 a3 a4 a5 k)"
proof -
  have v: "vfs_inv (k_vfs k)" using assms by (simp add: kernel_inv_def)
  note i = fs_open_path_inv [OF v] fs_close_fd_inv [OF v] fs_lseek_fd_inv [OF v] fs_chdir_path_inv [OF v] fs_dir_ops_inv [OF v]
  show "safe (sys_open a0 a1 a2 a3 a4 a5 k)" unfolding sys_open_def using i assms by (auto intro!: safety)
  show "safe (sys_openat a0 a1 a2 a3 a4 a5 k)" unfolding sys_openat_def using i assms by (auto intro!: safety)
  show "safe (sys_close a0 a1 a2 a3 a4 a5 k)" unfolding sys_close_def using i assms by (auto intro!: safety)
  show "safe (sys_lseek a0 a1 a2 a3 a4 a5 k)" unfolding sys_lseek_def using i assms by (auto intro!: safety)
  show "safe (sys_chdir a0 a1 a2 a3 a4 a5 k)" unfolding sys_chdir_def using i assms by (auto intro!: safety)
  show "safe (sys_mkdir a0 a1 a2 a3 a4 a5 k)" unfolding sys_mkdir_def using i assms by (auto intro!: safety)
  show "safe (sys_rmdir a0 a1 a2 a3 a4 a5 k)" unfolding sys_rmdir_def using i assms by (auto intro!: safety)
  show "safe (sys_unlink a0 a1 a2 a3 a4 a5 k)" unfolding sys_unlink_def using i assms by (auto intro!: safety)
qed

lemma safe_put_stat: "kernel_inv k \<Longrightarrow> safe (put_stat p res k)"
  by (auto simp: put_stat_def split: prod.splits option.splits intro!: safety)

lemma safe_tasks:
  assumes "kernel_inv k"
  shows "safe (sys_nanosleep a0 a1 a2 a3 a4 a5 k)" "safe (sys_exit a0 a1 a2 a3 a4 a5 k)" "safe (sys_fork a0 a1 a2 a3 a4 a5 k)"
proof -
  show "safe (sys_nanosleep a0 a1 a2 a3 a4 a5 k)" unfolding sys_nanosleep_def
    using inv_event [OF assms, of "Sleep _"] by (auto intro!: safe_ret)
  show "safe (sys_exit a0 a1 a2 a3 a4 a5 k)" unfolding sys_exit_def
    using inv_event [OF assms, of "Exit _"] by (auto intro!: safe_ret)
  show "safe (sys_fork a0 a1 a2 a3 a4 a5 k)" unfolding sys_fork_def
    using inv_event [OF assms, of "Spawn (t_name (task_current (tasks k)))"] assms by (auto split: option.splits intro!: safe_ret)
qed

lemma probe_heap_inv:
  assumes inv: "vfs_inv v" and h: "heap_inv h" and pr: "elf_probe_path rx path (v, h) = Some (r, img, v', h')"
  shows "heap_inv h'"
proof -
  obtain fd v1 where o: "fs_open_path path 0 0 v = Some (fd, v1)" using pr by (auto simp: elf_probe_path_def split: option.splits)
  have st: "storage (v_fs v1)" using fs_open_path_inv [OF inv o] by (simp add: vfs_inv_def tmpfs_inv_def)
  have sane: "sane_size (unat (st_size s))" if stat: "fs_fstat_fd fd v1 = (0, Some s)" for s
  proof -
    let ?i = "nat (f_node_id (v_files v1 ! the (lookup_file fd v1)))"
    have "live (v_fs v1) ?i" "st_size s = n_size (g_nodes (v_fs v1) ! ?i)"
      using stat
      by (auto simp: fs_fstat_fd_def fill_stat_from_node_def tmpfs_get_node_def live_def nat_less_iff split: option.splits if_splits)
    then show ?thesis using storage_size [OF st] content_length [OF st] by (fastforce simp: sane_size_def TMPFS_DATA_ARENA_SIZE_def)
  qed
  have stat: "fs_fstat_fd fd v1 = (s, None) \<and> s < 0 \<or> (\<exists>t. fs_fstat_fd fd v1 = (0, Some t))" if "fs_fstat_fd fd v1 = (s, b)" for s b
    using that by (auto simp: fs_fstat_fd_def fill_stat_from_node_def EBADF_def EINVAL_def split: option.splits)
  have kal: "heap_inv h1" if "fs_fstat_fd fd v1 = (0, Some t)" "kalloc (st_size t) h = Some (p, h1)" for t p h1
    using kalloc_cases [OF h sane [OF that(1)]] kalloc_Some(3) [OF h sane [OF that(1)]] that(2) h by (cases p) (auto split: if_splits)
  have "h' = h \<or> (\<exists>t p h1. fs_fstat_fd fd v1 = (0, Some t) \<and> kalloc (st_size t) h = Some (p, h1) \<and> g_heap_offset h' = g_heap_offset h1)"
    using pr o stat by (fastforce simp: elf_probe_path_def Let_def split: option.splits if_splits prod.splits)
  then show ?thesis using h kal by (auto simp: heap_inv_def)
qed

lemma safe_execve:
  assumes "kernel_inv k"
  shows "safe (sys_execve hw a0 a1 a2 a3 a4 a5 k)"
proof -
  have v: "vfs_inv (k_vfs k)" "heap_inv (k_heap k)" using assms by (simp_all add: kernel_inv_def)
  have "vfs_inv v' \<and> heap_inv h'" if "elf_probe_path (h_rx hw) p (k_vfs k, k_heap k) = Some (r, img, v', h')" for p r img v' h'
    using probe_keeps_descriptors [OF v(1) that] probe_heap_inv [OF v that] by (simp add: descriptors_kept_def)
  moreover have "vfs_inv (v'\<lparr>v_con := c\<rparr>)" if "vfs_inv v'" "console_printf f args (v_con v') = Some c" for v' f args c
    using vfs_inv_con [OF that(1)] console_printf_inv that by (auto simp: vfs_inv_def)
  ultimately show ?thesis unfolding sys_execve_def
    by (auto simp: kernel_inv_def Let_def split: option.splits intro!: safety)
qed

lemma safe_others:
  assumes "kernel_inv k"
  shows "safe (sys_stat a0 a1 a2 a3 a4 a5 k)" "safe (sys_fstat a0 a1 a2 a3 a4 a5 k)" "safe (sys_mmap a0 a1 a2 a3 a4 a5 k)"
    "safe (sys_mprotect a0 a1 a2 a3 a4 a5 k)" "safe (sys_munmap a0 a1 a2 a3 a4 a5 k)" "safe (sys_brk a0 a1 a2 a3 a4 a5 k)"
    "safe (sys_rt_sigaction a0 a1 a2 a3 a4 a5 k)" "safe (sys_ioctl a0 a1 a2 a3 a4 a5 k)" "safe (sys_sched_yield a0 a1 a2 a3 a4 a5 k)"
    "safe (sys_getpid a0 a1 a2 a3 a4 a5 k)" "safe (sys_signal a0 a1 a2 a3 a4 a5 k)" "safe (sys_wait4 a0 a1 a2 a3 a4 a5 k)"
    "safe (sys_kill a0 a1 a2 a3 a4 a5 k)" "safe (sys_uname a0 a1 a2 a3 a4 a5 k)" "safe (sys_getcwd a0 a1 a2 a3 a4 a5 k)"
    "safe (sys_gettimeofday a0 a1 a2 a3 a4 a5 k)" "safe (sys_reboot hw a0 a1 a2 a3 a4 a5 k)"
proof -
  show "safe (sys_stat a0 a1 a2 a3 a4 a5 k)" unfolding sys_stat_def
    using safe_put_stat [OF assms] by (auto split: option.splits intro!: safety)
  show "safe (sys_fstat a0 a1 a2 a3 a4 a5 k)" unfolding sys_fstat_def by (rule safe_put_stat [OF assms])
  show "safe (sys_mmap a0 a1 a2 a3 a4 a5 k)" "safe (sys_munmap a0 a1 a2 a3 a4 a5 k)"
    unfolding sys_mmap_def sys_munmap_def using assms by (auto split: prod.splits intro!: safety)
  show "safe (sys_wait4 a0 a1 a2 a3 a4 a5 k)"
    unfolding sys_wait4_def Let_def using assms by (auto split: option.splits intro!: safety)
  show "safe (sys_reboot hw a0 a1 a2 a3 a4 a5 k)" by (simp add: sys_reboot_def safe_def)
qed (use assms in \<open>auto simp: sys_mprotect_def sys_brk_def sys_rt_sigaction_def sys_ioctl_def sys_sched_yield_def sys_getpid_def
    sys_signal_def sys_kill_def sys_uname_def copy_uname_def sys_getcwd_def sys_gettimeofday_def Let_def intro!: safety\<close>)

lemmas handlers_safe = safe_read safe_files safe_tasks safe_execve safe_others

definition sane_call :: "u64 \<Rightarrow> u64 \<Rightarrow> u64 \<Rightarrow> u64 \<Rightarrow> kernel \<Rightarrow> bool" where
  "sane_call nr a0 a1 a2 k \<longleftrightarrow> (nr = 1 \<longrightarrow> sane_write (int32 a0) (load_bytes (k_mem k) (unat a1) (unat a2)) (k_vfs k))"

lemma dispatch_safe:
  assumes "kernel_inv k" and "sane_call nr a0 a1 a2 k"
  shows "safe (syscall_dispatch hw nr a0 a1 a2 a3 a4 a5 k)"
proof (cases "map_of (g_syscall_table hw) (unat nr)")
  case None
  then show ?thesis using assms(1) by (simp add: syscall_dispatch_def safe_ret)
next
  case (Some handler)
  have "safe (handler a0 a1 a2 a3 a4 a5 k)"
  proof (cases "nr = 1")
    case True
    then have "handler = sys_write" using Some by (simp add: g_syscall_table_def)
    then show ?thesis using safe_write [OF assms(1)] assms(2) True by (simp add: sane_call_def)
  next
    case False
    then have "unat nr \<noteq> 1" by (metis unat_1 word_unat_eq_iff)
    moreover have "(unat nr, handler) \<in> set (g_syscall_table hw)" using map_of_SomeD [OF Some] .
    ultimately have "(unat nr, handler) \<in> set (filter (\<lambda>e. fst e \<noteq> 1) (g_syscall_table hw))" by simp
    then show ?thesis unfolding g_syscall_table_def by (auto intro: handlers_safe [OF assms(1)])
  qed
  then show ?thesis using Some assms(1) by (simp add: syscall_dispatch_def safe_ret)
qed

text \<open>
  The kernel as a state machine: system calls of the running task, ticks of the scheduler, and the
  task changing its own memory between them.
\<close>

inductive kernel_step :: "kernel \<Rightarrow> kernel \<Rightarrow> bool" where
  call: "sane_call nr a0 a1 a2 k \<Longrightarrow> syscall_dispatch hw nr a0 a1 a2 a3 a4 a5 k = Some (Inr (r, k')) \<Longrightarrow> kernel_step k k'"
| tick: "kernel_step k (set_tasks (task_scheduler_tick now (tasks k)) k)"
| user: "kernel_step k (k\<lparr>k_mem := m\<rparr>)"

definition kernel_boot :: "kernel \<Rightarrow> bool" where
  "kernel_boot k \<longleftrightarrow> vfs_boot (k_vfs k) \<and> g_heap_offset (k_heap k) = 0"

lemma kernel_step_inv: "kernel_step k k' \<Longrightarrow> kernel_inv k \<Longrightarrow> kernel_inv k'"
proof (induction rule: kernel_step.induct)
  case (call nr a0 a1 a2 k hw a3 a4 a5 r k')
  then show ?case using dispatch_safe by (simp add: safe_def)
next
  case (tick k now)
  then show ?case using inv_event [of k "Tick now"] by simp
qed (simp add: kernel_inv_def)

lemma kernel_boot_inv: "kernel_boot k \<Longrightarrow> kernel_inv k"
  by (simp add: kernel_boot_def kernel_inv_def heap_inv_def vfs_boot_inv)

interpretation kernel: state_machine kernel_boot kernel_step kernel_inv
  by unfold_locales (auto intro: kernel_boot_inv kernel_step_inv)


text \<open>Waiting does not remove the task it reports: the next wait reports the same one.\<close>

lemma wait4_keeps_tasks:
  assumes "sys_wait4 a0 a1 a2 a3 a4 a5 k = Some (Inr (r, k'))"
  shows "tasks k' = tasks k"
  using assms by (auto simp: sys_wait4_def ret_def put_user_def tasks_def Let_def split: option.splits if_splits)

definition sample_kernel :: kernel where
  "sample_kernel = \<lparr>k_vfs = sample_vfs, k_heap = empty_heap, k_sched = \<lparr>g_uptime_ticks = 0, g_memguard_boot_free_pages = 0,
     g_memguard_prev_free_pages = 0, g_memguard_critical_streak = 0\<rparr>, k_mem = (\<lambda>_. 0), k_irq = True, k_action = 0, k_io = []\<rparr>"

lemma sample_kernel_boot: "kernel_boot sample_kernel"
  using sample_vfs_boot by (simp add: kernel_boot_def sample_kernel_def empty_heap_def)


end
