(* ===== verification/Swap.thy ===== *)
theory Swap
  imports Console
begin

text \<open>
  Model of \<^verbatim>\<open>src/kernel/swap.c\<close>: the accounting of swap pages. \<^verbatim>\<open>swap_init\<close> also returns the console
  call it makes.
\<close>

record swap =
  g_swap_total_pages :: u64
  g_swap_used_pages :: u64
  g_swap_enabled :: bool

definition swap_init :: "u64 \<Rightarrow> swap \<times> con_call list" where
  "swap_init ram_total_pages =
     (let t1 = ram_total_pages div 4;
          t2 = (if t1 = 0 \<and> ram_total_pages > 0 then 1 else t1);
          t3 = (if t2 < 64 \<and> ram_total_pages \<ge> 64 then 64 else t2)
      in (\<lparr>g_swap_total_pages = t3, g_swap_used_pages = 0, g_swap_enabled = False\<rparr>,
          [Printf (''swap: initialized capacity=%u pages state=off'' @ [CHR 0x0A]) [vunsigned t3]]))"

definition swap_enable :: "u64 \<Rightarrow> swap \<Rightarrow> int \<times> swap" where
  "swap_enable total_pages s =
     (let s1 = (if total_pages \<noteq> 0 then s\<lparr>g_swap_total_pages := total_pages\<rparr> else s)
      in if g_swap_total_pages s1 = 0 then (-1, s1)
         else
           let s2 = (if g_swap_used_pages s1 > g_swap_total_pages s1
                     then s1\<lparr>g_swap_used_pages := g_swap_total_pages s1\<rparr> else s1)
           in (0, s2\<lparr>g_swap_enabled := True\<rparr>))"

definition swap_disable :: "swap \<Rightarrow> swap" where
  "swap_disable s = s\<lparr>g_swap_enabled := False, g_swap_used_pages := 0\<rparr>"

definition swap_is_enabled :: "swap \<Rightarrow> bool" where
  "swap_is_enabled s = g_swap_enabled s"

definition swap_set_used_pages :: "u64 \<Rightarrow> swap \<Rightarrow> int \<times> swap" where
  "swap_set_used_pages used_pages s =
     (if \<not> g_swap_enabled s then (-1, s)
      else if used_pages > g_swap_total_pages s then (-2, s)
      else (0, s\<lparr>g_swap_used_pages := used_pages\<rparr>))"

definition swap_total_pages :: "swap \<Rightarrow> u64" where
  "swap_total_pages s = g_swap_total_pages s"

definition swap_used_pages :: "swap \<Rightarrow> u64" where
  "swap_used_pages s = g_swap_used_pages s"

definition swap_free_pages :: "swap \<Rightarrow> u64" where
  "swap_free_pages s = g_swap_total_pages s - g_swap_used_pages s"

subsection \<open>Reachable states\<close>

inductive swap_step :: "swap \<Rightarrow> swap \<Rightarrow> bool" where
  enable: "swap_enable n s = (r, t) \<Longrightarrow> swap_step s t"
| disable: "swap_step s (swap_disable s)"
| set_used: "swap_set_used_pages n s = (r, t) \<Longrightarrow> swap_step s t"

definition swap_boot :: "swap \<Rightarrow> bool" where
  "swap_boot s \<longleftrightarrow> (\<exists>n. s = fst (swap_init n))"

definition swap_inv :: "swap \<Rightarrow> bool" where
  "swap_inv s \<longleftrightarrow> g_swap_used_pages s \<le> g_swap_total_pages s \<and>
     (\<not> g_swap_enabled s \<longrightarrow> g_swap_used_pages s = 0) \<and>
     (g_swap_enabled s \<longrightarrow> g_swap_total_pages s \<noteq> 0)"

lemma swap_enable_inv [invariants]:
  "swap_inv s \<Longrightarrow> swap_enable n s = (r, t) \<Longrightarrow> swap_inv t"
  by (auto simp: swap_inv_def swap_enable_def Let_def split: if_splits)

lemma swap_set_used_inv [invariants]:
  "swap_inv s \<Longrightarrow> swap_set_used_pages n s = (r, t) \<Longrightarrow> swap_inv t"
  by (auto simp: swap_inv_def swap_set_used_pages_def split: if_splits)

interpretation sw: state_machine swap_boot swap_step swap_inv
proof
  show "swap_inv s" if "swap_boot s" for s
    using that by (auto simp: swap_boot_def swap_init_def swap_inv_def Let_def)
next
  fix s t assume "swap_inv s" "swap_step s t"
  from this(2,1) show "swap_inv t"
  proof cases
    case disable
    then show ?thesis by (simp add: swap_inv_def swap_disable_def)
  qed (auto intro: swap_enable_inv swap_set_used_inv)
qed

subsection \<open>Properties\<close>

text \<open>
  In every reachable state of the swap accounting the used pages do not exceed the configured
  pages, so that the free pages computed by subtraction never wrap around and used and free add up
  to the total; swap that is off has no page in use.
\<close>

lemma swap_accounting:
  assumes "reach swap_boot swap_step s"
  shows "unat (swap_used_pages s) + unat (swap_free_pages s) = unat (swap_total_pages s) \<and>
    (\<not> swap_is_enabled s \<longrightarrow> swap_used_pages s = 0)"
  using sw.reach_inv [OF assms]
  by (auto simp: swap_inv_def swap_used_pages_def swap_free_pages_def swap_total_pages_def
      swap_is_enabled_def unat_sub word_le_nat_alt)

end
