(* ===== verification/Commands.thy ===== *)
theory Commands
  imports Syscall Swap Net
begin

text \<open>
  The monitor commands of \<^verbatim>\<open>src/cli/commands/builtin.c\<close>. The state \<open>system\<close> puts the components a command
  works on side by side. A command takes its argument vector (\<^verbatim>\<open>argc\<close> is its length) and returns like a
  system call: \<open>None\<close> if it does not come back properly, \<open>Inl\<close> if it stops the machine, otherwise its
  status and the new state. A command that waits for the network lets time pass: the timer ticks
  counted by the network model are ticks of the scheduler, performed when the network operation is
  over; characters typed meanwhile are not looked at before the command ends.
\<close>

record system =
  y_kernel :: kernel
  y_pmm :: pmm
  y_swap :: swap
  y_net :: net

record environment =
  x_hw :: hardware
  x_world :: world

type_synonym cmd_ret = "((power \<times> machine) + (int \<times> system)) option"
type_synonym command_fn = "environment \<Rightarrow> string list \<Rightarrow> system \<Rightarrow> cmd_ret"

definition con_of :: "system \<Rightarrow> console" where
  "con_of y = v_con (k_vfs (y_kernel y))"

definition set_con :: "console \<Rightarrow> system \<Rightarrow> system" where
  "set_con c y = y\<lparr>y_kernel := (y_kernel y)\<lparr>k_vfs := (k_vfs (y_kernel y))\<lparr>v_con := c\<rparr>\<rparr>\<rparr>"

definition finish_cmd :: "int \<Rightarrow> system \<Rightarrow> cmd_ret" where
  "finish_cmd r y = Some (Inr (r, y))"

text \<open>Print, then return a status.\<close>

definition reply :: "int \<Rightarrow> con_call list \<Rightarrow> system \<Rightarrow> cmd_ret" where
  "reply r cs y = (case run_log cs (con_of y) of None \<Rightarrow> None | Some c \<Rightarrow> finish_cmd r (set_con c y))"

definition then_cmd :: "cmd_ret \<Rightarrow> (int \<Rightarrow> system \<Rightarrow> cmd_ret) \<Rightarrow> cmd_ret" where
  "then_cmd m f = (case m of None \<Rightarrow> None | Some (Inl stop) \<Rightarrow> Some (Inl stop) | Some (Inr (r, y)) \<Rightarrow> f r y)"

subsection \<open>Time\<close>

fun elapse :: "(nat \<Rightarrow> u8) \<Rightarrow> pmm \<Rightarrow> nat \<Rightarrow> sched \<times> machine \<Rightarrow> (power \<times> machine) + (sched \<times> machine)" where
  "elapse status p 0 sm = Inr sm"
| "elapse status p (Suc n) sm =
     (case scheduler_tick status p sm of Inl stop \<Rightarrow> Inl stop | Inr sm1 \<Rightarrow> elapse status p n sm1)"

definition of_machine :: "machine \<Rightarrow> kernel \<Rightarrow> kernel" where
  "of_machine m k = (set_tasks (m_tasks m) k)\<lparr>k_irq := m_irq m, k_action := m_action m, k_io := m_io m\<rparr>"

definition pass_ticks :: "hardware \<Rightarrow> nat \<Rightarrow> system \<Rightarrow> cmd_ret" where
  "pass_ticks hw n y =
     (case elapse (h_status hw) (y_pmm y) n (k_sched (y_kernel y), machine_of (y_kernel y)) of
        Inl stop \<Rightarrow> Some (Inl stop)
      | Inr (s, m) \<Rightarrow> reply 0 (m_log m) (y\<lparr>y_kernel := (of_machine m (y_kernel y))\<lparr>k_sched := s\<rparr>\<rparr>))"

definition net_cmd :: "environment \<Rightarrow> (world \<Rightarrow> net \<Rightarrow> (int \<times> net) option) \<Rightarrow> system \<Rightarrow> cmd_ret" where
  "net_cmd x f y =
     (case f (x_world x) ((y_net y)\<lparr>w_log := []\<rparr>) of
        None \<Rightarrow> None
      | Some (r, s) \<Rightarrow>
          then_cmd (reply r (w_log s) (y\<lparr>y_net := s\<rparr>))
            (\<lambda>r y1. then_cmd (pass_ticks (x_hw x) (unat (w_ticks s - w_ticks (y_net y))) y1) (\<lambda>_ y2. finish_cmd r y2)))"

subsection \<open>Helpers\<close>

text \<open>The digits so far; characters compare as signed bytes, so everything from 128 on is rejected.\<close>

fun parse_digits :: "string \<Rightarrow> u64 \<Rightarrow> u64 option" where
  "parse_digits [] v = Some v"
| "parse_digits (c # p) v =
     (if c = NUL then Some v
      else if (of_char c :: nat) < 48 \<or> (of_char c :: nat) > 57 then None
      else parse_digits p (v * 10 + of_nat (of_char c - 48)))"

definition parse_u32 :: "string \<Rightarrow> u64 option" where
  "parse_u32 s = (if char_at s = NUL then None else parse_digits s 0)"

definition nl :: string where "nl = [CHR 0x0A]"

definition print_mem_line :: "string \<Rightarrow> u64 \<Rightarrow> con_call" where
  "print_mem_line label pages =
     (let kib = pages * 4; mib_whole = kib div 1024; mib_frac = (kib mod 1024) * 100 div 1024
      in Printf (''%s: %u pages (%u KiB, %u.%u MiB)'' @ nl)
           [VStr (Some label), vunsigned pages, vunsigned kib, vunsigned mib_whole, vunsigned mib_frac])"

definition on_off :: "bool \<Rightarrow> varg" where
  "on_off b = VStr (Some (if b then ''on'' else ''off''))"

subsection \<open>Commands\<close>

text \<open>Names and help texts of \<^verbatim>\<open>k_commands\<close>.\<close>

definition command_texts :: "(string \<times> string) list" where
  "command_texts =
     [(''help'', ''list built-in monitor commands''), (''clear'', ''clear VGA/serial console''), (''echo'', ''echo arguments''),
      (''sysinfo'', ''show scheduler uptime''), (''tasks'', ''show current task table''), (''fsls'', ''list root tmpfs entries''),
      (''meminfo'', ''show physical memory and swap usage''), (''swap'', ''manage swap: status|on [pages]|off|use <pages>''),
      (''eth'', ''show detected ethernet controllers''), (''nearby'', ''scan and show live network status''),
      (''connect'', ''bring up net0: connect <net0|default|up>''), (''ping'', ''ping <ipv4> [count]''),
      (''mgctl'', ''system utility: net/power status and control''), (''shutdown'', ''halt the machine''),
      (''reboot'', ''reboot the machine'')]"

definition cmd_help :: command_fn where
  "cmd_help x argv y =
     reply 0 (map (\<lambda>(n, h). Printf (''%s - %s'' @ nl) [VStr (Some n), VStr (Some h)]) command_texts) y"

definition cmd_clear :: command_fn where
  "cmd_clear x argv y = finish_cmd 0 (set_con (console_clear (con_of y)) y)"

fun echo_args :: "string list \<Rightarrow> console \<Rightarrow> console option" where
  "echo_args [] c = Some c"
| "echo_args [a] c = console_write a [] c"
| "echo_args (a # b # as) c =
     (case console_write a [] c of None \<Rightarrow> None | Some c1 \<Rightarrow> echo_args (b # as) (console_putc CHR '' '' c1))"

definition cmd_echo :: command_fn where
  "cmd_echo x argv y =
     (case echo_args (tl argv) (con_of y) of
        None \<Rightarrow> None
      | Some c \<Rightarrow> finish_cmd 0 (set_con (console_putc CHR 0x0A c) y))"

definition cmd_sysinfo :: command_fn where
  "cmd_sysinfo x argv y = reply 0 (scheduler_dump (k_sched (y_kernel y))) y"

definition cmd_tasks :: command_fn where
  "cmd_tasks x argv y = reply 0 (task_dump (tasks (y_kernel y))) y"

definition cmd_fsls :: command_fn where
  "cmd_fsls x argv y = (case fs_dump_root (k_vfs (y_kernel y)) of None \<Rightarrow> None | Some cs \<Rightarrow> reply 0 cs y)"

definition cmd_meminfo :: command_fn where
  "cmd_meminfo x argv y =
     reply 0 [Writeln ''memory overview:'' [],
       print_mem_line ''  ram.total'' (pmm_total_pages (y_pmm y)),
       print_mem_line ''  ram.used '' (pmm_used_pages (y_pmm y)),
       print_mem_line ''  ram.free '' (pmm_free_pages (y_pmm y)),
       Printf (''  swap.state: %s'' @ nl) [on_off (swap_is_enabled (y_swap y))],
       print_mem_line ''  swap.total'' (swap_total_pages (y_swap y)),
       print_mem_line ''  swap.used '' (swap_used_pages (y_swap y)),
       print_mem_line ''  swap.free '' (swap_free_pages (y_swap y))] y"

definition swap_print_usage :: con_call where
  "swap_print_usage = Writeln ''usage: swap status | on [pages] | off | use <pages>'' []"

definition cmd_swap :: command_fn where
  "cmd_swap x argv y =
     (let s = y_swap y
      in if length argv < 2 then reply (-1) [swap_print_usage] y
         else if kstrcmp (argv ! 1) ''status'' = 0 then
           reply 0 [Printf (''swap: state=%s total=%u used=%u free=%u pages'' @ nl)
             [on_off (swap_is_enabled s), vunsigned (swap_total_pages s), vunsigned (swap_used_pages s), vunsigned (swap_free_pages s)]] y
         else if kstrcmp (argv ! 1) ''on'' = 0 then
           (case (if length argv \<ge> 3 then parse_u32 (argv ! 2) else Some 0) of
              None \<Rightarrow> reply (-1) [Writeln ''swap: invalid page count'' []] y
            | Some pages \<Rightarrow>
                (case swap_enable pages s of (rc, s1) \<Rightarrow>
                   if rc \<noteq> 0 then reply (-1) [Writeln ''swap: enable failed (set pages > 0)'' []] (y\<lparr>y_swap := s1\<rparr>)
                   else reply 0 [Printf (''swap: enabled total=%u pages'' @ nl) [vunsigned (swap_total_pages s1)]] (y\<lparr>y_swap := s1\<rparr>)))
         else if kstrcmp (argv ! 1) ''off'' = 0 then
           reply 0 [Writeln ''swap: disabled'' []] (y\<lparr>y_swap := swap_disable s\<rparr>)
         else if kstrcmp (argv ! 1) ''use'' = 0 then
           (case (if length argv < 3 then None else parse_u32 (argv ! 2)) of
              None \<Rightarrow> reply (-1) [Writeln ''swap: invalid page count'' []] y
            | Some pages \<Rightarrow>
                (case swap_set_used_pages pages s of (rc, s1) \<Rightarrow>
                   if rc = -1 then reply (-1) [Writeln ''swap: currently off (use 'swap on' first)'' []] (y\<lparr>y_swap := s1\<rparr>)
                   else if rc = -2 then reply (-1) [Writeln ''swap: usage exceeds configured capacity'' []] (y\<lparr>y_swap := s1\<rparr>)
                   else reply 0 [Printf (''swap: used=%u free=%u pages'' @ nl)
                          [vunsigned (swap_used_pages s1), vunsigned (swap_free_pages s1)]] (y\<lparr>y_swap := s1\<rparr>)))
         else reply (-1) [swap_print_usage] y)"

definition cmd_eth :: command_fn where
  "cmd_eth x argv y = reply 0 (net_dump_adapters (y_net y)) y"

definition cmd_nearby :: command_fn where
  "cmd_nearby x argv y =
     then_cmd (net_cmd x (\<lambda>w s. map_option (Pair 0) (net_scan_nearby w s)) y) (\<lambda>_ y1. reply 0 (net_dump_nearby (y_net y1)) y1)"

definition cmd_connect :: command_fn where
  "cmd_connect x argv y =
     (if length argv < 2 then reply (-1) [Writeln ''usage: connect <net0|default|up>'' []] y
      else then_cmd (net_cmd x (\<lambda>w. net_connect_target w (Some (argv ! 1))) y) (\<lambda>rc y1.
        if rc = -2 then reply (-1) [Writeln ''connect: no ethernet adapter detected'' []] y1
        else if rc = -3 then reply (-1) [Writeln ''connect: gateway unresolved, run 'mgctl net scan' and retry'' []] y1
        else if rc = -4 then reply (-1) [Writeln ''connect: invalid target (use net0/default/up)'' []] y1
        else if rc \<noteq> 0 then reply (-1) [Writeln ''connect: invalid target'' []] y1
        else reply 0 [Printf (''connect: connected to %s'' @ nl) [VStr (net_connected_name (y_net y1))]] y1))"

definition cmd_ping :: command_fn where
  "cmd_ping x argv y =
     (if length argv < 2 then reply (-1) [Writeln ''usage: ping <target> [count]'' []] y
      else case (if length argv \<ge> 3 then parse_u32 (argv ! 2) else Some 4) of
        None \<Rightarrow> reply (-1) [Writeln ''ping: invalid count'' []] y
      | Some count \<Rightarrow> net_cmd x (\<lambda>w. net_ping w (Some (argv ! 1)) count) y)"

definition mgctl_usage :: "con_call list" where
  "mgctl_usage =
     [Writeln ''mgctl usage:'' [], Writeln ''  mgctl status'' [],
      Writeln ''  mgctl net tools|adapters|scan|nearby|connect <net0|default|up>'' [],
      Writeln ''  mgctl power shutdown|reboot'' [],
      Writeln ''  mgctl power safe status|reboot|shutdown'' []]"

definition policy_name :: "system \<Rightarrow> varg" where
  "policy_name y =
     VStr (Some (if safeboot_get_action (machine_of (y_kernel y)) = SAFEBOOT_ACTION_SHUTDOWN then ''shutdown'' else ''reboot''))"

definition set_policy :: "int \<Rightarrow> system \<Rightarrow> system" where
  "set_policy a y = y\<lparr>y_kernel := of_machine (safeboot_set_action a (machine_of (y_kernel y))) (y_kernel y)\<rparr>"

text \<open>Stopping the machine after a last message.\<close>

definition stop_after :: "con_call \<Rightarrow> (machine \<Rightarrow> power \<times> machine) \<Rightarrow> system \<Rightarrow> cmd_ret" where
  "stop_after c f y = Some (Inl (f (say [c] (machine_of (y_kernel y)))))"

definition mgctl_net :: command_fn where
  "mgctl_net x argv y =
     (if length argv < 3 then reply (-1) mgctl_usage y
      else if kstrcmp (argv ! 2) ''tools'' = 0 then reply 0 net_dump_driver_tools y
      else if kstrcmp (argv ! 2) ''adapters'' = 0 then reply 0 (net_dump_adapters (y_net y)) y
      else if kstrcmp (argv ! 2) ''scan'' = 0 then cmd_nearby x argv y
      else if kstrcmp (argv ! 2) ''nearby'' = 0 then reply 0 (net_dump_nearby (y_net y)) y
      else if kstrcmp (argv ! 2) ''connect'' = 0 then
        (if length argv < 4 then reply (-1) [Writeln ''mgctl net connect: target required (net0/default/up)'' []] y
         else cmd_connect x [argv ! 2, argv ! 3] y)
      else reply (-1) mgctl_usage y)"

definition mgctl_power :: command_fn where
  "mgctl_power x argv y =
     (if length argv < 3 then reply (-1) mgctl_usage y
      else if kstrcmp (argv ! 2) ''safe'' = 0 then
        (if length argv < 4 then reply (-1) mgctl_usage y
         else if kstrcmp (argv ! 3) ''status'' = 0 then reply 0 [Printf (''mgctl: safe boot policy=%s'' @ nl) [policy_name y]] y
         else if kstrcmp (argv ! 3) ''reboot'' = 0 then
           reply 0 [Writeln ''mgctl: safe boot policy set to reboot'' []] (set_policy SAFEBOOT_ACTION_REBOOT y)
         else if kstrcmp (argv ! 3) ''shutdown'' = 0 then
           reply 0 [Writeln ''mgctl: safe boot policy set to shutdown'' []] (set_policy SAFEBOOT_ACTION_SHUTDOWN y)
         else reply (-1) mgctl_usage y)
      else if kstrcmp (argv ! 2) ''shutdown'' = 0 then stop_after (Writeln ''mgctl: shutdown requested'' []) kernel_halt y
      else if kstrcmp (argv ! 2) ''reboot'' = 0 then
        stop_after (Writeln ''mgctl: reboot requested'' []) (kernel_reboot (h_status (x_hw x))) y
      else reply (-1) mgctl_usage y)"

definition cmd_mgctl :: command_fn where
  "cmd_mgctl x argv y =
     (if length argv < 2 then reply (-1) mgctl_usage y
      else if kstrcmp (argv ! 1) ''status'' = 0 then
        reply 0 [Printf (''mgctl: adapters=%u connected=%s safeboot=%s'' @ nl)
          [vunsigned (of_nat (net_adapter_count (y_net y))),
           VStr (Some (case net_connected_name (y_net y) of Some n \<Rightarrow> n | None \<Rightarrow> ''none'')), policy_name y]] y
      else if kstrcmp (argv ! 1) ''net'' = 0 then mgctl_net x argv y
      else if kstrcmp (argv ! 1) ''power'' = 0 then mgctl_power x argv y
      else reply (-1) mgctl_usage y)"

definition cmd_shutdown :: command_fn where
  "cmd_shutdown x argv y = stop_after (Writeln ''shutdown: powering down (halt)'' []) kernel_halt y"

definition cmd_reboot :: command_fn where
  "cmd_reboot x argv y = stop_after (Writeln ''reboot: restarting system'' []) (kernel_reboot (h_status (x_hw x))) y"

definition k_commands :: "(string \<times> command_fn) list" where
  "k_commands =
     zip (map fst command_texts)
       [cmd_help, cmd_clear, cmd_echo, cmd_sysinfo, cmd_tasks, cmd_fsls, cmd_meminfo, cmd_swap, cmd_eth, cmd_nearby,
        cmd_connect, cmd_ping, cmd_mgctl, cmd_shutdown, cmd_reboot]"

end
