(* ===== verification/Shell.thy ===== *)
theory Shell
  imports Commands
begin

text \<open>
  The monitor of \<^verbatim>\<open>src/cli/shell.c\<close>: the line editor, the tokenizer and the dispatch of commands. The
  loop of \<^verbatim>\<open>cli_run\<close> never ends; its body is \<open>cli_poll\<close>, which reads one character and hands it to
  \<open>cli_input\<close>. A store outside of an array is \<open>None\<close>. The properties: the editor on the arrays refines
  an editor on a pair of texts, before and after the cursor; the tokenizer yields the words of the
  line.
\<close>

definition CLI_MAX_LINE :: nat where "CLI_MAX_LINE = 128"
definition CLI_MAX_ARGS :: nat where "CLI_MAX_ARGS = 16"

definition KEY_CTRL_A :: char where "KEY_CTRL_A = CHR 0x01"
definition KEY_CTRL_B :: char where "KEY_CTRL_B = CHR 0x02"
definition KEY_CTRL_C :: char where "KEY_CTRL_C = CHR 0x03"
definition KEY_CTRL_E :: char where "KEY_CTRL_E = CHR 0x05"
definition KEY_CTRL_F :: char where "KEY_CTRL_F = CHR 0x06"
definition KEY_CTRL_N :: char where "KEY_CTRL_N = CHR 0x0E"
definition KEY_CTRL_P :: char where "KEY_CTRL_P = CHR 0x10"
definition KEY_ESC :: char where "KEY_ESC = CHR 0x1B"

lemmas key_defs = KEY_CTRL_A_def KEY_CTRL_B_def KEY_CTRL_C_def KEY_CTRL_E_def KEY_CTRL_F_def KEY_CTRL_N_def
  KEY_CTRL_P_def KEY_ESC_def

record cli =
  g_line :: "char list"
  g_last_line :: "char list"
  g_has_last_line :: bool
  c_length :: nat
  c_cursor :: nat
  c_esc :: nat

subsection \<open>Output\<close>

definition print_prompt :: "console \<Rightarrow> console option" where
  "print_prompt c =
     (case console_write ''[mgcore-x86_64]'' [] (console_set_color_hex 0x57D6FF 0 c) of
        None \<Rightarrow> None
      | Some c1 \<Rightarrow> map_option console_reset_color (console_write ''_# '' [] (console_set_color_hex 0xFFD166 0 c1)))"

definition render_line :: "cli \<Rightarrow> console \<Rightarrow> console option" where
  "render_line s c =
     (case print_prompt (console_putc CHR 0x0D c) of
        None \<Rightarrow> None
      | Some c1 \<Rightarrow>
          let c2 = console_putc CHR 0x0D (console_putc CHR '' '' (console_write_n (take (c_length s) (g_line s)) c1))
          in map_option (console_write_n (take (c_cursor s) (g_line s))) (print_prompt c2))"

definition cli_init :: "console \<Rightarrow> console option" where
  "cli_init c =
     (let ln = (\<lambda>t r. Option.bind r (console_writeln t [])); col = (\<lambda>h r. map_option (console_set_color_hex h 0) r);
          bs = [CHR 0x5C];
          r1 = ln [] (col 0xFFFFFF (Some c));
          r2 = ln ''           _______       ___________________________________'' (col 0x6EE7B7 r1);
          r3 = ln ''         |  _   _l      Telegram    : t.me/xigmachat''
                 (ln ''          /  >    f     Github      : github.com/magercode'' (col 0xFDE68A r2));
          r4 = fold ln [''        /` m__x_/'', ''       /         |'', ''      /   /     /'', ''     |    | |  |'', ''  /~~~|    | |  |'',
                 ''  | (~~'' @ bs @ ''___'' @ bs @ ''_)__)'', ''  '' @ bs @ ''___/'', []] (col 0x93C5FD r3);
          r5 = Option.bind (col 0x57D6FF r4) (console_write ''{} {}'' [VStr (Some ''MGCore''), VStr (Some ''x86_64'')])
      in map_option console_reset_color (ln [] (map_option (console_putc CHR 0x0A) r5)))"

subsection \<open>Dispatch\<close>

definition blank :: "char \<Rightarrow> bool" where
  "blank c \<longleftrightarrow> c = CHR '' '' \<or> c = CHR 0x09"

text \<open>
  The loop over the rest of the line: the words found, and the rest of the line with the character
  after each word overwritten by a terminator.
\<close>

function tokenize :: "nat \<Rightarrow> string \<Rightarrow> string list \<times> string" where
  "tokenize argc s =
     (if char_at s = NUL \<or> \<not> argc < CLI_MAX_ARGS then ([], s)
      else
        let sp = takeWhile blank s; s1 = dropWhile blank s
        in if char_at s1 = NUL then ([], s)
           else
             let w = takeWhile (\<lambda>c. c \<noteq> NUL \<and> \<not> blank c) s1; rest = dropWhile (\<lambda>c. c \<noteq> NUL \<and> \<not> blank c) s1
             in if char_at rest \<noteq> NUL then
                  (case tokenize (Suc argc) (tl rest) of (ws, r) \<Rightarrow> (w # ws, sp @ w @ NUL # r))
                else ([w], s))"
  by pat_completeness auto
termination
  by (relation "measure (\<lambda>(argc, s). CLI_MAX_ARGS - argc)") auto

declare tokenize.simps [simp del]

definition dispatch_line :: "environment \<Rightarrow> string \<Rightarrow> system \<Rightarrow> string \<times> cmd_ret" where
  "dispatch_line x line y =
     (case tokenize 0 line of (argv, line') \<Rightarrow>
        (line',
         if argv = [] then finish_cmd 0 y
         else case find (\<lambda>(n, f). kstrcmp n (argv ! 0) = 0) k_commands of
                Some (_, f) \<Rightarrow> f x argv y
              | None \<Rightarrow> reply (-1) [Printf (''unknown command: %s'' @ nl) [VStr (Some (argv ! 0))]] y))"

subsection \<open>The editor\<close>

type_synonym cli_ret = "((power \<times> machine) + (cli \<times> system)) option"

definition poke :: "nat \<Rightarrow> char \<Rightarrow> char list \<Rightarrow> char list option" where
  "poke i c xs = (if i < length xs then Some (xs[i := c]) else None)"

definition keep :: "cli \<Rightarrow> system \<Rightarrow> cli_ret" where
  "keep s y = Some (Inr (s, y))"

definition redraw :: "cli \<Rightarrow> system \<Rightarrow> cli_ret" where
  "redraw s y = (case render_line s (con_of y) of None \<Rightarrow> None | Some c \<Rightarrow> keep s (set_con c y))"

definition cleared :: "cli \<Rightarrow> cli option" where
  "cleared s = map_option (\<lambda>l. s\<lparr>g_line := l, c_length := 0, c_cursor := 0\<rparr>) (poke 0 NUL (g_line s))"

definition prompt_after :: "cli \<Rightarrow> system \<Rightarrow> cli_ret" where
  "prompt_after s y =
     (case cleared s of
        None \<Rightarrow> None
      | Some s1 \<Rightarrow> (case print_prompt (con_of y) of None \<Rightarrow> None | Some c \<Rightarrow> keep s1 (set_con c y)))"

definition clear_redraw :: "cli \<Rightarrow> system \<Rightarrow> cli_ret" where
  "clear_redraw s y = (case cleared s of None \<Rightarrow> None | Some s1 \<Rightarrow> redraw s1 y)"

text \<open>Copying a line into an array of the same size: at most 127 characters, then a terminator.\<close>

definition copy_line :: "char list \<Rightarrow> string \<Rightarrow> char list option" where
  "copy_line dst src =
     (case kstrncpy dst src (CLI_MAX_LINE - 1) of None \<Rightarrow> None | Some d \<Rightarrow> poke (CLI_MAX_LINE - 1) NUL d)"

definition enter :: "environment \<Rightarrow> cli \<Rightarrow> system \<Rightarrow> cli_ret" where
  "enter x s y =
     (case poke (c_length s) NUL (g_line s) of
        None \<Rightarrow> None
      | Some l \<Rightarrow>
          (case dispatch_line x l (set_con (console_putc CHR 0x0A (con_of y)) y) of (l1, res) \<Rightarrow>
             (case res of
                None \<Rightarrow> None
              | Some (Inl stop) \<Rightarrow> Some (Inl stop)
              | Some (Inr (r, y1)) \<Rightarrow>
                  (if c_length s > 0 then
                     (case copy_line (g_last_line s) l1 of
                        None \<Rightarrow> None
                      | Some h \<Rightarrow> prompt_after (s\<lparr>g_line := l1, g_last_line := h, g_has_last_line := True\<rparr>) y1)
                   else prompt_after (s\<lparr>g_line := l1\<rparr>) y1))))"

definition recall_line :: "cli \<Rightarrow> system \<Rightarrow> cli_ret" where
  "recall_line s y =
     (if g_has_last_line s then
        (case copy_line (g_line s) (g_last_line s) of
           None \<Rightarrow> None
         | Some l \<Rightarrow> redraw (s\<lparr>g_line := l, c_length := kstrlen l, c_cursor := kstrlen l\<rparr>) y)
      else keep s y)"

text \<open>The loop that closes the gap of a deleted character, and the one that opens a gap.\<close>

fun shift_down :: "nat \<Rightarrow> nat \<Rightarrow> char list \<Rightarrow> char list option" where
  "shift_down i 0 xs = Some xs"
| "shift_down i (Suc n) xs =
     (if Suc i < length xs then shift_down (Suc i) n (xs[i := xs ! Suc i]) else None)"

fun shift_up :: "nat \<Rightarrow> nat \<Rightarrow> char list \<Rightarrow> char list option" where
  "shift_up i 0 xs = Some xs"
| "shift_up i (Suc n) xs = (if i < length xs \<and> 0 < i then shift_up (i - 1) n (xs[i := xs ! (i - 1)]) else None)"

definition erase :: "cli \<Rightarrow> system \<Rightarrow> cli_ret" where
  "erase s y =
     (if c_cursor s = 0 then keep s y
      else case shift_down (c_cursor s - 1) (c_length s - c_cursor s) (g_line s) of
        None \<Rightarrow> None
      | Some l \<Rightarrow>
          (case poke (c_length s - 1) NUL l of
             None \<Rightarrow> None
           | Some l1 \<Rightarrow> redraw (s\<lparr>g_line := l1, c_length := c_length s - 1, c_cursor := c_cursor s - 1\<rparr>) y))"

definition insert_char :: "char \<Rightarrow> cli \<Rightarrow> system \<Rightarrow> cli_ret" where
  "insert_char c s y =
     (if c_length s + 1 < CLI_MAX_LINE then
        (case shift_up (c_length s) (c_length s - c_cursor s) (g_line s) of
           None \<Rightarrow> None
         | Some l \<Rightarrow>
             (case Option.bind (poke (c_cursor s) c l) (poke (c_length s + 1) NUL) of
                None \<Rightarrow> None
              | Some l1 \<Rightarrow> redraw (s\<lparr>g_line := l1, c_length := c_length s + 1, c_cursor := c_cursor s + 1\<rparr>) y))
      else keep s y)"

text \<open>An arrow key arrives as an escape sequence.\<close>

definition decode_arrow :: "char \<Rightarrow> char" where
  "decode_arrow c =
     (if c = CHR ''A'' then KEY_CTRL_P else if c = CHR ''B'' then KEY_CTRL_N
      else if c = CHR ''C'' then KEY_CTRL_F else if c = CHR ''D'' then KEY_CTRL_B else c)"

definition cli_key :: "environment \<Rightarrow> char \<Rightarrow> cli \<Rightarrow> system \<Rightarrow> cli_ret" where
  "cli_key x c s y =
     (if c = CHR 0x0D then keep s y
      else if c = KEY_ESC then keep (s\<lparr>c_esc := 1\<rparr>) y
      else if c = CHR 0x0A then enter x s y
      else if c = KEY_CTRL_C then
        (case console_write (''^C'' @ [CHR 0x0A]) [] (con_of y) of None \<Rightarrow> None | Some d \<Rightarrow> prompt_after s (set_con d y))
      else if c = KEY_CTRL_A then redraw (s\<lparr>c_cursor := 0\<rparr>) y
      else if c = KEY_CTRL_E then redraw (s\<lparr>c_cursor := c_length s\<rparr>) y
      else if c = KEY_CTRL_B then (if c_cursor s > 0 then redraw (s\<lparr>c_cursor := c_cursor s - 1\<rparr>) y else keep s y)
      else if c = KEY_CTRL_F then (if c_cursor s < c_length s then redraw (s\<lparr>c_cursor := c_cursor s + 1\<rparr>) y else keep s y)
      else if c = KEY_CTRL_P then recall_line s y
      else if c = KEY_CTRL_N then clear_redraw s y
      else if (c = CHR 0x08 \<or> c = CHR 0x7F) \<and> c_length s > 0 then erase s y
      else insert_char c s y)"

definition cli_input :: "environment \<Rightarrow> char \<Rightarrow> cli \<Rightarrow> system \<Rightarrow> cli_ret" where
  "cli_input x c s y =
     (if c_esc s = 1 then
        (if c = CHR ''['' then keep (s\<lparr>c_esc := 2\<rparr>) y
         else map_option (map_sum (\<lambda>p. p) (\<lambda>(s1, y1). (s1\<lparr>c_esc := 0\<rparr>, y1))) (clear_redraw s y))
      else if c_esc s = 2 then cli_key x (decode_arrow c) (s\<lparr>c_esc := 0\<rparr>) y
      else cli_key x c s y)"

text \<open>One turn of the loop: \<open>rx\<close> is what the serial line has received.\<close>

definition cli_poll :: "environment \<Rightarrow> char option \<Rightarrow> cli \<Rightarrow> system \<Rightarrow> cli_ret" where
  "cli_poll x rx s y =
     (case console_try_read_char rx (con_of y) of
        (None, c) \<Rightarrow> keep s (set_con c y)
      | (Some ch, c) \<Rightarrow> cli_input x ch s (set_con c y))"

subsection \<open>Lemmas on arrays\<close>

lemma shift_down_nth:
  "i + n < length xs \<Longrightarrow> \<exists>ys. shift_down i n xs = Some ys \<and> length ys = length xs \<and>
     (\<forall>k < length xs. ys ! k = (if i \<le> k \<and> k < i + n then xs ! Suc k else xs ! k))"
proof (induction n arbitrary: i xs)
  case (Suc n)
  obtain ys where y: "shift_down (Suc i) n (xs[i := xs ! Suc i]) = Some ys" "length ys = length xs"
    "\<forall>k < length xs. ys ! k = (if Suc i \<le> k \<and> k < Suc i + n then xs[i := xs ! Suc i] ! Suc k else xs[i := xs ! Suc i] ! k)"
    using Suc.IH [of "Suc i" "xs[i := xs ! Suc i]"] Suc.prems by auto
  have "ys ! k = (if i \<le> k \<and> k < i + Suc n then xs ! Suc k else xs ! k)" if "k < length xs" for k
    using y(3) that by (cases "k = i") auto
  then show ?case using y(1,2) Suc.prems by simp
qed auto

lemma shift_up_nth:
  "i < length xs \<Longrightarrow> n \<le> i \<Longrightarrow> \<exists>ys. shift_up i n xs = Some ys \<and> length ys = length xs \<and>
     (\<forall>k < length xs. ys ! k = (if i - n < k \<and> k \<le> i then xs ! (k - 1) else xs ! k))"
proof (induction n arbitrary: i xs)
  case (Suc n)
  have i: "0 < i" "n \<le> i - 1" "i - 1 < length (xs[i := xs ! (i - 1)])" using Suc.prems by auto
  obtain ys where y: "shift_up (i - 1) n (xs[i := xs ! (i - 1)]) = Some ys" "length ys = length xs"
    "\<forall>k < length xs. ys ! k = (if i - 1 - n < k \<and> k \<le> i - 1 then xs[i := xs ! (i - 1)] ! (k - 1) else xs[i := xs ! (i - 1)] ! k)"
    using Suc.IH [OF i(3,2)] by auto
  have "ys ! k = (if i - Suc n < k \<and> k \<le> i then xs ! (k - 1) else xs ! k)" if "k < length xs" for k
    using y(3) that i(1,2) Suc.prems by (cases "k = i") auto
  then show ?case using y(1,2) Suc.prems by simp
qed auto

lemma copy_line_spec:
  assumes "length dst = CLI_MAX_LINE" and "length (cstr src) < CLI_MAX_LINE"
  obtains d where "copy_line dst src = Some d" "length d = CLI_MAX_LINE" "cstr d = cstr src" "d ! (CLI_MAX_LINE - 1) = NUL"
proof -
  let ?n = "length (cstr src)" and ?d = "cstr src @ replicate (CLI_MAX_LINE - length (cstr src)) NUL"
  have m: "CLI_MAX_LINE - 1 \<le> length dst" "?n \<le> CLI_MAX_LINE - 1" using assms by auto
  have t: "take (CLI_MAX_LINE - 1) (cstr src @ replicate (CLI_MAX_LINE - 1) NUL) = cstr src @ replicate (CLI_MAX_LINE - 1 - ?n) NUL"
    using m(2) by (simp add: min_def)
  have "copy_line dst src = Some ((cstr src @ replicate (CLI_MAX_LINE - 1 - ?n) NUL @ drop (CLI_MAX_LINE - 1) dst)[CLI_MAX_LINE - 1 := NUL])"
    using kstrncpy_eq [OF m(1), of src] assms t by (simp add: copy_line_def poke_def CLI_MAX_LINE_def)
  also have "(cstr src @ replicate (CLI_MAX_LINE - 1 - ?n) NUL @ drop (CLI_MAX_LINE - 1) dst)[CLI_MAX_LINE - 1 := NUL] = ?d"
    by (rule nth_equalityI) (use assms in \<open>auto simp: nth_append nth_list_update CLI_MAX_LINE_def\<close>)
  finally have c: "copy_line dst src = Some ?d" .
  have "cstr ?d = cstr src"
    using assms(2) cstr_append_NUL [of "cstr src" "replicate (CLI_MAX_LINE - 1 - ?n) NUL"]
    by (cases "CLI_MAX_LINE - ?n") auto
  moreover have "?d ! (CLI_MAX_LINE - 1) = NUL" using assms(2) m(2) by (simp add: nth_append CLI_MAX_LINE_def)
  moreover have "length ?d = CLI_MAX_LINE" using assms(2) by simp
  ultimately show thesis using that [OF c] by blast
qed

subsection \<open>The editor as a pair of texts\<close>

record editor =
  e_before :: string
  e_after :: string
  e_last :: "string option"
  e_esc :: nat

definition wipe :: "editor \<Rightarrow> editor" where
  "wipe e = e\<lparr>e_before := [], e_after := []\<rparr>"

text \<open>
  What the monitor remembers of a line: the blanks at its start and its first word, because the
  tokenizer has cut the line at the first blank after it.
\<close>

definition remembered :: "string \<Rightarrow> string" where
  "remembered l = takeWhile blank l @ takeWhile (\<lambda>c. \<not> blank c) (dropWhile blank l)"

definition edit_key :: "char \<Rightarrow> editor \<Rightarrow> editor" where
  "edit_key c e =
     (let line = e_before e @ e_after e
      in if c = CHR 0x0D then e
         else if c = KEY_ESC then e\<lparr>e_esc := 1\<rparr>
         else if c = CHR 0x0A then (wipe e)\<lparr>e_last := if line = [] then e_last e else Some (remembered line)\<rparr>
         else if c = KEY_CTRL_C then wipe e
         else if c = KEY_CTRL_A then e\<lparr>e_before := [], e_after := line\<rparr>
         else if c = KEY_CTRL_E then e\<lparr>e_before := line, e_after := []\<rparr>
         else if c = KEY_CTRL_B then
           (if e_before e = [] then e else e\<lparr>e_before := butlast (e_before e), e_after := last (e_before e) # e_after e\<rparr>)
         else if c = KEY_CTRL_F then
           (case e_after e of [] \<Rightarrow> e | a # as \<Rightarrow> e\<lparr>e_before := e_before e @ [a], e_after := as\<rparr>)
         else if c = KEY_CTRL_P then
           (case e_last e of None \<Rightarrow> e | Some l \<Rightarrow> e\<lparr>e_before := l, e_after := []\<rparr>)
         else if c = KEY_CTRL_N then wipe e
         else if (c = CHR 0x08 \<or> c = CHR 0x7F) \<and> line \<noteq> [] then e\<lparr>e_before := butlast (e_before e)\<rparr>
         else if length line < 127 then e\<lparr>e_before := e_before e @ [c]\<rparr>
         else e)"

definition edit :: "char \<Rightarrow> editor \<Rightarrow> editor" where
  "edit c e =
     (if e_esc e = 1 then (if c = CHR ''['' then e\<lparr>e_esc := 2\<rparr> else (wipe e)\<lparr>e_esc := 0\<rparr>)
      else if e_esc e = 2 then edit_key (decode_arrow c) (e\<lparr>e_esc := 0\<rparr>)
      else edit_key c e)"

definition cli_inv :: "cli \<Rightarrow> bool" where
  "cli_inv s \<longleftrightarrow> length (g_line s) = CLI_MAX_LINE \<and> length (g_last_line s) = CLI_MAX_LINE \<and> c_cursor s \<le> c_length s \<and>
     c_length s < CLI_MAX_LINE \<and> NUL \<notin> set (take (c_length s) (g_line s)) \<and> length (cstr (g_last_line s)) < CLI_MAX_LINE"

definition view :: "cli \<Rightarrow> editor" where
  "view s = \<lparr>e_before = take (c_cursor s) (g_line s), e_after = drop (c_cursor s) (take (c_length s) (g_line s)),
     e_last = (if g_has_last_line s then Some (cstr (g_last_line s)) else None), e_esc = c_esc s\<rparr>"

lemma view_line: "c_cursor s \<le> c_length s \<Longrightarrow> e_before (view s) @ e_after (view s) = take (c_length s) (g_line s)"
  by (simp add: view_def) (metis append_take_drop_id min.absorb1 take_take)

lemma view_update:
  "view (s\<lparr>g_line := l, c_length := m, c_cursor := n\<rparr>) = (view s)\<lparr>e_before := take n l, e_after := drop n (take m l)\<rparr>"
  by (simp add: view_def)

lemma view_length: "cli_inv s \<Longrightarrow> length (e_before (view s)) = c_cursor s \<and> length (e_after (view s)) = c_length s - c_cursor s"
  by (auto simp: view_def cli_inv_def)

subsection \<open>Output never fails\<close>

lemma braces_plain: "CHR ''{'' \<notin> set p \<Longrightarrow> \<exists>r. kvformat_braces_loop sz p args st = Some r"
proof (induction sz p args st rule: kvformat_braces_loop.induct)
  case (2 sz c p args st)
  then show ?case by (auto dest: in_set_dropD)
qed simp

lemma console_write_plain_ok: "CHR ''{'' \<notin> set p \<Longrightarrow> \<exists>c'. console_write p args c = Some c'"
  using braces_plain [of p 1024 args "(local_buffer 1024, 0)"]
  by (auto simp: console_write_def console_write_braces_v_def kvformat_braces_def split: option.split prod.split)

lemma print_prompt_ok: "\<exists>c'. print_prompt c = Some c'"
proof -
  obtain c1 where "console_write ''[mgcore-x86_64]'' [] (console_set_color_hex 0x57D6FF 0 c) = Some c1"
    using console_write_plain_ok [of "''[mgcore-x86_64]''"] by fastforce
  moreover obtain c2 where "console_write ''_# '' [] (console_set_color_hex 0xFFD166 0 c1) = Some c2"
    using console_write_plain_ok [of "''_# ''"] by fastforce
  ultimately show ?thesis by (simp add: print_prompt_def)
qed

lemma render_line_ok: "\<exists>c'. render_line s c = Some c'"
proof -
  obtain c1 where "print_prompt (console_putc CHR 0x0D c) = Some c1" using print_prompt_ok by blast
  moreover obtain c2 where "print_prompt (console_putc CHR 0x0D (console_putc CHR '' '' (console_write_n (take (c_length s) (g_line s)) c1))) = Some c2"
    using print_prompt_ok by blast
  ultimately show ?thesis by (simp add: render_line_def Let_def)
qed

lemma redraw_ok: "\<exists>y'. redraw s y = Some (Inr (s, y'))"
  using render_line_ok [of s "con_of y"] by (auto simp: redraw_def keep_def)

subsection \<open>Each key\<close>

text \<open>A key does its work when it comes back with the view the abstract editor has.\<close>

definition does :: "cli_ret \<Rightarrow> editor \<Rightarrow> bool" where
  "does res e \<longleftrightarrow> (\<exists>s y. res = Some (Inr (s, y)) \<and> cli_inv s \<and> view s = e)"

lemma does_keep: "cli_inv s \<Longrightarrow> view s = e \<Longrightarrow> does (keep s y) e"
  by (simp add: does_def keep_def)

lemma does_redraw: "cli_inv s \<Longrightarrow> view s = e \<Longrightarrow> does (redraw s y) e"
  using redraw_ok by (fastforce simp: does_def)

lemma cleared_ok:
  assumes "cli_inv s"
  obtains s1 where "cleared s = Some s1" "cli_inv s1" "view s1 = wipe (view s)"
proof
  show "cleared s = Some (s\<lparr>g_line := (g_line s)[0 := NUL], c_length := 0, c_cursor := 0\<rparr>)"
    using assms by (simp add: cleared_def poke_def cli_inv_def CLI_MAX_LINE_def)
qed (use assms in \<open>simp_all add: cli_inv_def view_def wipe_def\<close>)

lemma does_clear: "cli_inv s \<Longrightarrow> does (clear_redraw s y) (wipe (view s))"
  by (rule cleared_ok) (auto simp: clear_redraw_def intro: does_redraw)

lemma does_prompt: "cli_inv s \<Longrightarrow> does (prompt_after s y) (wipe (view s))"
  using print_prompt_ok [of "con_of y"] by (rule_tac cleared_ok [of s]) (auto simp: prompt_after_def intro: does_keep)

lemma cursor_moves:
  assumes "cli_inv s" and "k \<le> c_length s"
  shows "cli_inv (s\<lparr>c_cursor := k\<rparr>)"
    and "view (s\<lparr>c_cursor := k\<rparr>) = (view s)\<lparr>e_before := take k (g_line s), e_after := drop k (take (c_length s) (g_line s))\<rparr>"
  using assms by (simp_all add: cli_inv_def view_def)

lemma does_left:
  assumes "cli_inv s" and "c_cursor s > 0"
  shows "does (redraw (s\<lparr>c_cursor := c_cursor s - 1\<rparr>) y)
    ((view s)\<lparr>e_before := butlast (e_before (view s)), e_after := last (e_before (view s)) # e_after (view s)\<rparr>)"
proof (rule does_redraw)
  let ?n = "c_cursor s" and ?l = "g_line s"
  have b: "?n \<le> c_length s" "c_length s < length ?l" "?n - 1 \<le> c_length s" using assms(1) by (auto simp: cli_inv_def)
  show "cli_inv (s\<lparr>c_cursor := ?n - 1\<rparr>)" by (rule cursor_moves(1) [OF assms(1) b(3)])
  have "butlast (take ?n ?l) = take (?n - 1) ?l" using b by (simp add: butlast_take)
  moreover have "last (take ?n ?l) = ?l ! (?n - 1)" using b assms(2) by (subst last_conv_nth) (auto simp: min_def)
  moreover have "drop (?n - 1) (take (c_length s) ?l) = ?l ! (?n - 1) # drop ?n (take (c_length s) ?l)"
    using b assms(2) Cons_nth_drop_Suc [of "?n - 1" "take (c_length s) ?l"] by simp
  ultimately show "view (s\<lparr>c_cursor := ?n - 1\<rparr>) =
      (view s)\<lparr>e_before := butlast (e_before (view s)), e_after := last (e_before (view s)) # e_after (view s)\<rparr>"
    using cursor_moves(2) [OF assms(1) b(3)] by (simp add: view_def)
qed

lemma does_right:
  assumes "cli_inv s" and "c_cursor s < c_length s" and "e_after (view s) = a # as"
  shows "does (redraw (s\<lparr>c_cursor := c_cursor s + 1\<rparr>) y) ((view s)\<lparr>e_before := e_before (view s) @ [a], e_after := as\<rparr>)"
proof (rule does_redraw)
  let ?n = "c_cursor s" and ?l = "g_line s"
  have b: "c_length s < length ?l" "?n + 1 \<le> c_length s" using assms(1,2) by (auto simp: cli_inv_def)
  show "cli_inv (s\<lparr>c_cursor := ?n + 1\<rparr>)" by (rule cursor_moves(1) [OF assms(1) b(2)])
  have "drop ?n (take (c_length s) ?l) = ?l ! ?n # drop (?n + 1) (take (c_length s) ?l)"
    using b Cons_nth_drop_Suc [of ?n "take (c_length s) ?l"] by simp
  then have a: "a = ?l ! ?n" "as = drop (?n + 1) (take (c_length s) ?l)" using assms(3) by (simp_all add: view_def)
  moreover have "take (?n + 1) ?l = take ?n ?l @ [?l ! ?n]" using b by (simp add: take_Suc_conv_app_nth)
  ultimately show "view (s\<lparr>c_cursor := ?n + 1\<rparr>) = (view s)\<lparr>e_before := e_before (view s) @ [a], e_after := as\<rparr>"
    using cursor_moves(2) [OF assms(1) b(2)] by (simp add: view_def)
qed

lemma does_erase:
  assumes "cli_inv s" and "c_length s > 0"
  shows "does (erase s y) ((view s)\<lparr>e_before := butlast (e_before (view s))\<rparr>)"
proof (cases "c_cursor s = 0")
  case True
  then have "erase s y = keep s y" by (simp add: erase_def)
  moreover have "(view s)\<lparr>e_before := butlast (e_before (view s))\<rparr> = view s" using True by (simp add: view_def)
  ultimately show ?thesis using does_keep [OF assms(1), of "view s" y] by simp
next
  case False
  let ?n = "c_cursor s" and ?m = "c_length s" and ?l = "g_line s"
  have b: "?n \<le> ?m" "?m < length ?l" using assms(1) by (auto simp: cli_inv_def)
  obtain l where l: "shift_down (?n - 1) (?m - ?n) ?l = Some l" "length l = length ?l"
    "\<forall>k < length ?l. l ! k = (if ?n - 1 \<le> k \<and> k < ?n - 1 + (?m - ?n) then ?l ! Suc k else ?l ! k)"
  proof -
    have "?n - 1 + (?m - ?n) < length ?l" using b False by simp
    from shift_down_nth [OF this] show ?thesis using that by blast
  qed
  let ?s = "s\<lparr>g_line := l[?m - 1 := NUL], c_length := ?m - 1, c_cursor := ?n - 1\<rparr>"
  have "?m - 1 < length l" using b l(2) by linarith
  then have e: "erase s y = redraw ?s y" using l(1) False by (simp add: erase_def poke_def)
  have t1: "take (?n - 1) (l[?m - 1 := NUL]) = butlast (take ?n ?l)"
    by (rule nth_equalityI) (use b l(2,3) False in \<open>auto simp: nth_butlast\<close>)
  have t2: "drop (?n - 1) (take (?m - 1) (l[?m - 1 := NUL])) = drop ?n (take ?m ?l)"
    by (rule nth_equalityI) (use b l(2,3) False in auto)
  have t3: "take (?m - 1) (l[?m - 1 := NUL]) = butlast (take ?n ?l) @ drop ?n (take ?m ?l)"
    using t1 t2 b by (metis append_take_drop_id diff_le_mono min.absorb1 take_take)
  have "NUL \<notin> set (take ?m ?l)" using assms(1) by (simp add: cli_inv_def)
  moreover have "set (butlast (take ?n ?l)) \<subseteq> set (take ?m ?l)" using b(1) by (meson in_set_butlastD set_take_subset_set_take subset_iff)
  ultimately have "NUL \<notin> set (take (?m - 1) (l[?m - 1 := NUL]))" unfolding t3 by (auto dest: in_set_dropD)
  moreover have "?n - 1 \<le> ?m - 1" "?m - 1 < CLI_MAX_LINE" using assms(1) b by (auto simp: cli_inv_def)
  ultimately have inv: "cli_inv ?s" using assms(1) l(2) by (simp add: cli_inv_def)
  have "view ?s = (view s)\<lparr>e_before := butlast (e_before (view s))\<rparr>"
    unfolding view_update t1 t2 by (simp add: view_def)
  from does_redraw [OF inv this] show ?thesis unfolding e .
qed

lemma does_insert:
  assumes "cli_inv s" and "c \<noteq> NUL"
  shows "does (insert_char c s y) (if c_length s < 127 then (view s)\<lparr>e_before := e_before (view s) @ [c]\<rparr> else view s)"
proof (cases "c_length s < 127")
  case False
  then show ?thesis using does_keep [OF assms(1)] by (simp add: insert_char_def CLI_MAX_LINE_def)
next
  case True
  let ?n = "c_cursor s" and ?m = "c_length s" and ?l = "g_line s"
  have b: "?n \<le> ?m" "?m + 1 < length ?l" using assms(1) True by (auto simp: cli_inv_def CLI_MAX_LINE_def)
  obtain l where l: "shift_up ?m (?m - ?n) ?l = Some l" "length l = length ?l"
    "\<forall>k < length ?l. l ! k = (if ?m - (?m - ?n) < k \<and> k \<le> ?m then ?l ! (k - 1) else ?l ! k)"
    using shift_up_nth [of ?m ?l "?m - ?n"] b by auto
  let ?l' = "l[?n := c, ?m + 1 := NUL]"
  let ?s = "s\<lparr>g_line := ?l', c_length := ?m + 1, c_cursor := ?n + 1\<rparr>"
  have e: "insert_char c s y = redraw ?s y" using l(1,2) b True by (simp add: insert_char_def poke_def CLI_MAX_LINE_def)
  have t1: "take (?n + 1) ?l' = take ?n ?l @ [c]"
    by (rule nth_equalityI) (use b l(2,3) in \<open>auto simp: nth_append nth_list_update\<close>)
  have t2: "drop (?n + 1) (take (?m + 1) ?l') = drop ?n (take ?m ?l)"
    by (rule nth_equalityI) (use b l(2,3) in \<open>auto simp: nth_list_update\<close>)
  have t3: "take (?m + 1) ?l' = take ?n ?l @ c # drop ?n (take ?m ?l)"
    using t1 t2 b append_take_drop_id [of "?n + 1" "take (?m + 1) ?l'"] by (simp add: min_def)
  have "NUL \<notin> set (take ?m ?l)" using assms(1) by (simp add: cli_inv_def)
  moreover have "set (take ?n ?l) \<subseteq> set (take ?m ?l)" using b(1) by (rule set_take_subset_set_take)
  ultimately have "NUL \<notin> set (take (?m + 1) ?l')" unfolding t3 using assms(2) by (auto dest: in_set_dropD)
  then have inv: "cli_inv ?s" using assms(1) l(2) b by (simp add: cli_inv_def)
  have "view ?s = (view s)\<lparr>e_before := e_before (view s) @ [c]\<rparr>"
    unfolding view_update t1 t2 by (simp add: view_def)
  from does_redraw [OF inv this] show ?thesis unfolding e using True by simp
qed

lemma does_recall:
  assumes "cli_inv s"
  shows "does (recall_line s y) (case e_last (view s) of None \<Rightarrow> view s | Some l \<Rightarrow> (view s)\<lparr>e_before := l, e_after := []\<rparr>)"
proof (cases "g_has_last_line s")
  case False
  then show ?thesis using does_keep [OF assms] by (simp add: recall_line_def view_def)
next
  case True
  obtain l where l: "copy_line (g_line s) (g_last_line s) = Some l" "length l = CLI_MAX_LINE" "cstr l = cstr (g_last_line s)"
    by (rule copy_line_spec [of "g_line s" "g_last_line s"]) (use assms in \<open>simp_all add: cli_inv_def\<close>)
  let ?s = "s\<lparr>g_line := l, c_length := kstrlen l, c_cursor := kstrlen l\<rparr>"
  have n: "kstrlen l = length (cstr l)" by (induction l) auto
  have t: "take (kstrlen l) l = cstr l" unfolding n cstr_def by (metis takeWhile_eq_take)
  have inv: "cli_inv ?s" using assms l n t by (simp add: cli_inv_def)
  show ?thesis using does_redraw [OF inv refl] l(1,3) n True t by (simp add: recall_line_def view_def)
qed

subsection \<open>Words\<close>

text \<open>The words of a line: maximal runs of characters that are not blank.\<close>

function line_words :: "string \<Rightarrow> string list" where
  "line_words s =
     (let t = dropWhile blank s
      in if t = [] then [] else takeWhile (\<lambda>c. \<not> blank c) t # line_words (dropWhile (\<lambda>c. \<not> blank c) t))"
  by pat_completeness auto
termination
proof (relation "measure length", simp)
  fix s t assume t: "t = dropWhile blank s" "t \<noteq> []"
  have "\<not> blank (hd t)" using t by (simp add: hd_dropWhile)
  then have "length (dropWhile (\<lambda>c. \<not> blank c) t) < length t"
    using t(2) by (cases t) (auto simp: length_dropWhile_le less_Suc_eq_le)
  then show "(dropWhile (\<lambda>c. \<not> blank c) t, s) \<in> measure length" using length_dropWhile_le [of blank s] t(1) by simp
qed

declare line_words.simps [simp del]

lemma cut_at_NUL:
  assumes "NUL \<notin> set l"
  shows "char_at (l @ NUL # r) = NUL \<longleftrightarrow> l = []"
    and "takeWhile blank (l @ NUL # r) = takeWhile blank l" and "dropWhile blank (l @ NUL # r) = dropWhile blank l @ NUL # r"
    and "takeWhile (\<lambda>c. c \<noteq> NUL \<and> \<not> blank c) (l @ NUL # r) = takeWhile (\<lambda>c. \<not> blank c) l"
    and "dropWhile (\<lambda>c. c \<noteq> NUL \<and> \<not> blank c) (l @ NUL # r) = dropWhile (\<lambda>c. \<not> blank c) l @ NUL # r"
  using assms by (induction l) (auto simp: char_at_def blank_def)

text \<open>One turn of the tokenizer on a terminated line.\<close>

lemma tokenize_step:
  assumes "NUL \<notin> set l" and "argc < CLI_MAX_ARGS"
  shows "dropWhile blank l = [] \<Longrightarrow> tokenize argc (l @ NUL # r) = ([], l @ NUL # r)"
    and "dropWhile blank l = t \<Longrightarrow> t \<noteq> [] \<Longrightarrow> dropWhile (\<lambda>c. \<not> blank c) t = [] \<Longrightarrow>
      tokenize argc (l @ NUL # r) = ([takeWhile (\<lambda>c. \<not> blank c) t], l @ NUL # r)"
    and "dropWhile blank l = t \<Longrightarrow> dropWhile (\<lambda>c. \<not> blank c) t = b # u \<Longrightarrow>
      tokenize argc (l @ NUL # r) = (takeWhile (\<lambda>c. \<not> blank c) t # fst (tokenize (Suc argc) (u @ NUL # r)),
        takeWhile blank l @ takeWhile (\<lambda>c. \<not> blank c) t @ NUL # snd (tokenize (Suc argc) (u @ NUL # r)))"
proof -
  note c = cut_at_NUL [OF assms(1)]
  have nt: "NUL \<notin> set t" if "dropWhile blank l = t" for t using assms(1) that by (auto dest: set_dropWhileD)
  show "tokenize argc (l @ NUL # r) = ([], l @ NUL # r)" if "dropWhile blank l = []"
    by (subst tokenize.simps) (simp add: c(2,3) that char_at_def Let_def)
  show "tokenize argc (l @ NUL # r) = ([takeWhile (\<lambda>c. \<not> blank c) t], l @ NUL # r)"
    if t: "dropWhile blank l = t" "t \<noteq> []" "dropWhile (\<lambda>c. \<not> blank c) t = []"
  proof -
    have "l \<noteq> []" using t by auto
    then show ?thesis using assms(2) cut_at_NUL [OF nt [OF t(1)]] t(2)
      by (subst tokenize.simps) (simp add: c(1,2,3) t(1,3) Let_def del: dropWhile_eq_Nil_conv, simp add: char_at_def)
  qed
  show "tokenize argc (l @ NUL # r) = (takeWhile (\<lambda>c. \<not> blank c) t # fst (tokenize (Suc argc) (u @ NUL # r)),
      takeWhile blank l @ takeWhile (\<lambda>c. \<not> blank c) t @ NUL # snd (tokenize (Suc argc) (u @ NUL # r)))"
    if t: "dropWhile blank l = t" "dropWhile (\<lambda>c. \<not> blank c) t = b # u"
  proof -
    have "l \<noteq> []" "t \<noteq> []" using t by auto
    moreover have "b \<noteq> NUL" using nt [OF t(1)] t(2) by (metis list.set_intros(1) set_dropWhileD)
    then have "char_at ((b # u) @ NUL # r) \<noteq> NUL" by (simp add: char_at_def)
    ultimately show ?thesis using assms(2) cut_at_NUL [OF nt [OF t(1)]]
      by (subst tokenize.simps) (simp add: c(1,2,3) t Let_def case_prod_unfold del: dropWhile_eq_Nil_conv)
  qed
qed

lemma tokenize_words:
  "NUL \<notin> set l \<Longrightarrow> argc \<le> CLI_MAX_ARGS \<Longrightarrow> fst (tokenize argc (l @ NUL # r)) = take (CLI_MAX_ARGS - argc) (line_words l)"
proof (induction "CLI_MAX_ARGS - argc" arbitrary: argc l)
  case 0
  then have "\<not> argc < CLI_MAX_ARGS" "CLI_MAX_ARGS - argc = 0" by auto
  then show ?case by (subst tokenize.simps) simp
next
  case (Suc n)
  define t where "t = dropWhile blank l"
  have a: "argc < CLI_MAX_ARGS" "CLI_MAX_ARGS - argc = Suc (CLI_MAX_ARGS - Suc argc)" "n = CLI_MAX_ARGS - Suc argc" using Suc.hyps(2) by auto
  have lw: "line_words l = (if t = [] then [] else takeWhile (\<lambda>c. \<not> blank c) t # line_words (dropWhile (\<lambda>c. \<not> blank c) t))"
    by (subst line_words.simps) (simp add: t_def Let_def)
  note step = tokenize_step [OF Suc.prems(1) a(1), where r = r]
  show ?case
  proof (cases "dropWhile (\<lambda>c. \<not> blank c) t")
    case Nil
    have "line_words [] = []" by (subst line_words.simps) simp
    moreover have "fst (tokenize argc (l @ NUL # r)) = (if t = [] then [] else [takeWhile (\<lambda>c. \<not> blank c) t])"
      using step(1) step(2) [OF t_def [symmetric] _ Nil] by (metis fst_conv t_def)
    ultimately show ?thesis using Nil a(2) lw by (simp del: dropWhile_eq_Nil_conv)
  next
    case (Cons b u)
    have "t \<noteq> []" using Cons by auto
    have b: "blank b" using Cons hd_dropWhile [of "\<lambda>c. \<not> blank c" t] by simp
    have u: "NUL \<notin> set u"
      using Suc.prems(1) Cons unfolding t_def by (metis list.set_intros(2) set_dropWhileD)
    have "line_words (b # u) = line_words u" using b by (subst (1 2) line_words.simps) simp
    moreover have "fst (tokenize (Suc argc) (u @ NUL # r)) = take (CLI_MAX_ARGS - Suc argc) (line_words u)"
      using Suc.hyps(1) [OF a(3) u] a(1) by simp
    ultimately show ?thesis using step(3) [OF t_def [symmetric] Cons] \<open>t \<noteq> []\<close> a(2) lw Cons by simp
  qed
qed

lemma length_tokenize: "length (snd (tokenize argc s)) = length s"
proof (induction argc s rule: tokenize.induct)
  case (1 argc s)
  let ?nw = "\<lambda>c. c \<noteq> NUL \<and> \<not> blank c"
  let ?s1 = "dropWhile blank s"
  let ?rest = "dropWhile ?nw ?s1"
  show ?case
  proof (cases "char_at s = NUL \<or> \<not> argc < CLI_MAX_ARGS \<or> char_at ?s1 = NUL \<or> char_at ?rest = NUL")
    case True
    then show ?thesis by (subst tokenize.simps) (auto simp: Let_def)
  next
    case False
    then have "length (snd (tokenize (Suc argc) (tl ?rest))) = length (tl ?rest)"
      using 1 [of "takeWhile blank s" ?s1 "takeWhile ?nw ?s1" ?rest] by auto
    moreover have "Suc (length (tl ?rest)) = length ?rest" using False by (cases ?rest) (auto simp: char_at_def)
    moreover have "length (takeWhile blank s) + length ?s1 = length s" by (metis length_append takeWhile_dropWhile_id)
    moreover have "length (takeWhile ?nw ?s1) + length ?rest = length ?s1" by (metis length_append takeWhile_dropWhile_id)
    ultimately have "length (takeWhile blank s) + (length (takeWhile ?nw ?s1) + Suc (length (snd (tokenize (Suc argc) (tl ?rest))))) = length s"
      by linarith
    then show ?thesis using False by (subst tokenize.simps) (simp add: Let_def case_prod_unfold)
  qed
qed

lemma tokenize_remembered:
  assumes "NUL \<notin> set l"
  shows "cstr (snd (tokenize 0 (l @ NUL # r))) = remembered l"
proof -
  define t where "t = dropWhile blank l"
  have nt: "NUL \<notin> set t" using assms unfolding t_def by (auto dest: set_dropWhileD)
  have m: "0 < CLI_MAX_ARGS" by (simp add: CLI_MAX_ARGS_def)
  note step = tokenize_step [OF assms m, where r = r]
  show ?thesis
  proof (cases "dropWhile (\<lambda>c. \<not> blank c) t")
    case Nil
    have "remembered l = l" unfolding remembered_def t_def [symmetric] using Nil
      by (metis append_Nil2 t_def takeWhile_dropWhile_id)
    moreover have "snd (tokenize 0 (l @ NUL # r)) = l @ NUL # r"
      using step(1) step(2) [OF t_def [symmetric] _ Nil] by (metis snd_conv t_def)
    ultimately show ?thesis using assms by simp
  next
    case (Cons b u)
    have "NUL \<notin> set (takeWhile blank l @ takeWhile (\<lambda>c. \<not> blank c) t)" using assms nt by (auto dest: set_takeWhileD)
    then show ?thesis
      using step(3) [OF t_def [symmetric] Cons]
        cstr_append_NUL [of "takeWhile blank l @ takeWhile (\<lambda>c. \<not> blank c) t"] by (simp add: remembered_def t_def)
  qed
qed

definition entered :: "cli \<Rightarrow> string" where
  "entered s = (g_line s)[c_length s := NUL]"

lemma entered_split: "cli_inv s \<Longrightarrow> entered s = take (c_length s) (g_line s) @ NUL # drop (Suc (c_length s)) (g_line s)"
  by (auto simp: entered_def cli_inv_def upd_conv_take_nth_drop)

lemma remembered_length: "length (remembered l) \<le> length l"
  unfolding remembered_def by (metis (no_types) length_append add_left_mono length_takeWhile_le takeWhile_dropWhile_id)

lemma does_enter:
  assumes "cli_inv s" and "dispatch_line x (entered s) (set_con (console_putc CHR 0x0A (con_of y)) y) = (l1, Some (Inr (r, y1)))"
  shows "does (enter x s y) ((wipe (view s))\<lparr>e_last :=
    if e_before (view s) @ e_after (view s) = [] then e_last (view s) else Some (remembered (e_before (view s) @ e_after (view s)))\<rparr>)"
proof -
  let ?line = "take (c_length s) (g_line s)"
  have inv: "length (g_line s) = CLI_MAX_LINE" "length (g_last_line s) = CLI_MAX_LINE" "c_cursor s \<le> c_length s" "c_length s < CLI_MAX_LINE"
    "NUL \<notin> set ?line" "length (cstr (g_last_line s)) < CLI_MAX_LINE" using assms(1) by (auto simp: cli_inv_def)
  have line: "e_before (view s) @ e_after (view s) = ?line" by (rule view_line [OF inv(3)])
  have l1: "l1 = snd (tokenize 0 (entered s))" using assms(2) by (auto simp: dispatch_line_def split: prod.splits)
  then have len: "length l1 = CLI_MAX_LINE" using inv(1) by (simp add: length_tokenize entered_def)
  have e: "enter x s y =
      (if c_length s > 0 then (case copy_line (g_last_line s) l1 of None \<Rightarrow> None
          | Some h \<Rightarrow> prompt_after (s\<lparr>g_line := l1, g_last_line := h, g_has_last_line := True\<rparr>) y1)
       else prompt_after (s\<lparr>g_line := l1\<rparr>) y1)"
    using assms(2) inv(1,4) by (simp add: enter_def poke_def entered_def)
  show ?thesis
  proof (cases "c_length s = 0")
    case True
    then have "cli_inv (s\<lparr>g_line := l1\<rparr>)" "wipe (view (s\<lparr>g_line := l1\<rparr>)) = wipe (view s)"
      using assms(1) len by (simp_all add: cli_inv_def wipe_def view_def)
    from does_prompt [OF this(1), of y1] this(2) show ?thesis using True e line by (simp add: wipe_def view_def)
  next
    case False
    then have ne: "?line \<noteq> []" using inv(1,4) by auto
    have rem: "cstr l1 = remembered ?line" unfolding l1 entered_split [OF assms(1)] by (rule tokenize_remembered [OF inv(5)])
    then have "length (cstr l1) < CLI_MAX_LINE" using remembered_length [of ?line] inv(1,4) by simp
    then obtain h where h: "copy_line (g_last_line s) l1 = Some h" "length h = CLI_MAX_LINE" "cstr h = cstr l1"
      by (rule copy_line_spec [OF inv(2)])
    let ?s = "s\<lparr>g_line := l1, g_last_line := h, g_has_last_line := True\<rparr>"
    have "cleared ?s = Some (?s\<lparr>g_line := l1[0 := NUL], c_length := 0, c_cursor := 0\<rparr>)"
      using len by (simp add: cleared_def poke_def CLI_MAX_LINE_def)
    moreover have "cli_inv (?s\<lparr>g_line := l1[0 := NUL], c_length := 0, c_cursor := 0\<rparr>)"
      using h len rem remembered_length [of ?line] inv(1,4) by (simp add: cli_inv_def)
    ultimately show ?thesis
      using False e h ne line rem print_prompt_ok [of "con_of y1"]
      by (auto simp: prompt_after_def does_def keep_def wipe_def view_def)
  qed
qed

subsection \<open>Refinement\<close>

lemma does_if: "(b \<Longrightarrow> does r e) \<Longrightarrow> (\<not> b \<Longrightarrow> does r' e') \<Longrightarrow> does (if b then r else r') (if b then e else e')"
  by simp

lemma does_ctrl_c:
  assumes "cli_inv s"
  shows "does (case console_write (''^C'' @ [CHR 0x0A]) [] (con_of y) of None \<Rightarrow> None | Some d \<Rightarrow> prompt_after s (set_con d y)) (wipe (view s))"
  using console_write_plain_ok [of "''^C'' @ [CHR 0x0A]" "[]" "con_of y"] does_prompt [OF assms] by auto

lemma key_refines:
  assumes inv: "cli_inv s" and c: "c \<noteq> NUL" "c \<noteq> CHR 0x0A"
  shows "does (cli_key x c s y) (edit_key c (view s))"
proof -
  let ?l = "e_before (view s) @ e_after (view s)"
  have b: "c_cursor s \<le> c_length s" "c_length s < length (g_line s)" using inv by (auto simp: cli_inv_def)
  have line: "?l = take (c_length s) (g_line s)" by (rule view_line [OF b(1)])
  then have len: "length ?l = c_length s" using b by simp
  then have pos: "c_length s > 0 \<longleftrightarrow> ?l \<noteq> []" by (metis length_greater_0_conv)
  have left: "c_cursor s > 0 \<longleftrightarrow> e_before (view s) \<noteq> []" using view_length [OF inv] by (metis length_greater_0_conv)
  have right: "c_cursor s < c_length s \<longleftrightarrow> e_after (view s) \<noteq> []" using view_length [OF inv] by (metis length_greater_0_conv zero_less_diff)
  have home: "does (redraw (s\<lparr>c_cursor := 0\<rparr>) y) ((view s)\<lparr>e_before := [], e_after := ?l\<rparr>)"
    by (rule does_redraw) (use cursor_moves [OF inv, of 0] line in simp_all)
  have eol: "does (redraw (s\<lparr>c_cursor := c_length s\<rparr>) y) ((view s)\<lparr>e_before := ?l, e_after := []\<rparr>)"
    by (rule does_redraw) (use cursor_moves [OF inv, of "c_length s"] line in simp_all)
  have lft: "does (if c_cursor s > 0 then redraw (s\<lparr>c_cursor := c_cursor s - 1\<rparr>) y else keep s y)
      (if e_before (view s) = [] then view s
       else (view s)\<lparr>e_before := butlast (e_before (view s)), e_after := last (e_before (view s)) # e_after (view s)\<rparr>)"
    using does_left [OF inv] does_keep [OF inv refl] left by auto
  have rgt: "does (if c_cursor s < c_length s then redraw (s\<lparr>c_cursor := c_cursor s + 1\<rparr>) y else keep s y)
      (case e_after (view s) of [] \<Rightarrow> view s | a # as \<Rightarrow> (view s)\<lparr>e_before := e_before (view s) @ [a], e_after := as\<rparr>)"
    using does_right [OF inv] does_keep [OF inv refl] right by (cases "e_after (view s)") auto
  have esc: "does (keep (s\<lparr>c_esc := 1\<rparr>) y) ((view s)\<lparr>e_esc := 1\<rparr>)"
    using inv by (intro does_keep) (simp_all add: cli_inv_def view_def)
  show ?thesis
    unfolding cli_key_def edit_key_def Let_def pos len
    by (intro does_if does_keep [OF inv refl] esc home eol lft rgt does_ctrl_c [OF inv] does_recall [OF inv] does_clear [OF inv]
        does_erase [OF inv] does_insert [OF inv c(1)]) (use c(2) pos in auto)
qed

lemma arrow_char: "c \<noteq> NUL \<Longrightarrow> decode_arrow c \<noteq> NUL" "decode_arrow c = CHR 0x0A \<longleftrightarrow> c = CHR 0x0A"
  by (auto simp: decode_arrow_def key_defs)

lemma enter_cases:
  assumes inv: "cli_inv s"
  shows "case enter x s y of
      Some (Inr (s', y')) \<Rightarrow> cli_inv s' \<and> view s' = edit_key CHR 0x0A (view s)
    | Some (Inl stop) \<Rightarrow> snd (dispatch_line x (entered s) (set_con (console_putc CHR 0x0A (con_of y)) y)) = Some (Inl stop)
    | None \<Rightarrow> snd (dispatch_line x (entered s) (set_con (console_putc CHR 0x0A (con_of y)) y)) = None"
proof -
  obtain l1 res where d: "dispatch_line x (entered s) (set_con (console_putc CHR 0x0A (con_of y)) y) = (l1, res)" by fastforce
  have p: "poke (c_length s) NUL (g_line s) = Some (entered s)" using inv by (simp add: poke_def entered_def cli_inv_def)
  consider "res = None" | stop where "res = Some (Inl stop)" | r y1 where "res = Some (Inr (r, y1))"
    by (cases res) (auto, metis surj_pair sumE)
  then show ?thesis
  proof cases
    case 3
    have "edit_key CHR 0x0A (view s) = (wipe (view s))\<lparr>e_last :=
        if e_before (view s) @ e_after (view s) = [] then e_last (view s) else Some (remembered (e_before (view s) @ e_after (view s)))\<rparr>"
      by (simp add: edit_key_def Let_def key_defs)
    then show ?thesis using does_enter [OF inv d [unfolded 3]] by (auto simp: does_def)
  qed (simp_all add: enter_def p d)
qed

lemma esc_update:
  "cli_inv s \<Longrightarrow> cli_inv (s\<lparr>c_esc := k\<rparr>)" "view (s\<lparr>c_esc := k\<rparr>) = (view s)\<lparr>e_esc := k\<rparr>" "entered (s\<lparr>c_esc := k\<rparr>) = entered s"
  by (simp_all add: cli_inv_def view_def entered_def)

text \<open>
  C15: The line editor refines an editor on two texts, the one before and the one after the cursor:
  whatever key arrives, in whatever state of an escape sequence, the arrays, the cursor and the
  length keep their invariant (at most 127 characters in the array of 128, terminated copies), and
  what they stand for changes as the abstract editor says. A character does not come back only if it
  is the end of a line and the command it started does not. The command gets the first 16 words of
  the line, cut at blanks.
\<close>

theorem shell_refines_editor:
  assumes "cli_inv s" and "c \<noteq> NUL"
  shows "(case cli_input x c s y of
      Some (Inr (s', y')) \<Rightarrow> cli_inv s' \<and> view s' = edit c (view s)
    | Some (Inl stop) \<Rightarrow> c = CHR 0x0A \<and> snd (dispatch_line x (entered s) (set_con (console_putc CHR 0x0A (con_of y)) y)) = Some (Inl stop)
    | None \<Rightarrow> c = CHR 0x0A \<and> snd (dispatch_line x (entered s) (set_con (console_putc CHR 0x0A (con_of y)) y)) = None) \<and>
    fst (tokenize 0 (entered s)) = take 16 (line_words (e_before (view s) @ e_after (view s)))"
proof
  note v0 = esc_update(1) [OF assms(1)] esc_update(2,3) [where s = s]
  have e: "e_esc (view s) = c_esc s" by (simp add: view_def)
  have clr: "does (map_option (map_sum (\<lambda>p. p) (\<lambda>(s1, y1). (s1\<lparr>c_esc := 0\<rparr>, y1))) (clear_redraw s y)) ((wipe (view s))\<lparr>e_esc := 0\<rparr>)"
    using does_clear [OF assms(1), of y] by (auto simp: does_def esc_update)
  have k: "case cli_key x ch s1 y of
        Some (Inr (s', y')) \<Rightarrow> cli_inv s' \<and> view s' = edit_key ch (view s1)
      | Some (Inl stop) \<Rightarrow> ch = CHR 0x0A \<and> snd (dispatch_line x (entered s1) (set_con (console_putc CHR 0x0A (con_of y)) y)) = Some (Inl stop)
      | None \<Rightarrow> ch = CHR 0x0A \<and> snd (dispatch_line x (entered s1) (set_con (console_putc CHR 0x0A (con_of y)) y)) = None"
    if "cli_inv s1" "ch \<noteq> NUL" for ch s1
  proof (cases "ch = CHR 0x0A")
    case True
    then have "cli_key x ch s1 y = enter x s1 y" by (simp add: cli_key_def key_defs)
    then show ?thesis using enter_cases [OF that(1), of x y] True by (auto split: option.splits sum.splits)
  next
    case False
    then show ?thesis using key_refines [OF that False, of x y] by (auto simp: does_def)
  qed
  show "case cli_input x c s y of
      Some (Inr (s', y')) \<Rightarrow> cli_inv s' \<and> view s' = edit c (view s)
    | Some (Inl stop) \<Rightarrow> c = CHR 0x0A \<and> snd (dispatch_line x (entered s) (set_con (console_putc CHR 0x0A (con_of y)) y)) = Some (Inl stop)
    | None \<Rightarrow> c = CHR 0x0A \<and> snd (dispatch_line x (entered s) (set_con (console_putc CHR 0x0A (con_of y)) y)) = None"
  proof (cases "c_esc s = 1")
    case True
    then show ?thesis using clr v0 e by (auto simp: cli_input_def edit_def keep_def does_def)
  next
    case False
    then show ?thesis
      using k [OF assms] k [OF v0(1) [of 0] arrow_char(1) [OF assms(2)]] v0 e arrow_char(2) [of c]
      by (auto simp: cli_input_def edit_def split: option.splits sum.splits)
  qed
  have "NUL \<notin> set (take (c_length s) (g_line s))" "c_cursor s \<le> c_length s" using assms(1) by (auto simp: cli_inv_def)
  then show "fst (tokenize 0 (entered s)) = take 16 (line_words (e_before (view s) @ e_after (view s)))"
    using tokenize_words [of "take (c_length s) (g_line s)" 0] view_line [of s] entered_split [OF assms(1)]
    by (simp add: CLI_MAX_ARGS_def)
qed

definition sample_cli :: cli where
  "sample_cli = \<lparr>g_line = ''hi'' @ replicate 126 NUL, g_last_line = replicate 128 NUL, g_has_last_line = False,
     c_length = 2, c_cursor = 1, c_esc = 0\<rparr>"

lemma sample_cli_inv: "cli_inv sample_cli"
  by (simp add: cli_inv_def sample_cli_def CLI_MAX_LINE_def numeral_2_eq_2 cstr_def)

theorem shell_refines_editor_witness:
  "\<forall>x y. (\<exists>s' y'. cli_input x CHR ''x'' sample_cli y = Some (Inr (s', y')) \<and>
     view s' = \<lparr>e_before = ''hx'', e_after = ''i'', e_last = None, e_esc = 0\<rparr>) \<and> fst (tokenize 0 (entered sample_cli)) = [''hi'']"
proof (intro allI)
  fix x y
  have v: "view sample_cli = \<lparr>e_before = ''h'', e_after = ''i'', e_last = None, e_esc = 0\<rparr>"
    by (simp add: view_def sample_cli_def numeral_2_eq_2)
  have e: "edit CHR ''x'' (view sample_cli) = \<lparr>e_before = ''hx'', e_after = ''i'', e_last = None, e_esc = 0\<rparr>"
    by (simp add: v edit_def edit_key_def key_defs Let_def)
  have "line_words ''hi'' = [''hi'']" by (simp add: line_words.simps blank_def)
  then show "(\<exists>s' y'. cli_input x CHR ''x'' sample_cli y = Some (Inr (s', y')) \<and>
     view s' = \<lparr>e_before = ''hx'', e_after = ''i'', e_last = None, e_esc = 0\<rparr>) \<and> fst (tokenize 0 (entered sample_cli)) = [''hi'']"
    using shell_refines_editor [OF sample_cli_inv, of "CHR ''x''" x y] e v by (auto split: option.splits sum.splits)
qed

text \<open>
  Recalling a line gives back only its first word, and an \<^verbatim>\<open>echo\<close> of a pair of braces reads an
  argument that was not passed.
\<close>

lemma recall_keeps_first_word:
  "e_before (edit KEY_CTRL_P (edit CHR 0x0A \<lparr>e_before = ''echo hi'', e_after = [], e_last = None, e_esc = 0\<rparr>)) = ''echo''"
  by (simp add: edit_def edit_key_def key_defs Let_def wipe_def remembered_def blank_def)

lemma echo_braces_undefined: "cmd_echo x [''echo'', ''{}''] y = None"
  by (simp add: cmd_echo_def console_write_def console_write_braces_v_def kvformat_braces_def char_at_def)

end
