(* ===== verification/Input.thy ===== *)
theory Input
  imports Console
begin

text \<open>
  The PS/2 input drivers \<^verbatim>\<open>drivers/keyboard.c\<close> and \<^verbatim>\<open>drivers/mouse.c\<close>. The bytes a driver reads from
  the controller are inputs: an interrupt handler is given the status byte and the data byte it
  would read; the initialisation routines, which read repeatedly, are given the sequence of all
  bytes read, and the state counts them. The properties: typed text arrives in the console queue,
  and the mouse driver collects packets within its array and scrolls by what they say.
\<close>

subsection \<open>Keyboard\<close>

record keymap_entry =
  normal :: char
  shifted :: char

text \<open>The initialised entries of \<^verbatim>\<open>g_keymap\<close>: scancode, plain and shifted character.\<close>

definition keymap_rows :: "(nat \<times> char \<times> char) list" where
  "keymap_rows =
    [(0x02, CHR ''1'', CHR ''!''), (0x03, CHR ''2'', CHR ''@''), (0x04, CHR ''3'', CHR ''#''), (0x05, CHR ''4'', CHR ''$''), (0x06, CHR ''5'', CHR ''%''),
     (0x07, CHR ''6'', CHR ''^''), (0x08, CHR ''7'', CHR ''&''), (0x09, CHR ''8'', CHR ''*''), (0x0A, CHR ''9'', CHR ''(''), (0x0B, CHR ''0'', CHR '')''),
     (0x0C, CHR ''-'', CHR ''_''), (0x0D, CHR ''='', CHR ''+''), (0x0E, CHR 0x08, CHR 0x08), (0x0F, CHR 0x09, CHR 0x09), (0x10, CHR ''q'', CHR ''Q''),
     (0x11, CHR ''w'', CHR ''W''), (0x12, CHR ''e'', CHR ''E''), (0x13, CHR ''r'', CHR ''R''), (0x14, CHR ''t'', CHR ''T''), (0x15, CHR ''y'', CHR ''Y''),
     (0x16, CHR ''u'', CHR ''U''), (0x17, CHR ''i'', CHR ''I''), (0x18, CHR ''o'', CHR ''O''), (0x19, CHR ''p'', CHR ''P''), (0x1A, CHR ''['', CHR ''{''),
     (0x1B, CHR '']'', CHR ''}''), (0x1C, CHR 0x0A, CHR 0x0A), (0x1E, CHR ''a'', CHR ''A''), (0x1F, CHR ''s'', CHR ''S''), (0x20, CHR ''d'', CHR ''D''),
     (0x21, CHR ''f'', CHR ''F''), (0x22, CHR ''g'', CHR ''G''), (0x23, CHR ''h'', CHR ''H''), (0x24, CHR ''j'', CHR ''J''), (0x25, CHR ''k'', CHR ''K''),
     (0x26, CHR ''l'', CHR ''L''), (0x27, CHR '';'', CHR '':''), (0x28, CHR 0x27, CHR 0x22), (0x29, CHR 0x60, CHR ''~''), (0x2B, CHR 0x5C, CHR ''|''),
     (0x2C, CHR ''z'', CHR ''Z''), (0x2D, CHR ''x'', CHR ''X''), (0x2E, CHR ''c'', CHR ''C''), (0x2F, CHR ''v'', CHR ''V''), (0x30, CHR ''b'', CHR ''B''),
     (0x31, CHR ''n'', CHR ''N''), (0x32, CHR ''m'', CHR ''M''), (0x33, CHR '','', CHR ''<''), (0x34, CHR ''.'', CHR ''>''), (0x35, CHR ''/'', CHR ''?''),
     (0x39, CHR '' '', CHR '' '')]"

definition g_keymap :: "nat \<Rightarrow> keymap_entry" where
  "g_keymap i =
     (case map_of keymap_rows i of
        None \<Rightarrow> \<lparr>normal = NUL, shifted = NUL\<rparr>
      | Some (a, b) \<Rightarrow> \<lparr>normal = a, shifted = b\<rparr>)"

record keyboard =
  g_shift_active :: bool
  g_ctrl_active :: bool
  g_extended_sequence :: bool

definition translate_scancode :: "u8 \<Rightarrow> keyboard \<Rightarrow> char" where
  "translate_scancode scancode k =
     (if unat scancode \<ge> 128 then NUL
      else
        let entry = g_keymap (unat scancode)
        in if normal entry = NUL then NUL else if g_shift_active k then shifted entry else normal entry)"

definition translate_extended_scancode :: "u8 \<Rightarrow> char" where
  "translate_extended_scancode scancode =
     (if scancode = 0x48 then CHR 0x10
      else if scancode = 0x50 then CHR 0x0E
      else if scancode = 0x4B then CHR 0x02
      else if scancode = 0x4D then CHR 0x06
      else NUL)"

definition apply_ctrl_translation :: "char \<Rightarrow> keyboard \<Rightarrow> char" where
  "apply_ctrl_translation translated k =
     (let n = of_char translated :: nat
      in if \<not> g_ctrl_active k then translated
         else if 97 \<le> n \<and> n \<le> 122 then char_of (n - 97 + 1)
         else if 65 \<le> n \<and> n \<le> 90 then char_of (n - 65 + 1)
         else if translated = CHR ''['' then CHR 0x1B
         else translated)"

text \<open>
  The loop that empties the controller: \<open>inp\<close> is the sequence of the bytes read, status and data in
  turn; the result is the number of reads. On a controller that always has a byte it never ends.
\<close>

partial_function (option) drain_ps2 :: "(nat \<Rightarrow> u8) \<Rightarrow> nat \<Rightarrow> nat option" where
  "drain_ps2 inp i = (if inp i AND 1 \<noteq> 0 then drain_ps2 inp (i + 2) else Some (i + 1))"

definition keyboard_init :: "(nat \<Rightarrow> u8) \<Rightarrow> keyboard \<Rightarrow> (keyboard \<times> con_call list) option" where
  "keyboard_init inp k =
     map_option (\<lambda>_. (k\<lparr>g_shift_active := False, g_ctrl_active := False, g_extended_sequence := False\<rparr>,
                     [Writeln ''keyboard: PS/2 input ready'' []])) (drain_ps2 inp 0)"

definition is_shift :: "u8 \<Rightarrow> bool" where
  "is_shift scancode \<longleftrightarrow> scancode = 0x2A \<or> scancode = 0x36"

definition keyboard_handle_irq :: "u8 \<Rightarrow> u8 \<Rightarrow> keyboard \<times> console \<Rightarrow> keyboard \<times> console" where
  "keyboard_handle_irq status scancode st =
     (case st of (k, c) \<Rightarrow>
        if status AND 1 = 0 then (k, c)
        else if scancode = 0xE0 then (k\<lparr>g_extended_sequence := True\<rparr>, c)
        else if scancode AND 0x80 \<noteq> 0 then
          let code = scancode AND NOT 0x80;
              k1 = (if is_shift code then k\<lparr>g_shift_active := False\<rparr>
                    else if code = 0x1D then k\<lparr>g_ctrl_active := False\<rparr> else k)
          in (k1\<lparr>g_extended_sequence := False\<rparr>, c)
        else if is_shift scancode then (k\<lparr>g_shift_active := True\<rparr>, c)
        else if scancode = 0x1D then (k\<lparr>g_ctrl_active := True, g_extended_sequence := False\<rparr>, c)
        else
          let translated =
                (if g_extended_sequence k then translate_extended_scancode scancode
                 else if scancode = 0x01 then CHR 0x1B
                 else apply_ctrl_translation (translate_scancode scancode k) k);
              k1 = k\<lparr>g_extended_sequence := False\<rparr>
          in (k1, if translated \<noteq> NUL then console_enqueue_input translated c else c))"

subsection \<open>Mouse\<close>

record mouse =
  g_packet :: "u8 list"
  g_packet_index :: u8
  g_packet_size :: u8
  g_mouse_ready :: bool

record ps2 =
  p_reads :: nat
  p_out :: "(u16 \<times> u8) list"

definition ps2_spin :: "(nat \<Rightarrow> u8) \<Rightarrow> (u8 \<Rightarrow> bool) \<Rightarrow> ps2 \<Rightarrow> bool \<times> ps2" where
  "ps2_spin inp test p =
     (case scan_from (\<lambda>i. test (inp (p_reads p + i))) 0 100000 of
        None \<Rightarrow> (False, p\<lparr>p_reads := p_reads p + 100000\<rparr>)
      | Some i \<Rightarrow> (True, p\<lparr>p_reads := p_reads p + i + 1\<rparr>))"

definition ps2_wait_input_clear :: "(nat \<Rightarrow> u8) \<Rightarrow> ps2 \<Rightarrow> ps2" where
  "ps2_wait_input_clear inp p = snd (ps2_spin inp (\<lambda>v. v AND 2 = 0) p)"

definition ps2_wait_output_full :: "(nat \<Rightarrow> u8) \<Rightarrow> ps2 \<Rightarrow> bool \<times> ps2" where
  "ps2_wait_output_full inp p = ps2_spin inp (\<lambda>v. v AND 1 \<noteq> 0) p"

definition ps2_write_cmd :: "(nat \<Rightarrow> u8) \<Rightarrow> u8 \<Rightarrow> ps2 \<Rightarrow> ps2" where
  "ps2_write_cmd inp v p = (let p1 = ps2_wait_input_clear inp p in p1\<lparr>p_out := p_out p1 @ [(0x64, v)]\<rparr>)"

definition ps2_write_data :: "(nat \<Rightarrow> u8) \<Rightarrow> u8 \<Rightarrow> ps2 \<Rightarrow> ps2" where
  "ps2_write_data inp v p = (let p1 = ps2_wait_input_clear inp p in p1\<lparr>p_out := p_out p1 @ [(0x60, v)]\<rparr>)"

definition ps2_read_data :: "(nat \<Rightarrow> u8) \<Rightarrow> ps2 \<Rightarrow> u8 \<times> ps2" where
  "ps2_read_data inp p =
     (case ps2_wait_output_full inp p of (ok, p1) \<Rightarrow>
        if \<not> ok then (0, p1) else (inp (p_reads p1), p1\<lparr>p_reads := p_reads p1 + 1\<rparr>))"

definition mouse_write :: "(nat \<Rightarrow> u8) \<Rightarrow> u8 \<Rightarrow> ps2 \<Rightarrow> ps2" where
  "mouse_write inp v p = ps2_write_data inp v (ps2_write_cmd inp 0xD4 p)"

definition mouse_read_ack :: "(nat \<Rightarrow> u8) \<Rightarrow> ps2 \<Rightarrow> u8 \<times> ps2" where
  "mouse_read_ack inp p = ps2_read_data inp p"

definition mouse_set_sample_rate :: "(nat \<Rightarrow> u8) \<Rightarrow> u8 \<Rightarrow> ps2 \<Rightarrow> ps2" where
  "mouse_set_sample_rate inp rate p =
     snd (mouse_read_ack inp (mouse_write inp rate (snd (mouse_read_ack inp (mouse_write inp 0xF3 p)))))"

definition mouse_init :: "(nat \<Rightarrow> u8) \<Rightarrow> mouse \<times> ps2 \<Rightarrow> mouse \<times> ps2 \<times> con_call list" where
  "mouse_init inp st =
     (case st of (m, p) \<Rightarrow>
        case ps2_read_data inp (ps2_write_cmd inp 0x20 (ps2_write_cmd inp 0xA8 p)) of (status, p1) \<Rightarrow>
          let p2 = ps2_write_data inp ((status OR 0x02) AND NOT 0x20) (ps2_write_cmd inp 0x60 p1);
              p3 = snd (mouse_read_ack inp (mouse_write inp 0xF6 p2));
              p4 = fold (mouse_set_sample_rate inp) [200, 100, 80] p3;
              p5 = snd (mouse_read_ack inp (mouse_write inp 0xF2 p4))
          in case ps2_read_data inp p5 of (mouse_id, p6) \<Rightarrow>
               let sz = (if mouse_id = 3 then 4 else 3);
                   p7 = snd (mouse_read_ack inp (mouse_write inp 0xF4 p6))
               in (m\<lparr>g_packet_index := 0, g_packet_size := sz, g_mouse_ready := True\<rparr>, p7,
                   [Printf (''mouse: PS/2 ready packet=%u-byte wheel=%s'' @ [CHR 0x0A])
                      [vunsigned (ucast sz), VStr (Some (if sz = 4 then ''yes'' else ''no''))]]))"

text \<open>A write past the packet array is \<open>None\<close>.\<close>

definition mouse_handle_irq :: "u8 \<Rightarrow> u8 \<Rightarrow> mouse \<times> console \<Rightarrow> (mouse \<times> console) option" where
  "mouse_handle_irq status byte st =
     (case st of (m, c) \<Rightarrow>
        if \<not> g_mouse_ready m \<or> status AND 1 = 0 then Some (m, c)
        else if unat (g_packet_index m) \<ge> length (g_packet m) then None
        else
          let packet = (g_packet m)[unat (g_packet_index m) := byte];
              index = g_packet_index m + 1;
              m1 = m\<lparr>g_packet := packet, g_packet_index := index\<rparr>
          in if index < g_packet_size m then Some (m1, c)
             else
               let m2 = m1\<lparr>g_packet_index := 0\<rparr>;
                   wheel = sint (packet ! 3)
               in Some (m2, if packet ! 0 AND 0x08 = 0 \<or> g_packet_size m \<noteq> 4 \<or> wheel = 0 then c
                            else console_scroll_view (wheel * 3) c))"

subsection \<open>Typing\<close>

text \<open>The scancodes a keyboard sends when a key is pressed and released, with the left shift key around it if needed.\<close>

definition key_for :: "char \<Rightarrow> (nat \<times> bool) option" where
  "key_for ch =
     (case find (\<lambda>(i, a, b). a = ch) keymap_rows of
        Some (i, _) \<Rightarrow> Some (i, False)
      | None \<Rightarrow> map_option (\<lambda>(i, _). (i, True)) (find (\<lambda>(i, a, b). b = ch) keymap_rows))"

definition keystrokes :: "char \<Rightarrow> u8 list" where
  "keystrokes ch =
     (case key_for ch of
        None \<Rightarrow> []
      | Some (i, False) \<Rightarrow> [of_nat i, of_nat i OR 0x80]
      | Some (i, True) \<Rightarrow> [0x2A, of_nat i, of_nat i OR 0x80, 0xAA])"

definition idle_keyboard :: keyboard where
  "idle_keyboard = \<lparr>g_shift_active = False, g_ctrl_active = False, g_extended_sequence = False\<rparr>"

lemma keymap_row:
  assumes "(i, a, b) \<in> set keymap_rows"
  shows "g_keymap i = \<lparr>normal = a, shifted = b\<rparr>"
proof -
  have "distinct (map fst keymap_rows)" by (simp add: keymap_rows_def)
  then have "map_of keymap_rows i = Some (a, b)" using assms by simp
  then show ?thesis by (simp add: g_keymap_def)
qed

definition plain_code :: "u8 \<Rightarrow> bool" where
  "plain_code w \<longleftrightarrow> w \<noteq> 0xE0 \<and> w AND 0x80 = 0 \<and> \<not> is_shift w \<and> w \<noteq> 0x1D \<and> w \<noteq> 0x01 \<and> unat w < 128 \<and>
     w OR 0x80 \<noteq> 0xE0 \<and> (w OR 0x80) AND 0x80 \<noteq> 0 \<and> (w OR 0x80) AND NOT 0x80 = w"

lemma keymap_plain: "\<forall>(i, a, b) \<in> set keymap_rows. plain_code (of_nat i) \<and> unat (of_nat i :: u8) = i \<and> a \<noteq> NUL \<and> b \<noteq> NUL"
  by (simp add: keymap_rows_def plain_code_def is_shift_def)

lemma press_release:
  assumes "(i, a, b) \<in> set keymap_rows" and "\<not> g_ctrl_active k" and "\<not> g_extended_sequence k"
  shows "keyboard_handle_irq 1 (of_nat i) (k, c) = (k, console_enqueue_input (if g_shift_active k then b else a) c)"
    and "keyboard_handle_irq 1 (of_nat i OR 0x80) (k, c) = (k, c)"
proof -
  have p: "plain_code (of_nat i)" "unat (of_nat i :: u8) = i" "a \<noteq> NUL" "b \<noteq> NUL" using keymap_plain assms(1) by auto
  have k: "k\<lparr>g_extended_sequence := False\<rparr> = k" using assms(3) by (cases k) simp
  have t: "translate_scancode (of_nat i) k = (if g_shift_active k then b else a)"
  proof -
    have "unat (of_nat i :: u8) < 128" using p(1) by (simp only: plain_code_def)
    then show ?thesis using keymap_row [OF assms(1)] p(3,4) by (simp add: translate_scancode_def p(2))
  qed
  show "keyboard_handle_irq 1 (of_nat i) (k, c) = (k, console_enqueue_input (if g_shift_active k then b else a) c)"
    using p assms(2,3) t k unfolding keyboard_handle_irq_def plain_code_def by (simp add: Let_def apply_ctrl_translation_def)
  show "keyboard_handle_irq 1 (of_nat i OR 0x80) (k, c) = (k, c)"
    using p(1) k unfolding keyboard_handle_irq_def plain_code_def by (simp add: Let_def)
qed

lemma key_for_SomeD:
  assumes "key_for ch = Some (i, sh)"
  obtains a b where "(i, a, b) \<in> set keymap_rows" "ch = (if sh then b else a)"
  using assms by (auto simp: key_for_def find_Some_iff dest!: nth_mem split: option.splits)

lemma keystrokes_type:
  assumes "key_for ch \<noteq> None"
  shows "fold (keyboard_handle_irq 1) (keystrokes ch) (idle_keyboard, c) = (idle_keyboard, console_enqueue_input ch c)"
proof -
  obtain i sh where k: "key_for ch = Some (i, sh)" using assms by auto
  obtain a b where ab: "(i, a, b) \<in> set keymap_rows" "ch = (if sh then b else a)" by (rule key_for_SomeD [OF k])
  let ?k = "idle_keyboard\<lparr>g_shift_active := True\<rparr>"
  have "keyboard_handle_irq 1 0x2A (idle_keyboard, c) = (?k, c)" for c by (simp add: keyboard_handle_irq_def is_shift_def)
  moreover have "keyboard_handle_irq 1 0xAA (?k, c) = (idle_keyboard, c)" for c
    by (simp add: keyboard_handle_irq_def is_shift_def Let_def idle_keyboard_def)
  ultimately show ?thesis
    using press_release [OF ab(1)] ab(2) k by (cases sh) (simp_all add: keystrokes_def idle_keyboard_def)
qed

text \<open>
  C35: What is typed is what is read. For every text made of keys of the keyboard, the scancodes of
  pressing and releasing the keys one after the other (with shift where the character needs it)
  leave the keyboard idle and put exactly that text into the console queue, after what it held
  and up to its 127 characters.
\<close>

theorem keyboard_types_text:
  assumes "\<forall>ch \<in> set keys. key_for ch \<noteq> None" and "ring_inv c"
  shows "\<exists>c'. fold (keyboard_handle_irq 1) (concat (map keystrokes keys)) (idle_keyboard, c) = (idle_keyboard, c') \<and>
    ring_contents c' = take 127 (ring_contents c @ keys)"
proof -
  have "fold (keyboard_handle_irq 1) (concat (map keystrokes keys)) (idle_keyboard, c) = (idle_keyboard, fold console_enqueue_input keys c)"
    using assms(1) by (induction keys arbitrary: c) (simp_all add: keystrokes_type)
  then show ?thesis using ring.fold_enq [OF assms(2), of keys] by blast
qed

theorem keyboard_types_text_witness:
  "\<exists>c'. fold (keyboard_handle_irq 1) (concat (map keystrokes ''Ls!'')) (idle_keyboard, sample_console) = (idle_keyboard, c') \<and>
    ring_contents c' = take 127 (ring_contents sample_console @ ''Ls!'')"
proof (rule keyboard_types_text)
  show "\<forall>ch \<in> set ''Ls!''. key_for ch \<noteq> None" by (auto simp: key_for_def keymap_rows_def)
  show "ring_inv sample_console" using sample_console_inv by (simp add: console_inv_def)
qed

subsection \<open>Mouse packets\<close>

definition mouse_inv :: "mouse \<Rightarrow> bool" where
  "mouse_inv m \<longleftrightarrow> length (g_packet m) = 4 \<and> g_packet_size m \<in> {3, 4} \<and> g_packet_index m < g_packet_size m"

lemma mouse_init_inv: "length (g_packet m) = 4 \<Longrightarrow> mouse_inv (fst (mouse_init inp (m, p)))"
  by (auto simp: mouse_init_def mouse_inv_def Let_def split: prod.splits)


lemma index_cases:
  assumes "(i :: u8) < n" and "n \<in> {3, 4}"
  shows "unat i < 4" and "unat n \<le> 4" and "i + 1 < n \<or> i + 1 = n" and "unat (i + 1) = unat i + 1"
proof -
  have u: "unat i < unat n" using assms(1) by (simp add: word_less_nat_alt)
  have n: "unat n \<le> 4" using assms(2) by auto
  show "unat n \<le> 4" by (rule n)
  show i4: "unat i < 4" using u n by simp
  show s: "unat (i + 1) = unat i + 1" using i4 by (simp add: unat_word_ariths)
  show "i + 1 < n \<or> i + 1 = n" using u s by (simp add: word_less_nat_alt word_unat_eq_iff) linarith
qed

definition wheel_scroll :: "u8 list \<Rightarrow> console \<Rightarrow> console" where
  "wheel_scroll packet c = (if packet ! 0 AND 0x08 = 0 then c else console_scroll_view (sint (packet ! 3) * 3) c)"

lemma mouse_irq_cases:
  fixes m :: mouse and byte :: u8
  assumes "mouse_inv m" and "g_mouse_ready m" and "status AND 1 \<noteq> 0"
  defines "packet \<equiv> (g_packet m)[unat (g_packet_index m) := byte]"
  shows "g_packet_index m + 1 < g_packet_size m \<Longrightarrow>
      mouse_handle_irq status byte (m, c) = Some (m\<lparr>g_packet := packet, g_packet_index := g_packet_index m + 1\<rparr>, c)"
    and "\<not> g_packet_index m + 1 < g_packet_size m \<Longrightarrow>
      mouse_handle_irq status byte (m, c) =
        Some (m\<lparr>g_packet := packet, g_packet_index := 0\<rparr>, if g_packet_size m = 4 then wheel_scroll packet c else c)"
proof -
  have "unat (g_packet_index m) < length (g_packet m)"
    using assms(1) index_cases(1) [of "g_packet_index m" "g_packet_size m"] by (simp add: mouse_inv_def)
  then have irq: "mouse_handle_irq status byte (m, c) =
    (if g_packet_index m + 1 < g_packet_size m then Some (m\<lparr>g_packet := packet, g_packet_index := g_packet_index m + 1\<rparr>, c)
     else Some (m\<lparr>g_packet := packet, g_packet_index := 0\<rparr>,
       if packet ! 0 AND 0x08 = 0 \<or> g_packet_size m \<noteq> 4 \<or> sint (packet ! 3) = 0 then c
       else console_scroll_view (sint (packet ! 3) * 3) c))"
    using assms(2,3) unfolding mouse_handle_irq_def packet_def Let_def by simp
  show "mouse_handle_irq status byte (m, c) = Some (m\<lparr>g_packet := packet, g_packet_index := g_packet_index m + 1\<rparr>, c)"
    if "g_packet_index m + 1 < g_packet_size m" unfolding irq using that by simp
  show "mouse_handle_irq status byte (m, c) =
      Some (m\<lparr>g_packet := packet, g_packet_index := 0\<rparr>, if g_packet_size m = 4 then wheel_scroll packet c else c)"
    if "\<not> g_packet_index m + 1 < g_packet_size m"
    unfolding irq wheel_scroll_def using that by (simp add: console_scroll_view_def)
qed

lemma mouse_irq_ok:
  assumes "mouse_inv m"
  obtains m' c' where "mouse_handle_irq status byte (m, c) = Some (m', c')" "mouse_inv m'"
    "g_packet_size m' = g_packet_size m" "g_mouse_ready m' = g_mouse_ready m"
proof (cases "g_mouse_ready m \<and> status AND 1 \<noteq> 0")
  case False
  then have "mouse_handle_irq status byte (m, c) = Some (m, c)" unfolding mouse_handle_irq_def by auto
  then show ?thesis using that assms by blast
next
  case True
  note irq = mouse_irq_cases [OF assms conjunct1 [OF True] conjunct2 [OF True], of byte c]
  show ?thesis
  proof (cases "g_packet_index m + 1 < g_packet_size m")
    case True
    show ?thesis by (rule that [OF irq(1) [OF True]]) (use assms True in \<open>simp_all add: mouse_inv_def\<close>)
  next
    case False
    have "0 < g_packet_size m" using assms unfolding mouse_inv_def by auto
    then show ?thesis by (intro that [OF irq(2) [OF False]]) (use assms in \<open>simp_all add: mouse_inv_def\<close>)
  qed
qed

fun mouse_stream :: "(u8 \<times> u8) list \<Rightarrow> mouse \<times> console \<Rightarrow> (mouse \<times> console) option" where
  "mouse_stream [] st = Some st"
| "mouse_stream ((status, byte) # bs) st = Option.bind (mouse_handle_irq status byte st) (mouse_stream bs)"

lemma mouse_stream_append: "mouse_stream (as @ bs) st = Option.bind (mouse_stream as st) (mouse_stream bs)"
  by (induction as st rule: mouse_stream.induct) (auto intro: bind_option_cong)

lemma mouse_stream_ok:
  "mouse_inv m \<Longrightarrow> \<exists>m' c'. mouse_stream bs (m, c) = Some (m', c') \<and> mouse_inv m'"
proof (induction bs arbitrary: m c)
  case (Cons b bs)
  obtain m1 c1 where "mouse_handle_irq (fst b) (snd b) (m, c) = Some (m1, c1)" "mouse_inv m1"
    by (rule mouse_irq_ok [OF Cons.prems])
  then show ?case using Cons.IH [of m1 c1] by (cases b) simp
qed simp

definition packet_irqs :: "u8 list \<Rightarrow> (u8 \<times> u8) list" where
  "packet_irqs bs = map (Pair 1) bs"

lemma list4: "length xs = 4 \<longleftrightarrow> (\<exists>a b c d. xs = [a, b, c, d])"
  by (auto simp: length_Suc_conv numeral_eq_Suc)

lemma mouse_packet:
  assumes "mouse_inv m" "g_mouse_ready m" "g_packet_size m = 4" "g_packet_index m = 0" "length p = 4"
  shows "mouse_stream (packet_irqs p) (m, c) = Some (m\<lparr>g_packet := p\<rparr>, wheel_scroll p c)"
proof -
  obtain b0 b1 b2 b3 where p: "p = [b0, b1, b2, b3]" using assms(5) by (auto simp: list4)
  obtain a0 a1 a2 a3 where a: "g_packet m = [a0, a1, a2, a3]" using assms(1) by (auto simp: list4 mouse_inv_def)
  have byte: "mouse_handle_irq 1 b (m\<lparr>g_packet := q, g_packet_index := i\<rparr>, c) =
      Some (if i < 3 then (m\<lparr>g_packet := q[unat i := b], g_packet_index := i + 1\<rparr>, c)
            else (m\<lparr>g_packet := q[unat i := b], g_packet_index := 0\<rparr>, wheel_scroll (q[unat i := b]) c))"
    if "i \<in> {0, 1, 2, 3}" "length q = 4" for i b q
    using that assms(2,3) mouse_irq_cases [of "m\<lparr>g_packet := q, g_packet_index := i\<rparr>" 1 b c]
    by (auto simp: mouse_inv_def)
  have m: "m = m\<lparr>g_packet := [a0, a1, a2, a3], g_packet_index := 0\<rparr>" using a assms(4) by (cases m) simp
  show ?thesis unfolding p packet_irqs_def by (subst m) (simp add: byte, use assms(4) in \<open>cases m, simp\<close>)
qed

text \<open>
  C36: The mouse driver keeps inside its four-byte packet array whatever bytes the controller
  sends, in whatever order and with whatever status; and on a wheel mouse in step with its
  packets, any number of packets moves the view by three lines for every step of the wheel, in
  packet order, ignoring the packets that lack the synchronisation bit.
\<close>

theorem mouse_packets:
  assumes "mouse_inv m"
  shows "(\<exists>m' c'. mouse_stream bs (m, c) = Some (m', c') \<and> mouse_inv m') \<and>
    (g_mouse_ready m \<and> g_packet_size m = 4 \<and> g_packet_index m = 0 \<and> (\<forall>p \<in> set ps. length p = 4) \<longrightarrow>
      map_option snd (mouse_stream (packet_irqs (concat ps)) (m, c)) = Some (fold wheel_scroll ps c))"
proof (intro conjI impI)
  show "\<exists>m' c'. mouse_stream bs (m, c) = Some (m', c') \<and> mouse_inv m'" by (rule mouse_stream_ok [OF assms])
  assume "g_mouse_ready m \<and> g_packet_size m = 4 \<and> g_packet_index m = 0 \<and> (\<forall>p \<in> set ps. length p = 4)"
  then show "map_option snd (mouse_stream (packet_irqs (concat ps)) (m, c)) = Some (fold wheel_scroll ps c)"
    using assms
  proof (induction ps arbitrary: m c)
    case (Cons p ps)
    have "mouse_inv (m\<lparr>g_packet := p\<rparr>)" using Cons.prems by (simp add: mouse_inv_def)
    then have "map_option snd (mouse_stream (packet_irqs (concat ps)) (m\<lparr>g_packet := p\<rparr>, wheel_scroll p c)) =
        Some (fold wheel_scroll ps (wheel_scroll p c))"
      by (intro Cons.IH) (use Cons.prems in simp_all)
    moreover have "packet_irqs (concat (p # ps)) = packet_irqs p @ packet_irqs (concat ps)" by (simp add: packet_irqs_def)
    moreover have "mouse_stream (packet_irqs p) (m, c) = Some (m\<lparr>g_packet := p\<rparr>, wheel_scroll p c)"
      by (rule mouse_packet) (use Cons.prems in simp_all)
    ultimately show ?case by (simp add: mouse_stream_append)
  qed (simp add: packet_irqs_def)
qed

definition sample_mouse :: mouse where
  "sample_mouse = \<lparr>g_packet = [0, 0, 0, 0], g_packet_index = 0, g_packet_size = 4, g_mouse_ready = True\<rparr>"

theorem mouse_packets_witness:
  "(\<exists>m' c'. mouse_stream [(1, 7), (0, 9)] (sample_mouse, sample_console) = Some (m', c') \<and> mouse_inv m') \<and>
    map_option snd (mouse_stream (packet_irqs (concat [[8, 1, 1, 2], [8, 0, 0, 0xFF]])) (sample_mouse, sample_console)) =
      Some (fold wheel_scroll [[8, 1, 1, 2], [8, 0, 0, 0xFF]] sample_console)"
proof -
  have "mouse_inv sample_mouse" by (simp add: mouse_inv_def sample_mouse_def)
  from mouse_packets [OF this, where bs = "[(1, 7), (0, 9)]" and c = sample_console and ps = "[[8, 1, 1, 2], [8, 0, 0, 0xFF]]"]
  show ?thesis by (simp add: sample_mouse_def)
qed

end
