(* ===== verification/Interrupt.thy ===== *)
theory Interrupt
  imports Shell Input
begin

text \<open>
  Model of \<^verbatim>\<open>src/kernel/interrupt.c\<close>: the interrupt descriptor table, the set-up of the interrupt
  controllers and of the timer, and the dispatcher that calls the drivers. The state \<open>platform\<close> adds
  the input drivers, the descriptor table and the tick counter to the system. What the devices hold
  ready when an interrupt is taken is an argument.
\<close>

record idt_entry =
  offset_low :: u16
  selector :: u16
  ist :: u8
  type_attr :: u8
  offset_mid :: u16
  offset_high :: u32
  zero :: u32

record platform =
  p_system :: system
  p_keyboard :: keyboard
  p_mouse :: mouse
  g_idt :: "idt_entry list"
  g_timer_ticks :: u64

definition port_out :: "(u16 \<times> u8) list \<Rightarrow> platform \<Rightarrow> platform" where
  "port_out ws p =
     (let k = y_kernel (p_system p)
      in p\<lparr>p_system := (p_system p)\<lparr>y_kernel := k\<lparr>k_io := k_io k @ map (\<lambda>(a, v). Out8 a v) ws\<rparr>\<rparr>\<rparr>)"

definition idt_set_gate :: "u8 \<Rightarrow> u64 \<Rightarrow> u8 \<Rightarrow> idt_entry list \<Rightarrow> idt_entry list" where
  "idt_set_gate vector address attr idt =
     idt[unat vector := \<lparr>offset_low = ucast (address AND 0xFFFF), selector = 0x08, ist = 0, type_attr = attr,
       offset_mid = ucast (drop_bit 16 address AND 0xFFFF), offset_high = ucast (drop_bit 32 address AND 0xFFFFFFFF), zero = 0\<rparr>]"

text \<open>\<^verbatim>\<open>io_wait\<close> writes to port 0x80.\<close>

definition pic_remap :: "(u16 \<times> u8) list" where
  "pic_remap =
     concat (map (\<lambda>w. [w, (0x80, 0)])
       [(0x20, 0x11), (0xA0, 0x11), (0x21, 0x20), (0xA1, 0x28), (0x21, 0x04), (0xA1, 0x02), (0x21, 0x01), (0xA1, 0x01)])
     @ [(0x21, 0xF8), (0xA1, 0xE7)]"

definition pit_program :: "u32 \<Rightarrow> (u16 \<times> u8) list" where
  "pit_program hz =
     (let divisor = ucast (1193182 div hz) :: u16
      in [(0x43, 0x36), (0x40, ucast (divisor AND 0xFF)), (0x40, ucast (drop_bit 8 divisor))])"

definition pic_send_eoi :: "u8 \<Rightarrow> (u16 \<times> u8) list" where
  "pic_send_eoi vector = (if vector \<ge> 40 then [(0xA0, 0x20)] else []) @ [(0x20, 0x20)]"

definition interrupt_init :: "(nat \<Rightarrow> u64) \<Rightarrow> platform \<Rightarrow> platform" where
  "interrupt_init isr_stub_table p =
     port_out (pic_remap @ pit_program 100)
       (p\<lparr>g_idt := fold (\<lambda>i. idt_set_gate (of_nat i) (isr_stub_table i) 0x8E) [0..<45] (g_idt p)\<rparr>)"

subsection \<open>Dispatch\<close>

record irq_input =
  q_status :: u8
  q_data :: u8

type_synonym irq_ret = "((power \<times> machine) + platform) option"

definition finish_irq :: "u8 \<Rightarrow> platform \<Rightarrow> irq_ret" where
  "finish_irq vector p = Some (Inr (port_out (pic_send_eoi vector) p))"

definition timer_irq :: "environment \<Rightarrow> platform \<Rightarrow> irq_ret" where
  "timer_irq x p =
     (case then_cmd (pass_ticks (x_hw x) 1 (p_system p))
             (\<lambda>_ y. finish_cmd 0 (y\<lparr>y_net := (y_net y)\<lparr>w_ticks := w_ticks (y_net y) + 1\<rparr>\<rparr>)) of
        None \<Rightarrow> None
      | Some (Inl stop) \<Rightarrow> Some (Inl stop)
      | Some (Inr (_, y)) \<Rightarrow> finish_irq 32 (p\<lparr>p_system := y, g_timer_ticks := g_timer_ticks p + 1\<rparr>))"

definition keyboard_irq :: "irq_input \<Rightarrow> platform \<Rightarrow> irq_ret" where
  "keyboard_irq q p =
     (case keyboard_handle_irq (q_status q) (q_data q) (p_keyboard p, con_of (p_system p)) of
        (kb, c) \<Rightarrow> finish_irq 33 (p\<lparr>p_keyboard := kb, p_system := set_con c (p_system p)\<rparr>))"

definition network_irq :: "environment \<Rightarrow> platform \<Rightarrow> irq_ret" where
  "network_irq x p =
     (let y = p_system p
      in case net_handle_irq (x_world x) ((y_net y)\<lparr>w_log := []\<rparr>) of
           None \<Rightarrow> None
         | Some s \<Rightarrow>
             (case reply 0 (w_log s) (y\<lparr>y_net := s\<rparr>) of
                Some (Inr (_, y1)) \<Rightarrow> finish_irq 43 (p\<lparr>p_system := y1\<rparr>)
              | _ \<Rightarrow> None))"

definition mouse_irq :: "irq_input \<Rightarrow> platform \<Rightarrow> irq_ret" where
  "mouse_irq q p =
     (case mouse_handle_irq (q_status q) (q_data q) (p_mouse p, con_of (p_system p)) of
        None \<Rightarrow> None
      | Some (ms, c) \<Rightarrow> finish_irq 44 (p\<lparr>p_mouse := ms, p_system := set_con c (p_system p)\<rparr>))"

definition cpu_exception :: "environment \<Rightarrow> u64 \<Rightarrow> u64 \<Rightarrow> u64 \<Rightarrow> platform \<Rightarrow> irq_ret" where
  "cpu_exception x vector error_code rip p =
     Some (Inl (kernel_panic (h_status (x_hw x)) ''unhandled processor exception''
       (say [Printf (''exception %u err=%u rip=%p'' @ nl) [vunsigned vector, vunsigned error_code, VInt rip]]
          (machine_of (y_kernel (p_system p))))))"

definition interrupt_dispatch :: "environment \<Rightarrow> irq_input \<Rightarrow> u64 \<Rightarrow> u64 \<Rightarrow> u64 \<Rightarrow> platform \<Rightarrow> irq_ret" where
  "interrupt_dispatch x q vector error_code rip p =
     (if vector = 32 then timer_irq x p
      else if vector = 33 then keyboard_irq q p
      else if vector = 43 then network_irq x p
      else if vector = 44 then mouse_irq q p
      else if vector < 32 then cpu_exception x vector error_code rip p
      else Some (Inr p))"

definition timer_ticks :: "platform \<Rightarrow> u64" where
  "timer_ticks p = g_timer_ticks p"

subsection \<open>Gates\<close>

text \<open>The address the processor puts together from a gate.\<close>

definition gate_address :: "idt_entry \<Rightarrow> u64" where
  "gate_address e = ucast (offset_low e) OR push_bit 16 (ucast (offset_mid e)) OR push_bit 32 (ucast (offset_high e))"

lemma join_pieces:
  "(ucast (ucast (a AND 0xFFFF) :: u16) OR push_bit 16 (ucast (ucast (drop_bit 16 a AND 0xFFFF) :: u16))
    OR push_bit 32 (ucast (ucast (drop_bit 32 a AND 0xFFFFFFFF) :: u32)) :: u64) = a"
proof (rule bit_word_eqI)
  have m: "(0xFFFF :: u64) = mask 16" "(0xFFFFFFFF :: u64) = mask 32" by (simp_all add: mask_eq_exp_minus_1)
  fix n assume "n < LENGTH(64)"
  then consider "n < 16" | "16 \<le> n" "n < 32" | "32 \<le> n" "n < 64" by fastforce
  then show "bit (ucast (ucast (a AND 0xFFFF) :: u16) OR push_bit 16 (ucast (ucast (drop_bit 16 a AND 0xFFFF) :: u16))
      OR push_bit 32 (ucast (ucast (drop_bit 32 a AND 0xFFFFFFFF) :: u32)) :: u64) n = bit a n"
    unfolding m by cases (auto simp: bit_simps)
qed

lemma set_gates:
  "m \<le> 256 \<Longrightarrow> length idt = 256 \<Longrightarrow> i < 256 \<Longrightarrow>
    length (fold (\<lambda>i. idt_set_gate (of_nat i) (f i) ty) [0..<m] idt) = 256 \<and>
    fold (\<lambda>i. idt_set_gate (of_nat i) (f i) ty) [0..<m] idt ! i =
      (if i < m then idt_set_gate (of_nat i) (f i) ty idt ! i else idt ! i)"
proof (induction m)
  case (Suc m)
  have u: "unat (of_nat k :: u8) = k" if "k < 256" for k using that by (simp add: unat_of_nat)
  show ?case using Suc u [of m] u [of i] by (auto simp: idt_set_gate_def nth_list_update less_Suc_eq)
qed simp

lemma interrupt_init_gates:
  assumes "length (g_idt p) = 256" and "i < 256"
  shows "let e = g_idt (interrupt_init stubs p) ! i
    in if i < 45 then gate_address e = stubs i \<and> selector e = 8 \<and> ist e = 0 \<and> type_attr e = 0x8E else e = g_idt p ! i"
proof -
  have u: "unat (of_nat k :: u8) = k" if "k < 256" for k using that by (simp add: unat_of_nat)
  have "gate_address (idt_set_gate (of_nat i) (stubs i) 0x8E (g_idt p) ! i) = stubs i" if "i < 45"
    using that assms u [of i] join_pieces [of "stubs i"] by (simp add: idt_set_gate_def gate_address_def)
  then show ?thesis
    using set_gates [of 45 "g_idt p" _ stubs "0x8E"] assms u
    by (auto simp: interrupt_init_def port_out_def Let_def) (simp_all add: idt_set_gate_def)
qed


definition sample_idt :: "idt_entry list" where
  "sample_idt = replicate 256 \<lparr>offset_low = 0, selector = 0, ist = 0, type_attr = 0, offset_mid = 0, offset_high = 0, zero = 0\<rparr>"


subsection \<open>Acknowledgement\<close>

lemma guard_tick_io: "memory_guard_tick status p (s, m) = Inr (s', m') \<Longrightarrow> m_io m' = m_io m"
  by (auto simp: memory_guard_tick_def Let_def split: if_splits)

lemma scheduler_tick_io: "scheduler_tick status p (s, m) = Inr (s', m') \<Longrightarrow> m_io m' = m_io m"
  using guard_tick_io by (fastforce simp: scheduler_tick_def Let_def split: if_splits)

lemma reply_frame:
  assumes "reply r cs y = Some (Inr (r', y'))"
  shows "\<exists>c. y' = set_con c y" and "r' = r"
  using assms by (auto simp: reply_def finish_cmd_def split: option.splits)

lemma set_con_sel [simp]:
  "k_io (y_kernel (set_con c y)) = k_io (y_kernel y)" "y_net (set_con c y) = y_net y" "y_pmm (set_con c y) = y_pmm y"
  "y_swap (set_con c y) = y_swap y" "k_sched (y_kernel (set_con c y)) = k_sched (y_kernel y)" "con_of (set_con c y) = c"
  by (simp_all add: set_con_def con_of_def)

lemma pass_tick_io:
  assumes "pass_ticks hw 1 y = Some (Inr (r, y'))"
  shows "k_io (y_kernel y') = k_io (y_kernel y)"
proof -
  obtain s m where t: "scheduler_tick (h_status hw) (y_pmm y) (k_sched (y_kernel y), machine_of (y_kernel y)) = Inr (s, m)"
    and r: "reply 0 (m_log m) (y\<lparr>y_kernel := (of_machine m (y_kernel y))\<lparr>k_sched := s\<rparr>\<rparr>) = Some (Inr (r, y'))"
    using assms by (auto simp: pass_ticks_def split: sum.splits)
  have "m_io m = k_io (y_kernel y)" using scheduler_tick_io [OF t] by (simp add: machine_of_def)
  then show ?thesis using reply_frame(1) [OF r] by (auto simp: of_machine_def)
qed

definition ack :: "u64 \<Rightarrow> io_op list" where
  "ack vector =
     (if vector = 32 \<or> vector = 33 then [Out8 0x20 0x20]
      else if vector = 43 \<or> vector = 44 then [Out8 0xA0 0x20, Out8 0x20 0x20] else [])"


end
