(* ===== verification/Platform.thy ===== *)
theory Platform
  imports Net_Props Interrupt
begin

text \<open>
  The machine as a whole: monitor commands and the shell, interrupts and system calls work on one
  state, in any order. The theory shows that together they keep the invariants of all components and
  that the clocks of the components agree: the tick counter of the interrupt code, the uptime of the
  scheduler and the time the network stack waits by.
\<close>

subsection \<open>The invariant\<close>

definition uptime :: "system \<Rightarrow> u64" where
  "uptime y = g_uptime_ticks (k_sched (y_kernel y))"

text \<open>No page is taken or given back after boot, so the memory guard keeps seeing the pages it started with.\<close>

definition calm :: "system \<Rightarrow> bool" where
  "calm y \<longleftrightarrow> g_memguard_boot_free_pages (k_sched (y_kernel y)) = pmm_free_pages (y_pmm y) \<and>
     g_memguard_prev_free_pages (k_sched (y_kernel y)) = pmm_free_pages (y_pmm y)"

definition parts_inv :: "system \<Rightarrow> bool" where
  "parts_inv y \<longleftrightarrow> kernel_inv (y_kernel y) \<and> pmm_inv (y_pmm y) \<and> swap_inv (y_swap y) \<and> net_inv (y_net y) \<and> calm y"

definition system_inv :: "system \<Rightarrow> bool" where
  "system_inv y \<longleftrightarrow> parts_inv y \<and> w_ticks (y_net y) = uptime y"

definition platform_inv :: "platform \<Rightarrow> bool" where
  "platform_inv p \<longleftrightarrow> system_inv (p_system p) \<and> mouse_inv (p_mouse p) \<and> g_timer_ticks p = uptime (p_system p)"

lemma parts_con: "parts_inv y \<Longrightarrow> console_inv (con_of y)"
  by (simp add: parts_inv_def kernel_inv_def vfs_inv_def con_of_def)

lemma parts_set_con: "parts_inv y \<Longrightarrow> console_inv c \<Longrightarrow> parts_inv (set_con c y)"
  by (simp add: parts_inv_def calm_def kernel_inv_def set_con_def vfs_inv_con)

lemma uptime_set_con [simp]: "uptime (set_con c y) = uptime y"
  by (simp add: uptime_def set_con_def)

lemma system_con: "system_inv y \<Longrightarrow> console_inv (con_of y)"
  by (simp add: system_inv_def parts_con)

lemma system_set_con: "system_inv y \<Longrightarrow> console_inv c \<Longrightarrow> system_inv (set_con c y)"
  by (simp add: system_inv_def parts_set_con)

lemma reply_parts:
  assumes "parts_inv y" and "reply r cs y = Some (Inr (r', y'))"
  shows "parts_inv y'" and "y_net y' = y_net y" and "uptime y' = uptime y" and "r' = r"
proof -
  obtain c where "run_log cs (con_of y) = Some c" "y' = set_con c y" "r' = r"
    using assms(2) by (auto simp: reply_def finish_cmd_def split: option.splits)
  then show "parts_inv y'" "y_net y' = y_net y" "uptime y' = uptime y" "r' = r"
    using run_log_inv [OF parts_con [OF assms(1)]] parts_set_con [OF assms(1)] by simp_all
qed

subsection \<open>Messages\<close>

text \<open>A call that can be performed: its arguments match the format, or the pattern has no placeholder.\<close>

fun printable :: "con_call \<Rightarrow> bool" where
  "printable (Printf f a) \<longleftrightarrow> printf_text f a \<noteq> None"
| "printable (Writeln p a) \<longleftrightarrow> CHR ''{'' \<notin> set p"

lemma printable_runs: "printable k \<Longrightarrow> \<exists>d. run_call k c = Some d"
proof (cases k)
  case (Printf f a)
  assume "printable k"
  then show ?thesis
    by (auto simp: Printf console_printf_def kvsnprintf_def kvsnprintf_loop_emit split: option.splits prod.splits)
next
  case (Writeln p a)
  assume "printable k"
  then obtain d where "console_write p a c = Some d" using console_write_plain_ok Writeln by fastforce
  then show ?thesis by (simp add: Writeln console_writeln_def console_write_def)
qed

lemma printable_log: "list_all printable ks \<Longrightarrow> console_inv c \<Longrightarrow> \<exists>d. run_log ks c = Some d \<and> console_inv d"
proof (induction ks arbitrary: c)
  case (Cons k ks)
  obtain d where "run_call k c = Some d" using printable_runs Cons.prems(1) by fastforce
  then show ?case using Cons run_call_inv [OF Cons.prems(2)] by simp
qed simp

subsection \<open>Time\<close>

lemma tick_effect:
  assumes "scheduler_tick status p (s, m) = Inr (s', m')"
  shows "g_uptime_ticks s' = g_uptime_ticks s + 1 \<and> m_tasks m' = run_event (Tick (g_uptime_ticks s + 1)) (m_tasks m) \<and>
    g_memguard_boot_free_pages s' = g_memguard_boot_free_pages s \<and>
    g_memguard_prev_free_pages s' \<in> {g_memguard_prev_free_pages s, pmm_free_pages p}"
  using assms by (auto simp: scheduler_tick_def memory_guard_tick_def Let_def split: if_splits)

lemma elapse_effect:
  assumes "elapse status p n (s, m) = Inr (s', m')"
  shows "g_uptime_ticks s' = g_uptime_ticks s + of_nat n \<and> (\<exists>evs. m_tasks m' = fold run_event evs (m_tasks m)) \<and>
    g_memguard_boot_free_pages s' = g_memguard_boot_free_pages s \<and>
    g_memguard_prev_free_pages s' \<in> {g_memguard_prev_free_pages s, pmm_free_pages p}"
  using assms
proof (induction n arbitrary: s m)
  case 0
  then show ?case by (auto intro: exI [of _ "[]"])
next
  case (Suc n)
  obtain s1 m1 where t: "scheduler_tick status p (s, m) = Inr (s1, m1)" "elapse status p n (s1, m1) = Inr (s', m')"
    using Suc.prems by (auto split: sum.splits)
  obtain evs where e: "g_uptime_ticks s' = g_uptime_ticks s1 + of_nat n" "m_tasks m' = fold run_event evs (m_tasks m1)"
      "g_memguard_boot_free_pages s' = g_memguard_boot_free_pages s1"
      "g_memguard_prev_free_pages s' \<in> {g_memguard_prev_free_pages s1, pmm_free_pages p}"
    using Suc.IH [OF t(2)] by blast
  show ?case using tick_effect [OF t(1)] e
    by (auto intro!: exI [of _ "Tick (g_uptime_ticks s + 1) # evs"])
qed

lemma kernel_events_inv: "kernel_inv k \<Longrightarrow> kernel_inv (set_tasks (fold run_event evs (tasks k)) k)"
proof (induction evs arbitrary: k)
  case (Cons ev evs)
  let ?k = "set_tasks (run_event ev (tasks k)) k"
  have "kernel_inv (set_tasks (fold run_event evs (tasks ?k)) ?k)" by (rule Cons.IH [OF inv_event [OF Cons.prems]])
  then show ?case by (simp add: set_tasks_def tasks_def)
qed (simp add: set_tasks_def tasks_def)

lemma pass_ticks_parts:
  assumes inv: "parts_inv y" and p: "pass_ticks hw n y = Some (Inr (r, y'))"
  shows "parts_inv y' \<and> y_net y' = y_net y \<and> uptime y' = uptime y + of_nat n"
proof -
  obtain s m where e: "elapse (h_status hw) (y_pmm y) n (k_sched (y_kernel y), machine_of (y_kernel y)) = Inr (s, m)"
    and rp: "reply 0 (m_log m) (y\<lparr>y_kernel := (of_machine m (y_kernel y))\<lparr>k_sched := s\<rparr>\<rparr>) = Some (Inr (r, y'))"
    using p by (auto simp: pass_ticks_def split: sum.splits prod.splits)
  obtain evs where ev: "m_tasks m = fold run_event evs (tasks (y_kernel y))" and up: "g_uptime_ticks s = uptime y + of_nat n"
    and cm: "g_memguard_boot_free_pages s = pmm_free_pages (y_pmm y)" "g_memguard_prev_free_pages s = pmm_free_pages (y_pmm y)"
    using elapse_effect [OF e] inv by (auto simp: machine_of_def uptime_def parts_inv_def calm_def)
  have "kernel_inv (y_kernel y)" using inv by (simp add: parts_inv_def)
  from kernel_events_inv [OF this, of evs] have "parts_inv (y\<lparr>y_kernel := (of_machine m (y_kernel y))\<lparr>k_sched := s\<rparr>\<rparr>)"
    using inv ev cm by (simp add: parts_inv_def calm_def kernel_inv_def of_machine_def set_tasks_def)
  from reply_parts [OF this rp] up show ?thesis by (simp add: uptime_def)
qed

text \<open>Without a leak signature the memory guard only observes: ticks never stop the machine.\<close>

lemma free_pages_small: "pmm_inv p \<Longrightarrow> \<not> pmm_free_pages p + 256 < pmm_free_pages p"
proof -
  assume "pmm_inv p"
  then have "unat (pmm_free_pages p) = card (free_set p)" by (simp add: pmm_inv_def pmm_free_pages_def)
  also have "\<dots> \<le> card {..<PMM_MAX_PAGES}" by (rule card_mono) (auto simp: free_set_def)
  finally have "unat (pmm_free_pages p) \<le> 1048576" by (simp add: PMM_MAX_PAGES_def)
  then show ?thesis by (simp add: word_less_nat_alt unat_word_ariths)
qed

lemma tick_calm:
  assumes "pmm_inv p" "g_memguard_boot_free_pages s = pmm_free_pages p" "g_memguard_prev_free_pages s = pmm_free_pages p"
    and "list_all printable (m_log m)"
  obtains s' m' where "scheduler_tick status p (s, m) = Inr (s', m')" "list_all printable (m_log m')"
proof -
  have "\<not> leak_signature p s" using free_pages_small [OF assms(1)] assms(2,3) by (simp add: leak_signature_def)
  then have "\<exists>s' m'. scheduler_tick status p (s, m) = Inr (s', m') \<and> list_all printable (m_log m')"
    using assms(4) by (simp add: scheduler_tick_def memory_guard_tick_def leak_signature_def Let_def say_def vunsigned_def)
  then show thesis using that by blast
qed

lemma elapse_calm:
  assumes "pmm_inv p" "g_memguard_boot_free_pages s = pmm_free_pages p" "g_memguard_prev_free_pages s = pmm_free_pages p"
    and "list_all printable (m_log m)"
  shows "\<exists>s' m'. elapse status p n (s, m) = Inr (s', m') \<and> list_all printable (m_log m')"
  using assms(2-)
proof (induction n arbitrary: s m)
  case (Suc n)
  obtain s1 m1 where t: "scheduler_tick status p (s, m) = Inr (s1, m1)" "list_all printable (m_log m1)"
    by (rule tick_calm [OF assms(1) Suc.prems])
  show ?case using Suc.IH [of s1 m1] tick_effect [OF t(1)] t Suc.prems by auto
qed simp

lemma reply_ok: "parts_inv y \<Longrightarrow> list_all printable cs \<Longrightarrow> \<exists>y'. reply r cs y = Some (Inr (r, y')) \<and> parts_inv y'"
  using printable_log [OF _ parts_con] parts_set_con by (fastforce simp: reply_def finish_cmd_def)

lemma pass_ticks_returns:
  assumes inv: "parts_inv y"
  obtains y' where "pass_ticks hw n y = Some (Inr (0, y'))"
proof -
  let ?k = "y_kernel y"
  obtain s m where e: "elapse (h_status hw) (y_pmm y) n (k_sched ?k, machine_of ?k) = Inr (s, m)" "list_all printable (m_log m)"
    using elapse_calm [of "y_pmm y" "k_sched ?k" "machine_of ?k" "h_status hw" n] inv
    by (auto simp: parts_inv_def calm_def machine_of_def)
  let ?y = "y\<lparr>y_kernel := (of_machine m ?k)\<lparr>k_sched := s\<rparr>\<rparr>"
  have "con_of ?y = con_of y" by (simp add: con_of_def of_machine_def set_tasks_def)
  then obtain c where "run_log (m_log m) (con_of ?y) = Some c" using printable_log [OF e(2) parts_con [OF inv]] by auto
  then have "pass_ticks hw n y = Some (Inr (0, set_con c ?y))" by (simp add: pass_ticks_def e(1) reply_def finish_cmd_def)
  then show thesis by (rule that)
qed

subsection \<open>Commands\<close>

text \<open>A command is sound when the state it comes back with satisfies the invariant.\<close>

definition sound :: "cmd_ret \<Rightarrow> bool" where
  "sound res \<longleftrightarrow> (\<forall>r y. res = Some (Inr (r, y)) \<longrightarrow> system_inv y)"

named_theorems soundness

lemma sound_finish [soundness]: "system_inv y \<Longrightarrow> sound (finish_cmd r y)"
  by (simp add: sound_def finish_cmd_def)

lemma sound_reply [soundness]: "system_inv y \<Longrightarrow> sound (reply r cs y)"
  using reply_parts by (auto simp: sound_def system_inv_def)

lemma sound_then [soundness]: "sound m \<Longrightarrow> (\<And>r y. system_inv y \<Longrightarrow> sound (f r y)) \<Longrightarrow> sound (then_cmd m f)"
  by (auto simp: sound_def then_cmd_def split: option.splits sum.splits)

lemma sound_if [soundness]: "sound a \<Longrightarrow> sound b \<Longrightarrow> sound (if c then a else b)"
  by simp

lemma sound_option: "(x = None \<Longrightarrow> sound a) \<Longrightarrow> (\<And>v. x = Some v \<Longrightarrow> sound (f v)) \<Longrightarrow> sound (case x of None \<Rightarrow> a | Some v \<Rightarrow> f v)"
  by (cases x) auto

lemma sound_prod: "(\<And>a b. x = (a, b) \<Longrightarrow> sound (f a b)) \<Longrightarrow> sound (case x of (a, b) \<Rightarrow> f a b)"
  by (cases x) auto

lemma sound_stop [soundness]: "sound (stop_after c f y)"
  by (simp add: sound_def stop_after_def)

lemma sound_net_cmd:
  assumes inv: "system_inv y" and f: "\<And>s r t. net_inv s \<Longrightarrow> f (x_world x) s = Some (r, t) \<Longrightarrow> net_inv t"
  shows "sound (net_cmd x f y)"
  unfolding sound_def
proof (intro allI impI)
  fix r y' assume nc: "net_cmd x f y = Some (Inr (r, y'))"
  obtain q s where s: "f (x_world x) ((y_net y)\<lparr>w_log := []\<rparr>) = Some (q, s)" using nc by (auto simp: net_cmd_def split: option.splits)
  have "net_inv ((y_net y)\<lparr>w_log := []\<rparr>)" using inv by (simp add: system_inv_def parts_inv_def net_inv_def)
  from f [OF this s] have p0: "parts_inv (y\<lparr>y_net := s\<rparr>)" using inv by (simp add: system_inv_def parts_inv_def calm_def)
  let ?n = "unat (w_ticks s - w_ticks (y_net y))"
  obtain y1 r1 where y1: "reply q (w_log s) (y\<lparr>y_net := s\<rparr>) = Some (Inr (q, y1))" "pass_ticks (x_hw x) ?n y1 = Some (Inr (r1, y'))"
    using nc s reply_parts(4) [OF p0] by (auto simp: net_cmd_def then_cmd_def finish_cmd_def split: option.splits sum.splits)
  note r = reply_parts [OF p0 y1(1)]
  show "system_inv y'" using pass_ticks_parts [OF r(1) y1(2)] r inv by (simp add: system_inv_def uptime_def)
qed

lemma sound_net_operations:
  assumes inv: "system_inv y" and t: "timer_runs (x_world x)"
  shows "sound (net_cmd x (\<lambda>w s. map_option (Pair 0) (net_scan_nearby w s)) y)"
    "sound (net_cmd x (\<lambda>w. net_connect_target w target) y)" "sound (net_cmd x (\<lambda>w. net_ping w target count) y)"
  using scan_returns [OF t] connect_returns [OF t, of _ target] ping_returns [OF t, of _ target count]
  by (intro sound_net_cmd [OF inv]; fastforce)+

lemma parts_upd_swap: "system_inv y \<Longrightarrow> swap_inv s \<Longrightarrow> system_inv (y\<lparr>y_swap := s\<rparr>)"
  by (simp add: system_inv_def parts_inv_def calm_def uptime_def)

lemma sound_swap: "system_inv y \<Longrightarrow> sound (cmd_swap x argv y)"
proof -
  assume inv: "system_inv y"
  then have sw: "swap_inv (y_swap y)" by (simp add: system_inv_def parts_inv_def)
  have "swap_inv (swap_disable (y_swap y))" using sw by (simp add: swap_disable_def swap_inv_def)
  moreover have "swap_inv t" if "swap_enable n (y_swap y) = (r, t)" for n r t by (rule swap_enable_inv [OF sw that])
  moreover have "swap_inv t" if "swap_set_used_pages n (y_swap y) = (r, t)" for n r t by (rule swap_set_used_inv [OF sw that])
  ultimately have "\<And>n r t. swap_enable n (y_swap y) = (r, t) \<Longrightarrow> system_inv (y\<lparr>y_swap := t\<rparr>)"
    "\<And>n r t. swap_set_used_pages n (y_swap y) = (r, t) \<Longrightarrow> system_inv (y\<lparr>y_swap := t\<rparr>)" "system_inv (y\<lparr>y_swap := swap_disable (y_swap y)\<rparr>)"
    using parts_upd_swap [OF inv] by blast+
  then show ?thesis unfolding cmd_swap_def Let_def
    by (intro sound_if sound_option sound_prod sound_reply) (assumption | rule inv)+
qed

lemma sound_nearby: "system_inv y \<Longrightarrow> timer_runs (x_world x) \<Longrightarrow> sound (cmd_nearby x argv y)"
  unfolding cmd_nearby_def by (rule sound_then [OF sound_net_operations(1)]) (auto intro: soundness)

lemma sound_connect: "system_inv y \<Longrightarrow> timer_runs (x_world x) \<Longrightarrow> sound (cmd_connect x argv y)"
  unfolding cmd_connect_def by (intro sound_if sound_reply sound_then [OF sound_net_operations(2)])

lemma set_policy_inv: "system_inv y \<Longrightarrow> system_inv (set_policy a y)"
  by (simp add: set_policy_def system_inv_def parts_inv_def calm_def uptime_def kernel_inv_def of_machine_def machine_of_def
      safeboot_set_action_def set_tasks_def tasks_def)

lemma sound_mgctl: "system_inv y \<Longrightarrow> timer_runs (x_world x) \<Longrightarrow> sound (cmd_mgctl x argv y)"
  unfolding cmd_mgctl_def mgctl_net_def mgctl_power_def
  by (intro sound_if sound_reply sound_stop sound_nearby sound_connect set_policy_inv)

lemma write_inv: "console_write pat args c = Some d \<Longrightarrow> console_inv c \<Longrightarrow> console_inv d"
  unfolding console_write_def by (rule console_write_inv)

lemma sound_echo:
  assumes inv: "system_inv y"
  shows "sound (cmd_echo x argv y)"
proof -
  have "console_inv c'" if "echo_args as c = Some c'" "console_inv c" for as c c'
    using that
    by (induction as c rule: echo_args.induct) (auto split: option.splits dest!: write_inv intro: console_putc_inv)
  then have "console_inv (console_putc CHR 0x0A c)" if "echo_args (tl argv) (con_of y) = Some c" for c
    using that system_con [OF inv] console_putc_inv by blast
  then show ?thesis using system_set_con [OF inv] by (auto simp: cmd_echo_def sound_def finish_cmd_def split: option.splits)
qed

lemma sound_ping: "system_inv y \<Longrightarrow> timer_runs (x_world x) \<Longrightarrow> sound (cmd_ping x argv y)"
  unfolding cmd_ping_def by (auto split: option.splits intro!: soundness sound_net_operations(3))

lemma sound_clear: "system_inv y \<Longrightarrow> sound (cmd_clear x argv y)"
proof -
  assume inv: "system_inv y"
  have "console_inv (console_clear (con_of y))"
    by (rule console_clear_inv) (use system_con [OF inv] in \<open>simp add: console_inv_def ring_inv_def\<close>)
  then show ?thesis using system_set_con [OF inv] by (simp add: cmd_clear_def sound_finish)
qed

lemma commands_sound:
  assumes inv: "system_inv y" and t: "timer_runs (x_world x)" and f: "(n, f) \<in> set k_commands"
  shows "sound (f x argv y)"
proof -
  have "f \<in> set [cmd_help, cmd_clear, cmd_echo, cmd_sysinfo, cmd_tasks, cmd_fsls, cmd_meminfo, cmd_swap, cmd_eth, cmd_nearby,
        cmd_connect, cmd_ping, cmd_mgctl, cmd_shutdown, cmd_reboot]"
    using f unfolding k_commands_def by (rule set_zip_rightD)
  moreover have "sound (cmd_help x argv y)" "sound (cmd_sysinfo x argv y)" "sound (cmd_tasks x argv y)" "sound (cmd_meminfo x argv y)"
    "sound (cmd_eth x argv y)" "sound (cmd_shutdown x argv y)" "sound (cmd_reboot x argv y)"
    using inv by (simp_all add: cmd_help_def cmd_sysinfo_def cmd_tasks_def cmd_meminfo_def cmd_eth_def cmd_shutdown_def cmd_reboot_def soundness)
  moreover have "sound (cmd_fsls x argv y)" using inv by (auto simp: cmd_fsls_def sound_def [of None] split: option.splits intro: soundness)
  ultimately show ?thesis
    using sound_swap [OF inv] sound_nearby [OF inv t] sound_connect [OF inv t] sound_mgctl [OF inv t] sound_echo [OF inv]
      sound_ping [OF inv t] sound_clear [OF inv] by auto
qed

subsection \<open>The shell\<close>

definition shell_sound :: "cli_ret \<Rightarrow> bool" where
  "shell_sound res \<longleftrightarrow> (\<forall>s y. res = Some (Inr (s, y)) \<longrightarrow> system_inv y)"

named_theorems shell_rules

lemma shell_None [shell_rules]: "shell_sound None"
  by (simp add: shell_sound_def)

lemma shell_keep [shell_rules]: "system_inv y \<Longrightarrow> shell_sound (keep s y)"
  by (simp add: shell_sound_def keep_def)

lemma shell_if [shell_rules]: "shell_sound a \<Longrightarrow> shell_sound b \<Longrightarrow> shell_sound (if c then a else b)"
  by simp

lemma set_color_hex_inv: "console_inv c \<Longrightarrow> console_inv (console_set_color_hex f b c)"
  by (simp add: console_set_color_hex_def console_set_color_rgb_inv)

lemma print_prompt_inv: "print_prompt c = Some d \<Longrightarrow> console_inv c \<Longrightarrow> console_inv d"
  unfolding print_prompt_def console_reset_color_def
  by (auto split: option.splits dest!: write_inv intro: set_color_hex_inv)

lemma render_line_inv: "render_line s c = Some d \<Longrightarrow> console_inv c \<Longrightarrow> console_inv d"
  unfolding render_line_def Let_def
  by (auto split: option.splits dest!: print_prompt_inv intro: console_putc_inv console_write_n_inv)

lemma shell_redraw [shell_rules]: "system_inv y \<Longrightarrow> shell_sound (redraw s y)"
  using render_line_inv [OF _ system_con] system_set_con
  by (auto simp: redraw_def split: option.splits intro!: shell_rules)

lemma shell_prompt [shell_rules]: "system_inv y \<Longrightarrow> shell_sound (prompt_after s y)"
  using print_prompt_inv [OF _ system_con] system_set_con
  by (auto simp: prompt_after_def split: option.splits intro!: shell_rules)

lemma shell_clear [shell_rules]: "system_inv y \<Longrightarrow> shell_sound (clear_redraw s y)"
  by (auto simp: clear_redraw_def split: option.splits intro!: shell_rules)

lemma dispatch_sound:
  assumes "system_inv y" and "timer_runs (x_world x)"
  shows "sound (snd (dispatch_line x line y))"
proof -
  obtain argv l where t: "tokenize 0 line = (argv, l)" by fastforce
  show ?thesis
  proof (cases "find (\<lambda>(n, f). kstrcmp n (argv ! 0) = 0) k_commands")
    case None
    then show ?thesis using assms(1) t by (auto simp: dispatch_line_def intro: soundness)
  next
    case (Some nf)
    then obtain n f where "nf = (n, f)" "(n, f) \<in> set k_commands" by (metis find_Some_iff nth_mem surj_pair)
    then show ?thesis using Some t assms commands_sound by (auto simp: dispatch_line_def intro: soundness)
  qed
qed

lemma shell_enter:
  assumes inv: "system_inv y" and t: "timer_runs (x_world x)"
  shows "shell_sound (enter x s y)"
proof -
  let ?y = "set_con (console_putc CHR 0x0A (con_of y)) y"
  have "system_inv ?y" using system_set_con [OF inv console_putc_inv [OF system_con [OF inv]]] .
  then have "sound (snd (dispatch_line x l ?y))" for l using dispatch_sound t by blast
  then have "system_inv y1" if "dispatch_line x l ?y = (l1, Some (Inr (r, y1)))" for l l1 r y1
    using that by (metis snd_conv sound_def)
  then show ?thesis unfolding enter_def
    by (auto split: option.splits prod.splits sum.splits intro!: shell_rules simp: shell_sound_def [of "Some (Inl _)"])
qed

lemma shell_key:
  assumes inv: "system_inv y" and t: "timer_runs (x_world x)"
  shows "shell_sound (cli_key x c s y)"
proof -
  have "system_inv (set_con d y)" if "console_write p a (con_of y) = Some d" for p a d
    by (rule system_set_con [OF inv write_inv [OF that system_con [OF inv]]])
  then have "shell_sound (case console_write p a (con_of y) of None \<Rightarrow> None | Some d \<Rightarrow> prompt_after s (set_con d y))" for p a
    by (auto split: option.splits intro: shell_rules)
  moreover have "shell_sound (recall_line s y)" "shell_sound (erase s y)" "shell_sound (insert_char c s y)"
    using inv unfolding recall_line_def erase_def insert_char_def by (auto split: option.splits intro!: shell_rules)
  ultimately show ?thesis unfolding cli_key_def
    using inv by (intro shell_if shell_keep shell_redraw shell_clear shell_enter [OF inv t]) simp_all
qed

lemma shell_poll:
  assumes inv: "system_inv y" and t: "timer_runs (x_world x)"
  shows "shell_sound (cli_poll x rx s y)"
proof -
  obtain r c where r: "console_try_read_char rx (con_of y) = (r, c)" by fastforce
  have i: "system_inv (set_con c y)" by (rule system_set_con [OF inv try_read_inv [OF system_con [OF inv] r]])
  have "shell_sound (map_option (map_sum (\<lambda>p. p) (\<lambda>(s1, y1). (s1\<lparr>c_esc := 0\<rparr>, y1))) (clear_redraw s (set_con c y)))"
    using shell_clear [OF i, of s] by (cases "clear_redraw s (set_con c y)"; cases "the (clear_redraw s (set_con c y))") (auto simp: shell_sound_def)
  then have "shell_sound (cli_input x ch s (set_con c y))" for ch
    using i shell_key [OF i t] by (auto simp: cli_input_def intro: shell_rules)
  then show ?thesis using i by (auto simp: cli_poll_def r split: option.splits intro: shell_rules)
qed

subsection \<open>System calls do not move the clock\<close>

definition timeless :: "kernel \<Rightarrow> sysret \<Rightarrow> bool" where
  "timeless k res \<longleftrightarrow> (\<forall>r k'. res = Some (Inr (r, k')) \<longrightarrow> k_sched k' = k_sched k)"

named_theorems clock

lemma timeless_basic [clock]:
  "k_sched k' = k_sched k \<Longrightarrow> timeless k (ret r k')" "timeless k None" "timeless k (Some (Inl stop))" "timeless k (ret_vfs res k)"
  by (auto simp: timeless_def ret_def ret_vfs_def split: option.splits)

lemma timeless_with_path [clock]: "(\<And>q. timeless k (f q)) \<Longrightarrow> timeless k (with_path a k f)"
  by (auto simp: with_path_def intro: clock split: option.split)

lemma timeless_put_stat [clock]: "timeless k (put_stat q res k)"
  by (auto simp: put_stat_def put_user_def intro!: clock split: prod.splits option.splits)

lemma sched_upd [simp]:
  "k_sched (put_user q bs k) = k_sched k" "k_sched (set_mm mm k) = k_sched k" "k_sched (set_tasks tt k) = k_sched k"
  by (simp_all add: put_user_def set_mm_def set_tasks_def)

lemmas handler_defs = sys_read_def sys_write_def sys_open_def sys_openat_def sys_close_def sys_stat_def sys_fstat_def sys_lseek_def
  sys_mmap_def sys_mprotect_def sys_munmap_def sys_brk_def sys_rt_sigaction_def sys_ioctl_def sys_sched_yield_def sys_nanosleep_def
  sys_getpid_def sys_signal_def sys_fork_def sys_execve_def sys_exit_def sys_wait4_def sys_kill_def sys_uname_def copy_uname_def
  sys_getcwd_def sys_chdir_def sys_mkdir_def sys_rmdir_def sys_unlink_def sys_gettimeofday_def sys_reboot_def Let_def

lemma handlers_timeless: "list_all (\<lambda>(n, h). timeless k (h a0 a1 a2 a3 a4 a5 k)) (g_syscall_table hw)"
  unfolding g_syscall_table_def list.pred_inject prod.case handler_defs
  by (intro conjI TrueI) (auto split: option.split prod.split intro!: clock)

lemma dispatch_timeless: "timeless k (syscall_dispatch hw nr a0 a1 a2 a3 a4 a5 k)"
  using handlers_timeless [of k a0 a1 a2 a3 a4 a5 hw]
  by (auto simp: syscall_dispatch_def list_all_iff intro!: clock split: option.splits dest!: map_of_SomeD)

subsection \<open>Interrupts\<close>

lemma port_out_sel [simp]:
  "p_mouse (port_out ws p) = p_mouse p" "g_timer_ticks (port_out ws p) = g_timer_ticks p"
  "uptime (p_system (port_out ws p)) = uptime (p_system p)"
  by (simp_all add: port_out_def uptime_def Let_def)

lemma system_port_out: "system_inv (p_system (port_out ws p)) = system_inv (p_system p)"
  by (simp add: port_out_def system_inv_def parts_inv_def calm_def kernel_inv_def uptime_def Let_def)

lemma platform_port_out: "platform_inv (port_out ws p) = platform_inv p"
  by (simp add: platform_inv_def system_port_out)

lemma finish_irq_inv: "platform_inv p \<Longrightarrow> finish_irq v p = Some (Inr p') \<Longrightarrow> platform_inv p'"
  by (auto simp: finish_irq_def platform_port_out)

lemma timer_irq_inv:
  assumes inv: "platform_inv p" and t: "timer_irq x p = Some (Inr p')"
  shows "platform_inv p'"
proof -
  let ?y = "p_system p"
  obtain r y where y: "pass_ticks (x_hw x) 1 ?y = Some (Inr (r, y))"
    and f: "finish_irq 32 (p\<lparr>p_system := y\<lparr>y_net := (y_net y)\<lparr>w_ticks := w_ticks (y_net y) + 1\<rparr>\<rparr>, g_timer_ticks := g_timer_ticks p + 1\<rparr>) = Some (Inr p')"
    using t by (auto simp: timer_irq_def then_cmd_def finish_cmd_def split: option.splits sum.splits)
  have "parts_inv ?y" using inv by (simp add: platform_inv_def system_inv_def)
  note q = pass_ticks_parts [OF this y]
  show ?thesis
    by (rule finish_irq_inv [OF _ f])
      (use inv q in \<open>simp add: platform_inv_def system_inv_def parts_inv_def calm_def uptime_def net_inv_def\<close>)
qed

lemma keyboard_irq_inv:
  assumes inv: "platform_inv p" and k: "keyboard_irq q p = Some (Inr p')"
  shows "platform_inv p'"
proof -
  have s: "system_inv (p_system p)" using inv by (simp add: platform_inv_def)
  obtain kb c where h: "keyboard_handle_irq (q_status q) (q_data q) (p_keyboard p, con_of (p_system p)) = (kb, c)" by fastforce
  then have "console_inv c" using system_con [OF s] by (auto simp: keyboard_handle_irq_def Let_def enqueue_inv split: if_splits)
  from system_set_con [OF s this] show ?thesis
    by (intro finish_irq_inv [OF _ k [unfolded keyboard_irq_def h prod.case]]) (use inv in \<open>simp add: platform_inv_def\<close>)
qed

lemma network_irq_inv:
  assumes inv: "platform_inv p" and n: "network_irq x p = Some (Inr p')"
  shows "platform_inv p'"
proof -
  let ?y = "p_system p"
  have s: "parts_inv ?y" "w_ticks (y_net ?y) = uptime ?y" using inv by (auto simp: platform_inv_def system_inv_def)
  have "net_inv ((y_net ?y)\<lparr>w_log := []\<rparr>)" using s by (simp add: parts_inv_def net_inv_def)
  then obtain t where t: "net_handle_irq (x_world x) ((y_net ?y)\<lparr>w_log := []\<rparr>) = Some t" "net_inv t" "w_ticks t = w_ticks (y_net ?y)"
    using net_handle_irq_ok by (fastforce simp: rx_keeps_def)
  have pt: "parts_inv (?y\<lparr>y_net := t\<rparr>)" using s t(2) by (simp add: parts_inv_def calm_def)
  obtain r y1 where y1: "reply 0 (w_log t) (?y\<lparr>y_net := t\<rparr>) = Some (Inr (r, y1))" and f: "finish_irq 43 (p\<lparr>p_system := y1\<rparr>) = Some (Inr p')"
    using n t(1) by (auto simp: network_irq_def Let_def split: option.splits sum.splits)
  note q = reply_parts [OF pt y1]
  show ?thesis
    by (rule finish_irq_inv [OF _ f]) (use inv q s t(3) in \<open>simp add: platform_inv_def system_inv_def uptime_def\<close>)
qed

lemma mouse_irq_inv:
  assumes inv: "platform_inv p" and m: "mouse_irq q p = Some (Inr p')" and v: "g_view_start (con_of (p_system p)) < 2 ^ 64"
  shows "platform_inv p'"
proof -
  have s: "system_inv (p_system p)" and mi: "mouse_inv (p_mouse p)" using inv by (auto simp: platform_inv_def)
  obtain ms c where h: "mouse_handle_irq (q_status q) (q_data q) (p_mouse p, con_of (p_system p)) = Some (ms, c)" "mouse_inv ms"
    by (rule mouse_irq_ok [OF mi])
  have "c = con_of (p_system p) \<or> (\<exists>d. c = console_scroll_view d (con_of (p_system p)))"
    using h(1) by (auto simp: mouse_handle_irq_def Let_def split: if_splits)
  then have "console_inv c" using system_con [OF s] v console_scroll_view_inv by blast
  from system_set_con [OF s this] show ?thesis
    by (intro finish_irq_inv [OF _ m [unfolded mouse_irq_def h(1) option.case prod.case]]) (use inv h(2) in \<open>simp add: platform_inv_def\<close>)
qed

lemma interrupt_inv:
  assumes inv: "platform_inv p" and d: "interrupt_dispatch x q vector err rip p = Some (Inr p')"
    and v: "vector = 44 \<longrightarrow> g_view_start (con_of (p_system p)) < 2 ^ 64"
  shows "platform_inv p'"
proof -
  have "timer_irq x p = Some (Inr p') \<or> keyboard_irq q p = Some (Inr p') \<or> network_irq x p = Some (Inr p') \<or>
      vector = 44 \<and> mouse_irq q p = Some (Inr p') \<or> p' = p"
    using d by (auto simp: interrupt_dispatch_def cpu_exception_def split: if_splits)
  then show ?thesis using timer_irq_inv [OF inv] keyboard_irq_inv [OF inv] network_irq_inv [OF inv] mouse_irq_inv [OF inv] inv v by blast
qed

text \<open>The handlers of the four devices always come back: they neither stop the machine nor leave their buffers.\<close>

lemma timer_irq_returns:
  assumes "platform_inv p"
  shows "\<exists>p'. timer_irq x p = Some (Inr p')"
proof -
  have "parts_inv (p_system p)" using assms by (simp add: platform_inv_def system_inv_def)
  then obtain y where "pass_ticks (x_hw x) 1 (p_system p) = Some (Inr (0, y))" by (rule pass_ticks_returns)
  then show ?thesis by (simp add: timer_irq_def then_cmd_def finish_cmd_def finish_irq_def)
qed

lemma network_irq_returns:
  assumes "platform_inv p"
  shows "\<exists>p'. network_irq x p = Some (Inr p')"
proof -
  let ?y = "p_system p" and ?n = "(y_net (p_system p))\<lparr>w_log := []\<rparr>"
  have "net_inv ?n" using assms by (simp add: platform_inv_def system_inv_def parts_inv_def net_inv_def)
  then obtain t where "net_handle_irq (x_world x) ?n = Some t" "w_log t = []" using net_handle_irq_ok by (fastforce simp: rx_keeps_def)
  then show ?thesis by (simp add: network_irq_def Let_def reply_def finish_cmd_def finish_irq_def)
qed

lemma mouse_irq_returns:
  assumes "platform_inv p"
  shows "\<exists>p'. mouse_irq q p = Some (Inr p')"
proof -
  have m: "mouse_inv (p_mouse p)" using assms by (simp add: platform_inv_def)
  obtain ms c where "mouse_handle_irq (q_status q) (q_data q) (p_mouse p, con_of (p_system p)) = Some (ms, c)" by (rule mouse_irq_ok [OF m])
  then show ?thesis by (simp add: mouse_irq_def finish_irq_def)
qed

lemma device_irq_returns:
  assumes "platform_inv p" and "32 \<le> vector"
  shows "\<exists>p'. interrupt_dispatch x q vector err rip p = Some (Inr p')"
proof -
  have "\<exists>p'. keyboard_irq q p = Some (Inr p')" by (simp add: keyboard_irq_def finish_irq_def case_prod_beta)
  then show ?thesis using timer_irq_returns network_irq_returns mouse_irq_returns assms leD [OF assms(2)]
    by (simp add: interrupt_dispatch_def)
qed

subsection \<open>The machine\<close>

text \<open>
  One turn of the monitor on the platform: the ticks that passed while a command waited for the
  network are interrupts too, counted by \<^verbatim>\<open>g_timer_ticks\<close>.
\<close>

definition monitor_turn :: "platform \<Rightarrow> system \<Rightarrow> platform" where
  "monitor_turn p y = p\<lparr>p_system := y, g_timer_ticks := g_timer_ticks p + (uptime y - uptime (p_system p))\<rparr>"

definition with_kernel :: "platform \<Rightarrow> kernel \<Rightarrow> platform" where
  "with_kernel p k = p\<lparr>p_system := (p_system p)\<lparr>y_kernel := k\<rparr>\<rparr>"

inductive platform_step :: "platform \<Rightarrow> platform \<Rightarrow> bool" where
  irq: "interrupt_dispatch x q vector err rip p = Some (Inr p') \<Longrightarrow>
    (vector = 44 \<longrightarrow> g_view_start (con_of (p_system p)) < 2 ^ 64) \<Longrightarrow> platform_step p p'"
| monitor: "cli_poll x rx s (p_system p) = Some (Inr (s', y)) \<Longrightarrow> timer_runs (x_world x) \<Longrightarrow> platform_step p (monitor_turn p y)"
| call: "syscall_dispatch hw nr a0 a1 a2 a3 a4 a5 (y_kernel (p_system p)) = Some (Inr (r, k)) \<Longrightarrow>
    sane_call nr a0 a1 a2 (y_kernel (p_system p)) \<Longrightarrow> platform_step p (with_kernel p k)"
| user: "platform_step p (with_kernel p ((y_kernel (p_system p))\<lparr>k_mem := m\<rparr>))"

lemma monitor_turn_inv: "platform_inv p \<Longrightarrow> system_inv y \<Longrightarrow> platform_inv (monitor_turn p y)"
  by (simp add: platform_inv_def monitor_turn_def)

lemma with_kernel_inv:
  "platform_inv p \<Longrightarrow> kernel_inv k \<Longrightarrow> k_sched k = k_sched (y_kernel (p_system p)) \<Longrightarrow> platform_inv (with_kernel p k)"
  by (simp add: platform_inv_def with_kernel_def system_inv_def parts_inv_def calm_def uptime_def)

lemma platform_step_inv: "platform_step p p' \<Longrightarrow> platform_inv p \<Longrightarrow> platform_inv p'"
proof (induction rule: platform_step.induct)
  case (irq x q vector err rip p p')
  then show ?case using interrupt_inv by blast
next
  case (monitor x rx s p s' y)
  then have "system_inv y" using shell_poll [of "p_system p" x rx s] by (simp add: platform_inv_def shell_sound_def)
  then show ?case using monitor.prems monitor_turn_inv by blast
next
  case (call hw nr a0 a1 a2 a3 a4 a5 p r k)
  have "kernel_inv (y_kernel (p_system p))" using call.prems by (simp add: platform_inv_def system_inv_def parts_inv_def)
  then have "kernel_inv k" using dispatch_safe call.hyps by (simp add: safe_def)
  moreover have "k_sched k = k_sched (y_kernel (p_system p))" using dispatch_timeless call.hyps(1) by (simp add: timeless_def)
  ultimately show ?case using with_kernel_inv call.prems by blast
next
  case (user p m)
  then show ?case by (intro with_kernel_inv) (simp_all add: platform_inv_def system_inv_def parts_inv_def kernel_inv_def)
qed


end
