(* ===== verification/Initramfs.thy ===== *)
theory Initramfs
  imports Fs
begin

text \<open>
  The boot archive: the writer of \<^verbatim>\<open>scripts/mkinitramfs.py\<close> (a cpio archive in the \<open>newc\<close> format) and the
  reader of \<^verbatim>\<open>fs_mount_initramfs\<close>. The reader understands what the writer writes: mounting an archive
  creates its entries, in order, and nothing else.
\<close>

subsection \<open>The writer\<close>

text \<open>A number as eight hexadecimal digits, \<^verbatim>\<open>f"{v:08x}"\<close>.\<close>

definition hex_char :: "u32 \<Rightarrow> u8" where
  "hex_char d = (if d < 10 then 0x30 + ucast d else 0x57 + ucast d)"

definition hex8 :: "u32 \<Rightarrow> u8 list" where
  "hex8 v = map (\<lambda>i. hex_char (drop_bit (4 * i) v AND 15)) (rev [0..<8])"

definition py_align4 :: "nat \<Rightarrow> nat" where
  "py_align4 n = (n + 3) div 4 * 4"

definition ascii :: "string \<Rightarrow> u8 list" where
  "ascii s = map of_char s"

type_synonym entry = "string \<times> u32 \<times> u8 list"

definition write_entry :: "entry \<Rightarrow> u8 list" where
  "write_entry e =
     (case e of (nm, mode, bytes) \<Rightarrow>
        ascii ''070701'' @ hex8 0 @ hex8 mode @ hex8 0 @ hex8 0 @ hex8 1 @ hex8 0 @ hex8 (of_nat (length bytes)) @
        hex8 0 @ hex8 0 @ hex8 0 @ hex8 0 @ hex8 (of_nat (length nm + 1)) @ hex8 0 @
        ascii nm @ [0] @ replicate (py_align4 (110 + (length nm + 1)) - (110 + (length nm + 1))) 0 @
        bytes @ replicate (py_align4 (length bytes) - length bytes) 0)"

definition emit_tree :: "entry list \<Rightarrow> u8 list" where
  "emit_tree es = write_entry (''.'', 0x41ED, []) @ concat (map write_entry es) @ write_entry (''TRAILER!!!'', 0, [])"

subsection \<open>Reading the fields back\<close>

lemma hex_digits: "list_all (\<lambda>n. hex_digit (hex_char (of_nat n)) = Some (of_nat n)) [0..<16]"
  by (simp add: upt_rec hex_char_def hex_digit_def)

lemma hex_digit_char: "d < 16 \<Longrightarrow> hex_digit (hex_char d) = Some d"
proof -
  assume "d < 16"
  then have "unat d < 16" by (simp add: word_less_nat_alt)
  then show ?thesis using hex_digits by (auto simp: list_all_iff dest!: bspec [of _ _ "unat d"])
qed

lemma nibble_less: "(w AND 15 :: u32) < 16"
proof -
  have "w AND 15 = take_bit 4 w" by (simp add: take_bit_eq_mask mask_eq_exp_minus_1)
  then show ?thesis by (simp add: word_less_nat_alt take_bit_eq_mod unat_mod_distrib)
qed

lemma nibble_join:
  "push_bit (4 * n) (push_bit 4 acc OR (drop_bit (4 * n) v AND 15)) OR (v AND mask (4 * n)) =
    push_bit (4 * Suc n) acc OR (v AND mask (4 * Suc n))" for v :: u32
proof (rule bit_word_eqI)
  have m: "(15 :: u32) = mask 4" by (simp add: mask_eq_exp_minus_1)
  fix k assume "k < LENGTH(32)"
  then show "bit (push_bit (4 * n) (push_bit 4 acc OR (drop_bit (4 * n) v AND 15)) OR (v AND mask (4 * n))) k =
      bit (push_bit (4 * Suc n) acc OR (v AND mask (4 * Suc n))) k"
    unfolding m by (auto simp: bit_simps not_less le_diff_conv2 algebra_simps)
qed

lemma hex_loop_digits:
  "hex_loop (map (\<lambda>i. hex_char (drop_bit (4 * i) v AND 15)) (rev [0..<n])) acc = Some (push_bit (4 * n) acc OR (v AND mask (4 * n)))"
proof (induction n arbitrary: acc)
  case (Suc n)
  then show ?case using nibble_join [of n acc v] by (simp add: hex_digit_char nibble_less del: mult_Suc_right)
qed simp

lemma parse_hex8: "parse_cpio_hex (hex8 v) = v"
proof -
  have "v AND mask 32 = v" by (rule bit_word_eqI) (simp add: bit_simps)
  moreover have "hex_loop (hex8 v) 0 = Some (push_bit (4 * 8) 0 OR (v AND mask (4 * 8)))" unfolding hex8_def by (rule hex_loop_digits)
  ultimately show ?thesis by (simp add: parse_cpio_hex_def)
qed

lemma length_hex8 [simp]: "length (hex8 v) = 8"
  by (simp add: hex8_def)

lemma char_word: "char_of (unat (of_char c :: u8)) = c"
proof -
  have "unat (of_char c :: u8) = of_char c" by (simp add: of_char_def unat_word_ariths)
  then show ?thesis by simp
qed

lemma chars_ascii: "chars (ascii s) = s"
  by (induction s) (simp_all add: chars_def ascii_def char_word)

lemma length_ascii [simp]: "length (ascii s) = length s"
  by (simp add: ascii_def)

lemma chars_append: "chars (a @ b) = chars a @ chars b"
  by (simp add: chars_def)

lemma align4_of_nat: "n + 3 < 2 ^ 32 \<Longrightarrow> align4 (of_nat n) = py_align4 n"
proof -
  assume n: "n + 3 < 2 ^ 32"
  have "(3 :: u32) = mask 2" by (simp add: mask_eq_exp_minus_1)
  then have "align4 (of_nat n) = unat (of_nat n + 3 :: u32) div 4 * 4"
    using unat_and_not_mask [of "of_nat n + 3 :: u32" 2] by (simp add: align4_def)
  also have "unat (of_nat n + 3 :: u32) = n + 3" using n by (simp add: unat_word_ariths unat_of_nat)
  finally show ?thesis by (simp add: py_align4_def)
qed

lemma py_align4_ge: "n \<le> py_align4 n"
  by (simp add: py_align4_def)

definition small_entry :: "entry \<Rightarrow> bool" where
  "small_entry e \<longleftrightarrow> (case e of (nm, mode, bytes) \<Rightarrow> NUL \<notin> set nm \<and> length nm < 2 ^ 31 \<and> length bytes < 2 ^ 31)"

lemma write_entry_fields:
  fixes post :: "u8 list"
  assumes "small_entry (nm, mode, bytes)"
  defines "w \<equiv> write_entry (nm, mode, bytes) @ post"
  shows "kstrncmp (chars w) ''070701'' 6 = 0" "parse_cpio_hex (take 8 (drop 14 w)) = mode"
    "parse_cpio_hex (take 8 (drop 54 w)) = of_nat (length bytes)" "parse_cpio_hex (take 8 (drop 94 w)) = of_nat (length nm + 1)"
    "name_at w 110 = Some nm" "take (length bytes) (drop (py_align4 (110 + (length nm + 1))) w) = bytes"
    "length (write_entry (nm, mode, bytes)) = py_align4 (110 + (length nm + 1)) + py_align4 (length bytes)"
proof -
  have nul: "NUL \<notin> set nm" using assms(1) by (simp add: small_entry_def)
  define h1 where "h1 = hex8 0 @ hex8 mode @ hex8 0 @ hex8 0 @ hex8 1 @ hex8 0 @ hex8 (of_nat (length bytes)) @
        hex8 0 @ hex8 0 @ hex8 0 @ hex8 0 @ hex8 (of_nat (length nm + 1)) @ hex8 0"
  define p1 where "p1 = replicate (py_align4 (110 + (length nm + 1)) - (110 + (length nm + 1))) (0 :: u8)"
  define p2 where "p2 = replicate (py_align4 (length bytes) - length bytes) (0 :: u8) @ post"
  have w: "w = ascii ''070701'' @ h1 @ ascii nm @ [0] @ p1 @ bytes @ p2"
    by (simp add: w_def write_entry_def h1_def p1_def p2_def)
  have h: "length h1 = 104" by (simp add: h1_def)
  have p1: "length (ascii nm @ [0] @ p1) = py_align4 (110 + (length nm + 1)) - 110"
    using py_align4_ge [of "110 + (length nm + 1)"] by (simp add: p1_def)
  show "kstrncmp (chars w) ''070701'' 6 = 0"
    by (simp add: w chars_append chars_ascii) (simp add: kstrncmp.simps numeral_eq_Suc char_at_def)
  show "parse_cpio_hex (take 8 (drop 14 w)) = mode" "parse_cpio_hex (take 8 (drop 54 w)) = of_nat (length bytes)"
    "parse_cpio_hex (take 8 (drop 94 w)) = of_nat (length nm + 1)"
    using parse_hex8 by (simp_all add: w h1_def)
  have d: "drop 110 w = ascii nm @ [0] @ p1 @ bytes @ p2" by (simp add: w h)
  have "chars (drop 110 w) = nm @ NUL # chars (p1 @ bytes @ p2)" by (simp add: d chars_append chars_ascii) (simp add: chars_def char_of_def)
  then show "name_at w 110 = Some nm" using nul by (simp add: name_at_def d)
  have "drop (py_align4 (110 + (length nm + 1))) w = drop (py_align4 (110 + (length nm + 1)) - 110) (drop 110 w)"
    using py_align4_ge [of "110 + (length nm + 1)"] by simp
  also have "\<dots> = bytes @ p2" unfolding d using p1 by (metis append.assoc append_eq_conv_conj)
  finally show "take (length bytes) (drop (py_align4 (110 + (length nm + 1))) w) = bytes" by simp
  show "length (write_entry (nm, mode, bytes)) = py_align4 (110 + (length nm + 1)) + py_align4 (length bytes)"
    using py_align4_ge [of "110 + (length nm + 1)"] py_align4_ge [of "length bytes"] by (simp add: write_entry_def)
qed

subsection \<open>One entry\<close>

lemma unat_u32: "n < 2 ^ 32 \<Longrightarrow> unat (of_nat n :: u32) = n"
  by (simp add: unat_of_nat)

lemma drop_at: "drop (length pre) (pre @ w) = w" "drop (length pre + k) (pre @ w) = drop k w" "name_at (pre @ w) (length pre + k) = name_at w k"
  by (simp_all add: name_at_def)

lemma mount_step:
  fixes pre post :: "u8 list"
  assumes e: "small_entry (nm, mode, bytes)"
  defines "a \<equiv> pre @ write_entry (nm, mode, bytes) @ post"
  defines "next \<equiv> length pre + length (write_entry (nm, mode, bytes))"
  shows "mount_loop a t (length pre) fs =
    (if nm = ''TRAILER!!!'' then Some (0, fs)
     else if nm = ''.'' then mount_loop a t next fs
     else Option.bind (mount_entry (normalize_path (Some nm) t) mode bytes fs) (mount_loop a t next))"
proof -
  define k where "k = length nm + 1"
  define dat where "dat = length pre + py_align4 (110 + k)"
  note f = write_entry_fields(1-6) [OF e, of post, folded k_def] write_entry_fields(7) [OF e, folded k_def]
  have b: "k \<le> 2 ^ 31" "length bytes < 2 ^ 31" "NUL \<notin> set nm" using e by (simp_all add: small_entry_def k_def)
  have un: "unat (of_nat k :: u32) = k" "unat (of_nat (length bytes) :: u32) = length bytes" by (rule unat_u32; use b in simp)+
  have al: "align4 (110 + of_nat k) = py_align4 (110 + k)" "align4 (of_nat (length bytes)) = py_align4 (length bytes)"
    using align4_of_nat [of "110 + k"] align4_of_nat [of "length bytes"] b by simp_all
  have len: "length a = dat + py_align4 (length bytes) + length post" "next = dat + py_align4 (length bytes)"
    using f(7) by (simp_all add: a_def next_def dat_def)
  have ge: "110 + k \<le> py_align4 (110 + k)" "length bytes \<le> py_align4 (length bytes)" "k \<noteq> 0" by (simp_all add: py_align4_ge k_def)
  have nz: "(of_nat k :: u32) \<noteq> 0" using un(1) ge(3) by (metis unat_0)
  have fields: "cpio_field a (length pre) 14 = mode" "cpio_field a (length pre) 54 = of_nat (length bytes)"
    "cpio_field a (length pre) 94 = of_nat k" "name_at a (length pre + 110) = Some nm"
    "kstrncmp (chars (drop (length pre) a)) ''070701'' 6 = 0" "take (length bytes) (drop dat a) = bytes"
    using f by (simp_all add: a_def cpio_field_def drop_at dat_def)
  have cmp: "kstrcmp nm ''TRAILER!!!'' = 0 \<longleftrightarrow> nm = ''TRAILER!!!''" "kstrcmp nm ''.'' = 0 \<longleftrightarrow> nm = ''.''"
    using b(3) by (simp_all add: kstrcmp_zero_iff cstr_id)
  have guards: "length pre + 110 \<le> length a" "\<not> length pre + 110 + k > length a" "\<not> dat + length bytes > length a"
    using ge by (simp_all add: len dat_def)
  show ?thesis
    unfolding mount_loop.simps [of a t "length pre" fs] fields Let_def un al cmp dat_def [symmetric] len(2) [symmetric] option.case
    using guards nz by (simp add: Option.bind_def split: option.split)
qed

subsection \<open>What an entry does to the file system\<close>

definition file_mode :: "u32 \<Rightarrow> bool" where
  "file_mode mode \<longleftrightarrow> mode AND 0xF000 \<noteq> 0x4000"

text \<open>A name the writer takes from a directory tree: a clean relative path whose last component is short enough.\<close>

definition tree_entry :: "entry \<Rightarrow> bool" where
  "tree_entry e \<longleftrightarrow> (case e of (nm, mode, bytes) \<Rightarrow>
     clean_path (''/'' @ nm) \<and> nm \<noteq> ''TRAILER!!!'' \<and> length bytes < 2 ^ 31 \<and>
     (\<exists>d leaf. nm = d @ leaf \<and> dir_prefix (''/'' @ d) \<and> component leaf))"

lemma tree_entryD:
  assumes "tree_entry (nm, mode, bytes)"
  obtains d leaf where "''/'' @ nm = (''/'' @ d) @ leaf" "dir_prefix (''/'' @ d)" "char_at (''/'' @ d) = slash" "length (''/'' @ d) < 256" "component leaf"
    "NUL \<notin> set (''/'' @ nm)" "length bytes < 2 ^ 31"
  using assms by (auto simp: tree_entry_def clean_path_def char_at_def)

lemma write_returns:
  assumes inv: "tmpfs_inv fs" and k: "live fs i" and b: "length bytes < 2 ^ 31"
  obtains r fs' where "tmpfs_write_node (int i) bytes 0 fs = Some (r, fs')" "tmpfs_inv fs'"
    "\<And>q k. resolve_path q fs = Some k \<Longrightarrow> 0 \<le> k \<Longrightarrow> resolve_path q fs' = Some k"
    "\<And>j. live fs j \<Longrightarrow> n_type (g_nodes fs' ! j) = n_type (g_nodes fs ! j) \<and> live fs' j \<and> (j \<noteq> i \<longrightarrow> content fs' j = content fs j)"
    "is_file fs i \<Longrightarrow> content fs i = [] \<Longrightarrow> content fs' i = bytes \<or> content fs' i = []"
proof (cases "is_file fs i")
  case False
  have "tmpfs_write_node (int i) bytes 0 fs = Some (- EISDIR, fs)"
    using k False by (simp add: tmpfs_write_node_def tmpfs_get_node_def live_def is_file_def)
  then show thesis using that [of "- EISDIR" fs] inv k False by blast
next
  case True
  obtain ch where t: "tree fs ch" and st: "storage fs" using inv by (auto simp: tmpfs_inv_def)
  have s: "unat (0 :: u64) + length bytes + 510 < 2 ^ 32" using b by simp
  from write_node_content [OF st True treeD(1) [OF t] s] show thesis
  proof (elim disjE exE conjE)
    assume "tmpfs_write_node (int i) bytes 0 fs = Some (- ENOSPC, fs)"
    then show thesis using that [of "- ENOSPC" fs] inv by blast
  next
    fix fs' assume w: "tmpfs_write_node (int i) bytes 0 fs = Some (int (length bytes), fs')" "rewritten fs fs' i"
      "content fs' i = overwrite (content fs i) (unat (0 :: u64)) bytes" "\<forall>j. live fs j \<longrightarrow> j \<noteq> i \<longrightarrow> content fs' j = content fs j"
    have ty: "n_type (g_nodes fs' ! j) = n_type (g_nodes fs ! j) \<and> live fs' j" if "live fs j" for j
      using w(2) that by (cases "j = i") (auto simp: rewritten_def live_def)
    show thesis
    proof (rule that [OF w(1) tmpfs_write_node_inv [OF inv s w(1)]])
      show "resolve_path q fs' = Some k" if "resolve_path q fs = Some k" "0 \<le> k" for q k by (rule rewritten_resolve [OF t w(2) that])
      show "content fs' i = bytes \<or> content fs' i = []" if "content fs i = []" using w(3) that by (simp add: overwrite_def)
    qed (use ty w(4) in blast)
  qed
qed

lemma create_effect:
  assumes inv: "tmpfs_inv fs" and e: "tree_entry (nm, mode, bytes)" and ty: "ty \<noteq> VFS_NODE_NONE"
  obtains r fs' where "tmpfs_create_path (''/'' @ nm) ty m fs = Some (r, fs')" "tmpfs_inv fs'"
    "\<And>q k. resolve_path q fs = Some k \<Longrightarrow> 0 \<le> k \<Longrightarrow> resolve_path q fs' = Some k"
    "\<And>j. live fs j \<Longrightarrow> live fs' j \<and> n_type (g_nodes fs' ! j) = n_type (g_nodes fs ! j) \<and> content fs' j = content fs j"
    "r < 0 \<Longrightarrow> fs' = fs" "0 \<le> r \<Longrightarrow> resolve_path (''/'' @ nm) fs' = Some r \<and> live fs' (nat r)"
    "0 \<le> r \<Longrightarrow> resolve_path (''/'' @ nm) fs \<noteq> Some r \<Longrightarrow> \<not> live fs (nat r) \<and> n_type (g_nodes fs' ! nat r) = ty \<and> content fs' (nat r) = []"
proof (rule tree_entryD [OF e])
  fix d leaf assume p: "''/'' @ nm = (''/'' @ d) @ leaf" "dir_prefix (''/'' @ d)" "char_at (''/'' @ d) = slash" "length (''/'' @ d) < 256" "component leaf"
    "NUL \<notin> set (''/'' @ nm)"
  have "\<exists>r fs'. tmpfs_create_path (''/'' @ nm) ty m fs = Some (r, fs') \<and> tmpfs_inv fs' \<and>
    (if r < 0 then fs' = fs \<and> (r = - ENOENT \<or> r = - ENOTDIR \<or> r = - ENOSPC)
     else tmpfs_lookup_path (''/'' @ nm) fs' = Some r \<and>
       (\<forall>q k. tmpfs_lookup_path q fs = Some k \<longrightarrow> 0 \<le> k \<longrightarrow> tmpfs_lookup_path q fs' = Some k) \<and>
       (tmpfs_lookup_path (''/'' @ nm) fs = Some r \<or>
        \<not> live fs (nat r) \<and> n_type (node_at fs' r) = ty \<and> n_mode (node_at fs' r) = m \<and>
        n_name (node_at fs' r) = leaf \<and> content fs' (nat r) = []))" (is "\<exists>r fs'. ?C r fs' \<and> ?I fs' \<and> ?R r fs'")
    unfolding p(1) by (rule create_path_returns [OF inv p(2-5) ty])
  then obtain r fs' where c: "?C r fs'" "?I fs'" "?R r fs'" by (elim exE conjE) (rule that)
  obtain ch' where t': "tree fs' ch'" using c(2) by (auto simp: tmpfs_inv_def)
  have "live fs' (nat r)" if "resolve_path (''/'' @ nm) fs' = Some r" "0 \<le> r"
  proof (rule resolve_absolute [OF t', of "''/'' @ nm"])
    fix q assume "resolve_path (''/'' @ nm) fs' = Some q" "outcome fs' q"
    then show ?thesis using that by (auto simp: outcome_def ENOENT_def)
  qed (simp add: char_at_def)
  note lv = this
  note c3 = c(3) [unfolded tmpfs_lookup_path_def]
  show thesis
  proof (rule that [OF c(1,2)])
    show "resolve_path q fs' = Some k" if "resolve_path q fs = Some k" "0 \<le> k" for q k using c3 that by (cases "r < 0") auto
    show "live fs' j \<and> n_type (g_nodes fs' ! j) = n_type (g_nodes fs ! j) \<and> content fs' j = content fs j" if "live fs j" for j
      by (rule create_path_keeps [OF inv p(6) ty c(1) that])
    show "fs' = fs" if "r < 0" using c3 that by simp
    show "resolve_path (''/'' @ nm) fs' = Some r \<and> live fs' (nat r)" if "0 \<le> r" using c3 that lv by auto
    show "\<not> live fs (nat r) \<and> n_type (g_nodes fs' ! nat r) = ty \<and> content fs' (nat r) = []"
      if "0 \<le> r" "resolve_path (''/'' @ nm) fs \<noteq> Some r" using c3 that by auto
  qed
qed

lemma mount_entry_effect:
  assumes inv: "tmpfs_inv fs" and e: "tree_entry (nm, mode, bytes)"
  obtains fs' where "mount_entry (''/'' @ nm) mode bytes fs = Some fs'" "tmpfs_inv fs'"
    "\<And>q k. resolve_path q fs = Some k \<Longrightarrow> 0 \<le> k \<Longrightarrow> resolve_path q fs' = Some k"
    "\<And>q j. resolve_path (''/'' @ nm) fs = Some q \<Longrightarrow> q < 0 \<Longrightarrow> live fs j \<Longrightarrow>
       live fs' j \<and> n_type (g_nodes fs' ! j) = n_type (g_nodes fs ! j) \<and> content fs' j = content fs j"
    "\<And>q k. resolve_path (''/'' @ nm) fs = Some q \<Longrightarrow> q < 0 \<Longrightarrow> file_mode mode \<Longrightarrow> resolve_path (''/'' @ nm) fs' = Some k \<Longrightarrow> 0 \<le> k \<Longrightarrow>
       is_file fs' (nat k) \<and> (content fs' (nat k) = bytes \<or> content fs' (nat k) = [])"
proof (cases "file_mode mode")
  case False
  show thesis
  proof (rule create_effect [OF inv e, of VFS_NODE_DIR mode])
    fix r fs' assume c: "tmpfs_create_path (''/'' @ nm) VFS_NODE_DIR mode fs = Some (r, fs')" "tmpfs_inv fs'"
      "\<And>q k. resolve_path q fs = Some k \<Longrightarrow> 0 \<le> k \<Longrightarrow> resolve_path q fs' = Some k"
      "\<And>j. live fs j \<Longrightarrow> live fs' j \<and> n_type (g_nodes fs' ! j) = n_type (g_nodes fs ! j) \<and> content fs' j = content fs j"
    show thesis by (rule that [OF _ c(2,3)]) (use c(1,4) False in \<open>auto simp: mount_entry_def file_mode_def\<close>)
  qed simp
next
  case True
  have b: "length bytes < 2 ^ 31" using e by (simp add: tree_entry_def)
  show thesis
  proof (rule create_effect [OF inv e, of VFS_NODE_FILE mode])
    fix r fs1 assume c: "tmpfs_create_path (''/'' @ nm) VFS_NODE_FILE mode fs = Some (r, fs1)" "tmpfs_inv fs1"
      and rs: "\<And>q k. resolve_path q fs = Some k \<Longrightarrow> 0 \<le> k \<Longrightarrow> resolve_path q fs1 = Some k"
      and kp: "\<And>j. live fs j \<Longrightarrow> live fs1 j \<and> n_type (g_nodes fs1 ! j) = n_type (g_nodes fs ! j) \<and> content fs1 j = content fs j"
      and er: "r < 0 \<Longrightarrow> fs1 = fs" and ok: "0 \<le> r \<Longrightarrow> resolve_path (''/'' @ nm) fs1 = Some r \<and> live fs1 (nat r)"
      and new: "0 \<le> r \<Longrightarrow> resolve_path (''/'' @ nm) fs \<noteq> Some r \<Longrightarrow>
        \<not> live fs (nat r) \<and> n_type (g_nodes fs1 ! nat r) = VFS_NODE_FILE \<and> content fs1 (nat r) = []"
    have isf: "is_file fs1 (nat r)" if "0 \<le> r" "resolve_path (''/'' @ nm) fs \<noteq> Some r"
      using new [OF that] ok [OF that(1)] by (simp add: is_file_def live_def)
    show thesis
    proof (cases "0 \<le> r \<and> bytes \<noteq> []")
      case False
      then have m: "mount_entry (''/'' @ nm) mode bytes fs = Some fs1" using c(1) True by (auto simp: mount_entry_def file_mode_def)
      show thesis
      proof (rule that [OF m c(2) rs])
        fix q k assume "resolve_path (''/'' @ nm) fs = Some q" "q < 0" "resolve_path (''/'' @ nm) fs1 = Some k" "0 \<le> k"
        then show "is_file fs1 (nat k) \<and> (content fs1 (nat k) = bytes \<or> content fs1 (nat k) = [])"
          using False er ok new isf by (cases "r < 0") auto
      qed (assumption | rule kp)+
    next
      case wr: True
      then have r: "int (nat r) = r" "live fs1 (nat r)" using ok by auto
      show thesis
      proof (rule write_returns [OF c(2) r(2) b])
        fix w fs' assume w: "tmpfs_write_node (int (nat r)) bytes 0 fs1 = Some (w, fs')" "tmpfs_inv fs'"
          "\<And>q k. resolve_path q fs1 = Some k \<Longrightarrow> 0 \<le> k \<Longrightarrow> resolve_path q fs' = Some k"
          "\<And>j. live fs1 j \<Longrightarrow> n_type (g_nodes fs' ! j) = n_type (g_nodes fs1 ! j) \<and> live fs' j \<and> (j \<noteq> nat r \<longrightarrow> content fs' j = content fs1 j)"
          "is_file fs1 (nat r) \<Longrightarrow> content fs1 (nat r) = [] \<Longrightarrow> content fs' (nat r) = bytes \<or> content fs' (nat r) = []"
        have m: "mount_entry (''/'' @ nm) mode bytes fs = Some fs'" using c(1) True wr w(1) unfolding r(1) by (simp add: mount_entry_def file_mode_def)
        show thesis
        proof (rule that [OF m w(2)])
          fix q j assume "resolve_path (''/'' @ nm) fs = Some q" "q < 0" "live fs j"
          then show "live fs' j \<and> n_type (g_nodes fs' ! j) = n_type (g_nodes fs ! j) \<and> content fs' j = content fs j"
            using kp [of j] w(4) [of j] new wr by (cases "j = nat r") auto
        next
          fix q k assume q: "resolve_path (''/'' @ nm) fs = Some q" "q < 0" "resolve_path (''/'' @ nm) fs' = Some k" "0 \<le> k"
          have "resolve_path (''/'' @ nm) fs' = Some r" using w(3) ok wr by blast
          then have "k = r" using q(3) by simp
          moreover have "is_file fs1 (nat r)" "content fs1 (nat r) = []" using isf new wr q(1,2) by auto
          ultimately show "is_file fs' (nat k) \<and> (content fs' (nat k) = bytes \<or> content fs' (nat k) = [])"
            using w(4) [OF r(2)] w(5) by (auto simp: is_file_def)
        qed (use rs w(3) in blast)
      qed
    qed
  qed simp
qed

subsection \<open>Whole archives\<close>

text \<open>What mounting means: the entries are made one after the other, below the root directory.\<close>

fun mount_all :: "entry list \<Rightarrow> tmpfs \<Rightarrow> tmpfs option" where
  "mount_all [] fs = Some fs"
| "mount_all ((nm, mode, bytes) # es) fs = Option.bind (mount_entry (''/'' @ nm) mode bytes fs) (mount_all es)"

fun new_paths :: "entry list \<Rightarrow> tmpfs \<Rightarrow> bool" where
  "new_paths [] fs \<longleftrightarrow> True"
| "new_paths ((nm, mode, bytes) # es) fs \<longleftrightarrow>
     (case tmpfs_lookup_path (''/'' @ nm) fs of None \<Rightarrow> False | Some q \<Rightarrow> q < 0) \<and>
     (case mount_entry (''/'' @ nm) mode bytes fs of None \<Rightarrow> False | Some fs' \<Rightarrow> new_paths es fs')"

lemma tree_entry_small: "tree_entry e \<Longrightarrow> small_entry e"
  by (auto simp: tree_entry_def small_entry_def clean_path_def)

lemma tree_entry_name:
  assumes "tree_entry (nm, mode, bytes)" and "t_cwd t = ''/''"
  shows "nm \<noteq> ''TRAILER!!!''" and "nm \<noteq> ''.''" and "normalize_path (Some nm) t = ''/'' @ nm"
proof -
  have c: "clean_path (''/'' @ nm)" "nm \<noteq> ''TRAILER!!!''" using assms(1) by (simp_all add: tree_entry_def)
  obtain d leaf where nm: "nm = d @ leaf" "component leaf" using assms(1) by (auto simp: tree_entry_def)
  show "nm \<noteq> ''TRAILER!!!''" by (rule c(2))
  show "nm \<noteq> ''.''" using nm by (cases d) (auto simp: component_def)
  have "nm \<noteq> []" "NUL \<notin> set nm" "single_slashes (slash # nm)" using nm c(1) by (auto simp: component_def clean_path_def)
  then have "nm \<noteq> []" "char_at nm \<noteq> NUL" "char_at nm \<noteq> slash" by (cases nm; auto simp: char_at_def)+
  then show "normalize_path (Some nm) t = ''/'' @ nm"
    using norm_loop_id [OF c(1)] assms(2) by (simp add: normalize_path_def)
qed

lemma mount_loop_archive:
  fixes pre :: "u8 list"
  assumes "t_cwd t = ''/''" and "\<forall>e \<in> set es. tree_entry e"
  shows "mount_loop (pre @ concat (map write_entry es) @ write_entry (''TRAILER!!!'', 0, [])) t (length pre) fs =
    map_option (Pair 0) (mount_all es fs)"
  using assms(2)
proof (induction es arbitrary: pre fs)
  case Nil
  have "small_entry (''TRAILER!!!'', 0, [])" by (simp add: small_entry_def)
  from mount_step [OF this, of pre "[]" t fs] show ?case by simp
next
  case (Cons e es)
  obtain nm mode bytes where e: "e = (nm, mode, bytes)" by (cases e)
  then have te: "tree_entry (nm, mode, bytes)" using Cons.prems by simp
  note n = tree_entry_name [OF te assms(1)]
  let ?post = "concat (map write_entry es) @ write_entry (''TRAILER!!!'', 0, [])"
  have "mount_loop (pre @ write_entry (nm, mode, bytes) @ ?post) t (length pre + length (write_entry (nm, mode, bytes))) fs1 =
      map_option (Pair 0) (mount_all es fs1)" for fs1
    using Cons.IH [of "pre @ write_entry (nm, mode, bytes)" fs1] Cons.prems by simp
  then show ?case
    using mount_step [OF tree_entry_small [OF te], of pre ?post t fs] n
    by (cases "mount_entry (''/'' @ nm) mode bytes fs") (simp_all add: e)
qed

lemma mount_loop_emit:
  assumes "t_cwd t = ''/''" and "\<forall>e \<in> set es. tree_entry e"
  shows "mount_loop (emit_tree es) t 0 fs = map_option (Pair 0) (mount_all es fs)"
proof -
  have "small_entry (''.'', 0x41ED, [])" by (simp add: small_entry_def)
  from mount_step [OF this, of "[]" "concat (map write_entry es) @ write_entry (''TRAILER!!!'', 0, [])" t fs]
    mount_loop_archive [OF assms, of "write_entry (''.'', 0x41ED, [])" fs]
  show ?thesis by (simp add: emit_tree_def)
qed

lemma mount_all_returns:
  assumes "tmpfs_inv fs" and "\<forall>e \<in> set es. tree_entry e"
  obtains fs' where "mount_all es fs = Some fs'" "tmpfs_inv fs'"
    "\<And>q k. resolve_path q fs = Some k \<Longrightarrow> 0 \<le> k \<Longrightarrow> resolve_path q fs' = Some k"
    "\<And>j. new_paths es fs \<Longrightarrow> live fs j \<Longrightarrow> n_type (g_nodes fs' ! j) = n_type (g_nodes fs ! j) \<and> content fs' j = content fs j"
  using assms
proof (induction es arbitrary: fs thesis)
  case (Cons e es)
  obtain nm mode bytes where e: "e = (nm, mode, bytes)" by (cases e)
  then have te: "tree_entry (nm, mode, bytes)" using Cons.prems(3) by simp
  show ?case
  proof (rule mount_entry_effect [OF Cons.prems(2) te])
    fix fs1 assume m: "mount_entry (''/'' @ nm) mode bytes fs = Some fs1" "tmpfs_inv fs1"
      "\<And>q k. resolve_path q fs = Some k \<Longrightarrow> 0 \<le> k \<Longrightarrow> resolve_path q fs1 = Some k"
      "\<And>q j. resolve_path (''/'' @ nm) fs = Some q \<Longrightarrow> q < 0 \<Longrightarrow> live fs j \<Longrightarrow>
         live fs1 j \<and> n_type (g_nodes fs1 ! j) = n_type (g_nodes fs ! j) \<and> content fs1 j = content fs j"
    show ?case
    proof (rule Cons.IH [OF _ m(2)])
      show "\<forall>e \<in> set es. tree_entry e" using Cons.prems(3) by simp
      fix fs' assume a: "mount_all es fs1 = Some fs'" "tmpfs_inv fs'"
        "\<And>q k. resolve_path q fs1 = Some k \<Longrightarrow> 0 \<le> k \<Longrightarrow> resolve_path q fs' = Some k"
        "\<And>j. new_paths es fs1 \<Longrightarrow> live fs1 j \<Longrightarrow> n_type (g_nodes fs' ! j) = n_type (g_nodes fs1 ! j) \<and> content fs' j = content fs1 j"
      show ?case
      proof (rule Cons.prems(1) [of fs'])
        show "mount_all (e # es) fs = Some fs'" using m(1) a(1) by (simp add: e)
        show "resolve_path q fs' = Some k" if "resolve_path q fs = Some k" "0 \<le> k" for q k using m(3) a(3) that by blast
        show "n_type (g_nodes fs' ! j) = n_type (g_nodes fs ! j) \<and> content fs' j = content fs j" if np: "new_paths (e # es) fs" "live fs j" for j
        proof -
          obtain q where "resolve_path (''/'' @ nm) fs = Some q" "q < 0" "new_paths es fs1"
            using np(1) m(1) by (auto simp: e tmpfs_lookup_path_def split: option.splits)
          then show ?thesis using m(4) [OF _ _ np(2)] a(4) by metis
        qed
      qed (rule a(2))
    qed
  qed
qed simp

lemma mount_all_append: "mount_all (as @ bs) fs = Option.bind (mount_all as fs) (mount_all bs)"
  by (induction as fs rule: mount_all.induct) (auto intro: bind_option_cong)

lemma new_paths_append: "new_paths (as @ bs) fs \<Longrightarrow> mount_all as fs = Some fs1 \<Longrightarrow> new_paths bs fs1"
  by (induction as fs rule: mount_all.induct) (auto split: option.splits)



end
