(* ===== verification/Boot.thy ===== *)
theory Boot
  imports Platform Initramfs
begin

text \<open>
  Model of \<^verbatim>\<open>src/kernel/main.c\<close>: the search for the boot archive and \<^verbatim>\<open>kernel_main\<close>, which brings up every
  component in order and enters the monitor. What the boot loader and the hardware hand over is the
  record \<open>boot\<close>; the addresses of the linker symbols and of the assembly stubs are among it. The
  static variables of all components start as the C files declare them.
\<close>

subsection \<open>Static data\<close>

definition static_console :: "(nat \<Rightarrow> u16) \<Rightarrow> console" where
  "static_console vga = \<lparr>g_history = (\<lambda>_ _. 0), g_abs_row = 0, g_col = 0, g_view_start = 0, g_follow_tail = False, g_attr = 0,
     g_fg = mk_rgb 0 0 0, g_bg = mk_rgb 0 0 0, g_input_buffer = replicate CONSOLE_INPUT_CAPACITY NUL, g_input_read_index = 0,
     g_input_write_index = 0, vga_memory = vga, port_writes = []\<rparr>"

definition static_net :: net where
  "static_net = \<lparr>g_adapters = [], g_rtl_io_base = 0, g_rtl_irq_line = 0, g_rtl_ready = False, g_mac = replicate 6 0,
     g_tx_buffer = replicate 4 (replicate 2048 0), g_rx_read_offset = 0, g_tx_index = 0, g_ip_addr = 0, g_ip_gw = 0, g_ip_mask = 0,
     g_connected = False, g_rx_frames = 0, g_tx_frames = 0, g_rx_dropped = 0, g_arp_cache = replicate 4 zero_arp,
     g_ping_wait = zero_ping, g_dhcp = zero_lease, w_ticks = 0, w_reads = 0, w_waits = 0, w_out = [], w_sent = [], w_log = []\<rparr>"

definition static_kernel :: "(nat \<Rightarrow> u16) \<Rightarrow> memory \<Rightarrow> kernel" where
  "static_kernel vga user =
     \<lparr>k_vfs = \<lparr>v_fs = \<lparr>g_nodes = replicate MGCORE_MAX_NODES zero_node, g_data_arena = (\<lambda>_. 0), g_data_offset = 0\<rparr>,
        v_files = replicate MAX_OPEN_FILES zero_file,
        v_tasks = \<lparr>g_tasks = replicate MGCORE_MAX_TASKS zero_task, g_next_pid = 1, g_current_index = 0, g_task_count = 0\<rparr>,
        v_con = static_console vga\<rparr>,
      k_heap = \<lparr>g_kernel_heap = (\<lambda>_. 0), g_heap_offset = 0\<rparr>,
      k_sched = \<lparr>g_uptime_ticks = 0, g_memguard_boot_free_pages = 0, g_memguard_prev_free_pages = 0, g_memguard_critical_streak = 0\<rparr>,
      k_mem = user, k_irq = False, k_action = SAFEBOOT_ACTION_REBOOT, k_io = []\<rparr>"

definition zero_gate :: idt_entry where
  "zero_gate = \<lparr>offset_low = 0, selector = 0, ist = 0, type_attr = 0, offset_mid = 0, offset_high = 0, zero = 0\<rparr>"

definition static_data :: "(nat \<Rightarrow> u16) \<Rightarrow> memory \<Rightarrow> platform" where
  "static_data vga user =
     \<lparr>p_system = \<lparr>y_kernel = static_kernel vga user, y_pmm = \<lparr>g_bitmap = (\<lambda>_. 0), g_total_pages = 0, g_free_pages = 0\<rparr>,
        y_swap = \<lparr>g_swap_total_pages = 0, g_swap_used_pages = 0, g_swap_enabled = False\<rparr>, y_net = static_net\<rparr>,
      p_keyboard = \<lparr>g_shift_active = False, g_ctrl_active = False, g_extended_sequence = False\<rparr>,
      p_mouse = \<lparr>g_packet = replicate 4 0, g_packet_index = 0, g_packet_size = 4, g_mouse_ready = False\<rparr>,
      g_idt = replicate 256 zero_gate, g_timer_ticks = 0\<rparr>"

definition static_cli :: cli where
  "static_cli = \<lparr>g_line = replicate CLI_MAX_LINE NUL, g_last_line = replicate CLI_MAX_LINE NUL, g_has_last_line = False,
     c_length = 0, c_cursor = 0, c_esc = 0\<rparr>"

subsection \<open>The boot archive\<close>

text \<open>The first module tag, if there is one; on a list of tags that does not end the search does not come back.\<close>

partial_function (option) find_module :: "mbmem \<Rightarrow> u64 \<Rightarrow> u64 option option" where
  "find_module mem t =
     (if tag_type mem t \<noteq> 0 then
        (if tag_type mem t = 3 then Some (Some t) else find_module mem (multiboot2_next_tag mem t))
      else Some None)"

definition find_initramfs_module :: "mbmem \<Rightarrow> u64 \<Rightarrow> u64 option option" where
  "find_initramfs_module mem info = find_module mem (multiboot2_first_tag info)"

definition mod_start :: "mbmem \<Rightarrow> u64 \<Rightarrow> u32" where "mod_start mem t = load32 mem (t + 8)"
definition mod_end :: "mbmem \<Rightarrow> u64 \<Rightarrow> u32" where "mod_end mem t = load32 mem (t + 12)"

definition module_bytes :: "mbmem \<Rightarrow> u64 \<Rightarrow> u8 list" where
  "module_bytes mem t = map (\<lambda>i. mem (ucast (mod_start mem t) + of_nat i)) [0..<unat (mod_end mem t - mod_start mem t)]"

subsection \<open>kernel\_main\<close>

record boot =
  b_magic :: u32
  b_info :: u64
  b_mem :: mbmem
  kernel_image_start :: u64
  kernel_image_end :: u64
  b_stubs :: "nat \<Rightarrow> u64"
  b_entry :: u64
  b_kbd :: "nat \<Rightarrow> u8"
  b_mouse :: "nat \<Rightarrow> u8"
  b_vga :: "nat \<Rightarrow> u16"
  b_user :: memory
  b_env :: environment

type_synonym msr = "u32 \<times> u32 \<times> u32"
type_synonym boot_ret = "((power \<times> machine) + (platform \<times> cli \<times> msr list)) option"

definition MULTIBOOT2_BOOTLOADER_MAGIC :: u32 where "MULTIBOOT2_BOOTLOADER_MAGIC = 0x36d76289"

definition on_system :: "(system \<Rightarrow> system) \<Rightarrow> platform \<Rightarrow> platform" where
  "on_system f p = p\<lparr>p_system := f (p_system p)\<rparr>"

definition on_kernel :: "(kernel \<Rightarrow> kernel) \<Rightarrow> platform \<Rightarrow> platform" where
  "on_kernel f p = on_system (\<lambda>y. y\<lparr>y_kernel := f (y_kernel y)\<rparr>) p"

definition on_vfs :: "(vfs \<Rightarrow> vfs) \<Rightarrow> platform \<Rightarrow> platform" where
  "on_vfs f p = on_kernel (\<lambda>k. k\<lparr>k_vfs := f (k_vfs k)\<rparr>) p"

abbreviation vfs_of :: "platform \<Rightarrow> vfs" where
  "vfs_of p \<equiv> k_vfs (y_kernel (p_system p))"

definition boot_print :: "con_call list \<Rightarrow> platform \<Rightarrow> platform option" where
  "boot_print cs p = map_option (\<lambda>c. on_vfs (\<lambda>v. v\<lparr>v_con := c\<rparr>) p) (run_log cs (v_con (vfs_of p)))"

text \<open>The calls from \<^verbatim>\<open>pmm_init\<close> to \<^verbatim>\<open>scheduler_init\<close>.\<close>

definition boot_memory :: "boot \<Rightarrow> platform \<Rightarrow> platform option" where
  "boot_memory b p = do {
     p1 \<leftarrow> boot_print [Printf (''kernel image: %p - %p'' @ [CHR 0x0A]) [VInt (kernel_image_start b), VInt (kernel_image_end b)]] p;
     (q, cs) \<leftarrow> pmm_init (b_mem b) (b_info b) (kernel_image_start b) (kernel_image_end b);
     p2 \<leftarrow> boot_print cs (on_system (\<lambda>y. y\<lparr>y_pmm := q\<rparr>) p1);
     p3 \<leftarrow> boot_print (snd (swap_init (pmm_total_pages q))) (on_system (\<lambda>y. y\<lparr>y_swap := fst (swap_init (pmm_total_pages q))\<rparr>) p2);
     p4 \<leftarrow> boot_print vmm_init p3;
     boot_print (snd (scheduler_init q))
       (on_kernel (\<lambda>k. k\<lparr>k_sched := fst (scheduler_init q)\<rparr>) (on_vfs (\<lambda>v. v\<lparr>v_tasks := task_init (v_tasks v)\<rparr>) p4))
   }"

text \<open>The calls from \<^verbatim>\<open>interrupt_init\<close> to \<^verbatim>\<open>net_init\<close>; \<^verbatim>\<open>signal_init\<close> and \<^verbatim>\<open>elf_init\<close> are empty.\<close>

definition boot_devices :: "boot \<Rightarrow> platform \<Rightarrow> platform option" where
  "boot_devices b p = do {
     let p1 = interrupt_init (b_stubs b) p;
     (kb, cs) \<leftarrow> keyboard_init (b_kbd b) (p_keyboard p1);
     p2 \<leftarrow> boot_print cs (p1\<lparr>p_keyboard := kb\<rparr>);
     let (ms, ps, cs) = mouse_init (b_mouse b) (p_mouse p2, \<lparr>p_reads = 0, p_out = []\<rparr>);
     p3 \<leftarrow> boot_print cs (port_out (p_out ps) (p2\<lparr>p_mouse := ms\<rparr>));
     p4 \<leftarrow> boot_print (snd (syscall_init (b_entry b))) p3;
     (fs, cs) \<leftarrow> fs_init (v_fs (vfs_of p4));
     p5 \<leftarrow> boot_print cs (on_vfs (\<lambda>v. v\<lparr>v_fs := fs\<rparr>) p4);
     let n = net_init (x_world (b_env b)) ((y_net (p_system p5))\<lparr>w_log := []\<rparr>);
     boot_print (w_log n) (on_system (\<lambda>y. y\<lparr>y_net := n\<rparr>) p5)
   }"

definition boot_initramfs :: "boot \<Rightarrow> platform \<Rightarrow> platform option" where
  "boot_initramfs b p = do {
     m \<leftarrow> find_initramfs_module (b_mem b) (b_info b);
     case m of
       None \<Rightarrow> boot_print [Writeln ''initramfs: no module present'' []] p
     | Some t \<Rightarrow> do {
         (mount_status, v) \<leftarrow> fs_mount_initramfs (module_bytes (b_mem b) t) (vfs_of p);
         boot_print [Printf (''initramfs: module %p-%p mount=%d'' @ [CHR 0x0A])
             [VInt (ucast (mod_start (b_mem b) t)), VInt (ucast (mod_end (b_mem b) t)), vpid mount_status]] (on_vfs (\<lambda>_. v) p)
       }
   }"

definition boot_tasks :: "platform \<Rightarrow> platform" where
  "boot_tasks p =
     (let create = (\<lambda>tt. case task_create_kernel ''kidle'' tt of None \<Rightarrow> tt | Some (_, tt') \<Rightarrow> tt');
          spawn = (\<lambda>tt. case task_spawn_user ''init'' tt of None \<Rightarrow> tt | Some (_, tt') \<Rightarrow> tt')
      in on_kernel (\<lambda>k. set_tasks (spawn (create (tasks k))) k) p)"

text \<open>
  From \<^verbatim>\<open>interrupt_enable\<close> to the prompt of \<^verbatim>\<open>cli_run\<close>: the loop that follows is the iteration of
  \<^term>\<open>cli_poll\<close>.
\<close>

definition boot_monitor :: "boot \<Rightarrow> platform \<Rightarrow> boot_ret" where
  "boot_monitor b p =
     (case net_cmd (b_env b) (\<lambda>w s. map_option (Pair 0) (net_startup_connect w s)) (p_system p) of
        None \<Rightarrow> None
      | Some (Inl stop) \<Rightarrow> Some (Inl stop)
      | Some (Inr (_, y)) \<Rightarrow>
          map_option (\<lambda>c. Inr (monitor_turn p (set_con c y), static_cli, fst (syscall_init (b_entry b))))
            (Option.bind (cli_init (con_of y)) print_prompt))"

definition kernel_main :: "boot \<Rightarrow> boot_ret" where
  "kernel_main b = do {
     p0 \<leftarrow> boot_print [Writeln ''MGCORE x86_64 bootstrap'' []]
             (on_vfs (\<lambda>v. v\<lparr>v_con := console_init (v_con v)\<rparr>) (static_data (b_vga b) (b_user b)));
     if b_magic b \<noteq> MULTIBOOT2_BOOTLOADER_MAGIC
     then Some (Inl (kernel_panic (h_status (x_hw (b_env b))) ''invalid Multiboot2 magic'' (machine_of (y_kernel (p_system p0)))))
     else do {
       p1 \<leftarrow> boot_memory b p0;
       p2 \<leftarrow> boot_devices b p1;
       p3 \<leftarrow> boot_initramfs b p2;
       p4 \<leftarrow> boot_print [Writeln ''interrupts: enabling timer + serial monitor'' []] (boot_tasks p3);
       boot_monitor b (on_kernel (\<lambda>k. of_machine (interrupt_enable (machine_of k)) k) p4)
     }
   }"

end
