(* ===== verification/Boot_Props.thy ===== *)
theory Boot_Props
  imports Boot
begin

text \<open>
  The boot sequence comes back: every message can be printed, every component starts in a state that
  satisfies its invariant, and the machine stops before the prompt only when the magic number is wrong
  or memory is short. With the steps of the running machine this gives the invariant of every state
  after boot.
\<close>

subsection \<open>Silent probing\<close>

definition quiet :: "net \<Rightarrow> net \<Rightarrow> bool" where
  "quiet s t \<longleftrightarrow> w_log t = w_log s \<and> w_ticks t = w_ticks s"

lemma quiet_trans: "quiet a b \<Longrightarrow> quiet b c \<Longrightarrow> quiet a c"
  by (simp add: quiet_def)

lemma quiet_fold: "(\<And>x s. quiet s (f x s)) \<Longrightarrow> quiet s (fold f xs s)"
  by (induction xs arbitrary: s) (auto simp: quiet_def)

lemma quiet_io: "quiet s (io_out q s)" "quiet s (snd (io_in w s))" "quiet s (snd (spin w test n s))"
  by (auto simp: quiet_def io_out_def io_in_def spin_def split: option.split)

lemma quiet_pci: "quiet s (snd (pci_config_read32 w bus slot func off s))" "quiet s (pci_config_write32 bus slot func off v s)"
  unfolding pci_config_read32_def pci_config_write32_def by (rule quiet_trans [OF quiet_io(1)], rule quiet_io)+

lemma quiet_rtl: "quiet s (snd (rtl_hw_init w a s))"
  by (auto simp: quiet_def rtl_hw_init_def Let_def pci_config_read32_def pci_config_write32_def rtl_wait_for_reset_clear_def spin_def
      read_mac_def split: if_splits option.splits)

lemmas quiet_sel = quiet_pci [unfolded quiet_def] quiet_rtl [unfolded quiet_def]

lemma quiet_probe_function: "quiet s (probe_function w bus slot func s)"
  unfolding probe_function_def Let_def case_prod_beta quiet_def by (simp add: quiet_sel)

lemma quiet_probe_slot: "quiet s (probe_slot w bus slot s)"
proof -
  have "quiet t (fold (\<lambda>func. probe_function w bus slot (of_nat func)) l t)" for t l
    by (intro quiet_fold quiet_probe_function)
  then show ?thesis unfolding probe_slot_def Let_def case_prod_beta quiet_def by (simp add: quiet_sel)
qed

definition probed :: "world \<Rightarrow> net \<Rightarrow> net" where
  "probed w s = fold (\<lambda>bus. fold (\<lambda>slot. probe_slot w (of_nat bus) (of_nat slot)) [0..<32]) [0..<256]
     (s\<lparr>g_adapters := [], g_rtl_ready := False, g_connected := False, g_ip_addr := 0, g_ip_gw := NET_DEFAULT_GW,
        g_ip_mask := NET_DEFAULT_MASK, g_rx_frames := 0, g_tx_frames := 0, g_rx_dropped := 0,
        g_arp_cache := replicate NET_MAX_ARP_CACHE zero_arp, g_ping_wait := zero_ping, g_dhcp := zero_lease\<rparr>)"

lemma probed_quiet: "w_log (probed w s) = w_log s" "w_ticks (probed w s) = w_ticks s"
proof -
  have "quiet t (fold (\<lambda>bus. fold (\<lambda>slot. probe_slot w (of_nat bus) (of_nat slot)) [0..<32]) [0..<256] t)" for t
    by (intro quiet_fold quiet_probe_slot)
  then show "w_log (probed w s) = w_log s" "w_ticks (probed w s) = w_ticks s"
    unfolding probed_def quiet_def by simp_all
qed

lemma length6: "length xs = 6 \<longleftrightarrow> (\<exists>a b c d e f. xs = [a, b, c, d, e, f])"
  by (auto simp: numeral_eq_Suc length_Suc_conv)

lemma net_init_boots:
  assumes "length (g_mac s) = 6" "g_tx_buffer s = replicate 4 (replicate 2048 0)" "g_tx_index s = 0" "g_rx_read_offset s = 0" "w_log s = []"
  shows "net_inv (net_init w s) \<and> w_ticks (net_init w s) = w_ticks s \<and> list_all printable (w_log (net_init w s))"
proof -
  have p: "probing (net_init w s)" by (rule net_init_probing) (use assms in simp_all)
  obtain cs where n: "net_init w s = net_log cs (probed w s)" and cs: "length (g_mac (probed w s)) = 6 \<Longrightarrow> list_all printable cs"
  proof
    show "net_init w s = net_log
        (Printf (''net: ethernet adapters detected=%u'' @ [CHR 0x0A]) [vunsigned (of_nat (length (g_adapters (probed w s))))]
         # (if g_rtl_ready (probed w s)
            then [Printf (''net0: rtl8139 ready io=0x%x irq=%u mac=%x:%x:%x:%x:%x:%x'' @ [CHR 0x0A])
                    (vunsigned (ucast (g_rtl_io_base (probed w s))) # vunsigned (ucast (g_rtl_irq_line (probed w s))) #
                     map (\<lambda>b. vunsigned (ucast b)) (g_mac (probed w s)))]
            else [Writeln ''net0: rtl8139 not bound'' []])) (probed w s)"
      unfolding net_init_def probed_def Let_def by (rule refl)
  qed (auto simp: length6 vunsigned_def)
  have "net_inv (net_init w s)" using p by (simp add: probing_def)
  moreover have "length (g_mac (probed w s)) = 6" using calculation by (simp add: n net_inv_def net_log_def)
  ultimately show ?thesis using cs probed_quiet [of w s] assms(5) by (simp add: n net_log_def)
qed

lemma startup_prints:
  assumes "timer_runs w" and "net_inv s" and "list_all printable (w_log s)"
  shows "\<exists>t. net_startup_connect w s = Some t \<and> net_inv t \<and> list_all printable (w_log t)"
proof (cases "g_rtl_ready s")
  case True
  let ?s = "net_log [Writeln ''net0: startup DHCP begin'' []] s"
  have "net_inv ?s" using assms(2) by (simp add: net_log_def net_inv_def)
  then obtain ok t where t: "net_dhcp_acquire w (MGCORE_HZ * 3) ?s = Some (ok, t)" "net_inv t" "w_log t = w_log ?s"
    using net_dhcp_acquire_returns [OF assms(1), of ?s "MGCORE_HZ * 3"] by blast
  have "list_all printable (w_log t)" using t(3) assms(3) by (simp add: net_log_def)
  then show ?thesis using True t(1,2)
    by (cases ok) (simp_all add: net_startup_connect_def Let_def net_log_def net_inv_def vtext_def Net.nl_def)
qed (use assms in \<open>simp add: net_startup_connect_def\<close>)

subsection \<open>Memory\<close>

lemma boot_print_ok:
  assumes "list_all printable cs" and "console_inv (v_con (vfs_of p))"
  obtains c where "boot_print cs p = Some (on_vfs (\<lambda>v. v\<lparr>v_con := c\<rparr>) p)" and "console_inv c"
  using printable_log [OF assms] by (auto simp: boot_print_def)

lemmas on_defs = on_vfs_def on_kernel_def on_system_def

definition pmm_log :: "pmm \<Rightarrow> con_call list" where
  "pmm_log q = [Printf (''pmm: total=%u pages free=%u'' @ [CHR 0x0A]) [vunsigned (g_total_pages q), vunsigned (g_free_pages q)]]"

lemma boot_memory_returns:
  assumes con: "console_inv (v_con (vfs_of p))"
    and tags: "boot_tags (b_mem b) (multiboot2_first_tag (b_info b)) es" "disjoint_entries es"
  obtains c q where "console_inv c" and "pmm_inv q"
    and "pmm_init (b_mem b) (b_info b) (kernel_image_start b) (kernel_image_end b) = Some (q, pmm_log q)"
    and "boot_memory b p = Some (on_vfs (\<lambda>v. v\<lparr>v_con := c, v_tasks := task_init (v_tasks v)\<rparr>) (on_kernel (\<lambda>k. k\<lparr>k_sched := fst (scheduler_init q)\<rparr>)
        (on_system (\<lambda>y. y\<lparr>y_pmm := q, y_swap := fst (swap_init (pmm_total_pages q))\<rparr>) p)))"
proof -
  define q where "q = reserve_range (kernel_image_start b) (kernel_image_end b) (reserve_range 0 0x100000 (fold add_entry es pmm_blank))"
  have q: "pmm_inv q" unfolding q_def by (intro invariants boot_inv tags)
  let ?pm = "pmm_log q"
  have i: "pmm_init (b_mem b) (b_info b) (kernel_image_start b) (kernel_image_end b) = Some (q, ?pm)"
    by (simp add: pmm_init_def tag_loop_tags [OF tags(1)] q_def pmm_log_def Let_def)
  let ?k = "[Printf (''kernel image: %p - %p'' @ [CHR 0x0A]) [VInt (kernel_image_start b), VInt (kernel_image_end b)]]"
  obtain c1 where c1: "boot_print ?k p = Some (on_vfs (\<lambda>v. v\<lparr>v_con := c1\<rparr>) p)" "console_inv c1"
    by (rule boot_print_ok [OF _ con, of ?k]) simp_all
  let ?p1 = "on_system (\<lambda>y. y\<lparr>y_pmm := q\<rparr>) (on_vfs (\<lambda>v. v\<lparr>v_con := c1\<rparr>) p)"
  obtain c2 where c2: "boot_print ?pm ?p1 = Some (on_vfs (\<lambda>v. v\<lparr>v_con := c2\<rparr>) ?p1)" "console_inv c2"
    by (rule boot_print_ok [of ?pm ?p1]) (use c1(2) in \<open>simp_all add: on_defs vunsigned_def pmm_log_def\<close>)
  let ?s = "swap_init (pmm_total_pages q)"
  let ?p2 = "on_system (\<lambda>y. y\<lparr>y_swap := fst ?s\<rparr>) (on_vfs (\<lambda>v. v\<lparr>v_con := c2\<rparr>) ?p1)"
  obtain c3 where c3: "boot_print (snd ?s) ?p2 = Some (on_vfs (\<lambda>v. v\<lparr>v_con := c3\<rparr>) ?p2)" "console_inv c3"
    by (rule boot_print_ok [of "snd ?s" ?p2]) (use c2(2) in \<open>simp_all add: on_defs vunsigned_def swap_init_def Let_def\<close>)
  let ?p3 = "on_vfs (\<lambda>v. v\<lparr>v_con := c3\<rparr>) ?p2"
  obtain c4 where c4: "boot_print vmm_init ?p3 = Some (on_vfs (\<lambda>v. v\<lparr>v_con := c4\<rparr>) ?p3)" "console_inv c4"
    by (rule boot_print_ok [of vmm_init ?p3]) (use c3(2) in \<open>simp_all add: on_defs vmm_init_def\<close>)
  let ?p4 = "on_kernel (\<lambda>k. k\<lparr>k_sched := fst (scheduler_init q)\<rparr>) (on_vfs (\<lambda>v. v\<lparr>v_tasks := task_init (v_tasks v)\<rparr>) (on_vfs (\<lambda>v. v\<lparr>v_con := c4\<rparr>) ?p3))"
  obtain c5 where c5: "boot_print (snd (scheduler_init q)) ?p4 = Some (on_vfs (\<lambda>v. v\<lparr>v_con := c5\<rparr>) ?p4)" "console_inv c5"
    by (rule boot_print_ok [of "snd (scheduler_init q)" ?p4]) (use c4(2) in \<open>simp_all add: on_defs scheduler_init_def\<close>)
  show thesis
  proof (rule that [OF c5(2) q i])
    show "boot_memory b p = Some (on_vfs (\<lambda>v. v\<lparr>v_con := c5, v_tasks := task_init (v_tasks v)\<rparr>) (on_kernel (\<lambda>k. k\<lparr>k_sched := fst (scheduler_init q)\<rparr>)
        (on_system (\<lambda>y. y\<lparr>y_pmm := q, y_swap := fst ?s\<rparr>) p)))"
      unfolding boot_memory_def c1 i Option.bind.simps prod.case c2 c3 c4 c5 by (simp add: on_defs)
  qed
qed

subsection \<open>The file system\<close>

lemma device_id_inv:
  assumes "tmpfs_inv fs"
  shows "tmpfs_inv (upd_node i (\<lambda>n. n\<lparr>n_device_id := d\<rparr>) fs)"
proof -
  let ?f = "upd_node i (\<lambda>n. n\<lparr>n_device_id := d\<rparr>) fs"
  obtain ch where t: "tree fs ch" and st: "storage fs" using assms by (auto simp: tmpfs_inv_def)
  have n: "\<exists>e. g_nodes ?f ! j = (g_nodes fs ! j)\<lparr>n_device_id := e\<rparr>" for j
    by (cases "j = nat i \<and> j < length (g_nodes fs)")
      (auto simp: upd_node_def nth_list_update list_update_beyond not_less intro: exI [of _ "n_device_id (g_nodes fs ! j)"])
  have eq: "n_type (g_nodes ?f ! j) = n_type (g_nodes fs ! j)" "n_data (g_nodes ?f ! j) = n_data (g_nodes fs ! j)"
    "n_size (g_nodes ?f ! j) = n_size (g_nodes fs ! j)" "n_capacity (g_nodes ?f ! j) = n_capacity (g_nodes fs ! j)"
    "block (g_nodes ?f ! j) = block (g_nodes fs ! j)" for j
    using n [of j] by (auto simp: block_def split: option.split)
  have "tree ?f ch"
  proof (rule tree_cong [OF t])
    fix j show "n_type (g_nodes ?f ! j) = n_type (g_nodes fs ! j) \<and> n_parent_id (g_nodes ?f ! j) = n_parent_id (g_nodes fs ! j) \<and>
        n_id (g_nodes ?f ! j) = n_id (g_nodes fs ! j) \<and> n_name (g_nodes ?f ! j) = n_name (g_nodes fs ! j) \<and>
        n_first_child_id (g_nodes ?f ! j) = n_first_child_id (g_nodes fs ! j) \<and>
        n_next_sibling_id (g_nodes ?f ! j) = n_next_sibling_id (g_nodes fs ! j)"
      using n [of j] by auto
  qed simp
  moreover have "storage ?f" using st unfolding storage_def live_def eq upd_node_sel(2,3) .
  ultimately show ?thesis by (auto simp: tmpfs_inv_def)
qed

lemma init_device_ok:
  assumes inv: "tmpfs_inv fs" and e: "tree_entry (nm, 0, [])"
  shows "\<exists>fs'. init_device_node (''/'' @ nm) d fs = Some fs' \<and> tmpfs_inv fs'"
proof -
  obtain r f1 where c: "tmpfs_create_path (''/'' @ nm) VFS_NODE_CHARDEV 0x1B6 fs = Some (r, f1)" "tmpfs_inv f1"
    by (rule create_effect [OF inv e, of VFS_NODE_CHARDEV "0x1B6"]) auto
  obtain ch where t: "tree f1 ch" using c(2) by (auto simp: tmpfs_inv_def)
  obtain q where "tmpfs_lookup_path (''/'' @ nm) f1 = Some q"
    using resolve_path_tree [OF t] unfolding tmpfs_lookup_path_def by blast
  then show ?thesis using c device_id_inv [OF c(2)] by (simp add: init_device_node_def)
qed

lemma boot_names:
  "tree_entry (''dev'', 0, [])" "tree_entry (''bin'', 0, [])" "tree_entry (''tmp'', 0, [])" "tree_entry (''etc'', 0, [])"
  "tree_entry (''dev/console'', 0, [])" "tree_entry (''dev/tty'', 0, [])" "tree_entry (''dev/null'', 0, [])" "tree_entry (''dev/zero'', 0, [])"
proof -
  have top: "tree_entry (nm, 0, [])" if "component nm" "length nm < 20" "nm \<noteq> ''TRAILER!!!''" "single_slashes (''/'' @ nm)" for nm
    unfolding tree_entry_def prod.case using that
    by (intro conjI exI [of _ "[]"] exI [of _ nm]) (auto simp: clean_path_def component_def dir_prefix_def)
  have dev: "tree_entry (''dev/'' @ nm, 0, [])" if "component nm" "single_slashes (''/dev/'' @ nm)" for nm
    unfolding tree_entry_def prod.case using that
    by (intro conjI exI [of _ "''dev/''"] exI [of _ nm]) (auto simp: clean_path_def component_def dir_prefix_def)
  show "tree_entry (''dev'', 0, [])" "tree_entry (''bin'', 0, [])" "tree_entry (''tmp'', 0, [])" "tree_entry (''etc'', 0, [])"
    by (rule top; simp add: component_def)+
  show "tree_entry (''dev/console'', 0, [])" "tree_entry (''dev/tty'', 0, [])" "tree_entry (''dev/null'', 0, [])" "tree_entry (''dev/zero'', 0, [])"
    using dev [of "''console''"] dev [of "''tty''"] dev [of "''null''"] dev [of "''zero''"] by (simp_all add: component_def)
qed

lemma fs_init_boots:
  assumes "\<And>a. g_data_arena fs a = 0"
  shows "\<exists>fs'. fs_init fs = Some (fs', [Writeln ''fs: tmpfs root mounted'' []]) \<and> tmpfs_inv fs'"
proof -
  have mk: "\<exists>f'. map_option snd (tmpfs_create_path (''/'' @ nm) VFS_NODE_DIR mode f) = Some f' \<and> tmpfs_inv f'"
    if "tmpfs_inv f" "tree_entry (nm, 0, [])" for nm mode f
    by (rule create_effect [OF that, of VFS_NODE_DIR mode]) auto
  obtain f1 where f1: "map_option snd (tmpfs_create_path ''/dev'' VFS_NODE_DIR 0x1ED (tmpfs_init fs)) = Some f1" "tmpfs_inv f1"
    using mk [OF tmpfs_init_inv [OF assms] boot_names(1), of "0x1ED"] by auto
  obtain f2 where f2: "map_option snd (tmpfs_create_path ''/bin'' VFS_NODE_DIR 0x1ED f1) = Some f2" "tmpfs_inv f2"
    using mk [OF f1(2) boot_names(2), of "0x1ED"] by auto
  obtain f3 where f3: "map_option snd (tmpfs_create_path ''/tmp'' VFS_NODE_DIR 0x1FF f2) = Some f3" "tmpfs_inv f3"
    using mk [OF f2(2) boot_names(3), of "0x1FF"] by auto
  obtain f4 where f4: "map_option snd (tmpfs_create_path ''/etc'' VFS_NODE_DIR 0x1ED f3) = Some f4" "tmpfs_inv f4"
    using mk [OF f3(2) boot_names(4), of "0x1ED"] by auto
  obtain f5 where f5: "init_device_node ''/dev/console'' DEV_CONSOLE f4 = Some f5" "tmpfs_inv f5"
    using init_device_ok [OF f4(2) boot_names(5)] by auto
  obtain f6 where f6: "init_device_node ''/dev/tty'' DEV_TTY f5 = Some f6" "tmpfs_inv f6"
    using init_device_ok [OF f5(2) boot_names(6)] by auto
  obtain f7 where f7: "init_device_node ''/dev/null'' DEV_NULL f6 = Some f7" "tmpfs_inv f7"
    using init_device_ok [OF f6(2) boot_names(7)] by auto
  obtain f8 where f8: "init_device_node ''/dev/zero'' DEV_ZERO f7 = Some f8" "tmpfs_inv f8"
    using init_device_ok [OF f7(2) boot_names(8)] by auto
  have "fs_init fs = Some (f8, [Writeln ''fs: tmpfs root mounted'' []])"
    by (simp only: fs_init_def Let_def fold_simps prod.case Option.bind.simps f1(1) f2(1) f3(1) f4(1) f5(1) f6(1) f7(1) f8(1) option.map)
  then show ?thesis using f8(2) by blast
qed

subsection \<open>Devices\<close>

text \<open>What the boot code has established before the archive is mounted; \<open>tt\<close> is the task table.\<close>

definition brought_up :: "platform \<Rightarrow> task_table \<Rightarrow> bool" where
  "brought_up p tt \<longleftrightarrow> platform_inv p \<and> v_tasks (vfs_of p) = tt \<and> uptime (p_system p) = 0"

definition before_devices :: "platform \<Rightarrow> bool" where
  "before_devices p \<longleftrightarrow> console_inv (v_con (vfs_of p)) \<and> (\<forall>a. g_data_arena (v_fs (vfs_of p)) a = 0) \<and>
     v_files (vfs_of p) = replicate MAX_OPEN_FILES zero_file \<and> heap_inv (k_heap (y_kernel (p_system p))) \<and>
     pmm_inv (y_pmm (p_system p)) \<and> swap_inv (y_swap (p_system p)) \<and> y_net (p_system p) = static_net \<and>
     length (g_packet (p_mouse p)) = 4 \<and> g_timer_ticks p = 0 \<and> uptime (p_system p) = 0 \<and> calm (p_system p)"

lemma before_devices_keeps [simp]:
  "before_devices (p\<lparr>p_keyboard := kb\<rparr>) = before_devices p" "before_devices (p\<lparr>g_idt := l\<rparr>) = before_devices p"
  "before_devices (port_out ws p) = before_devices p"
  by (simp_all add: before_devices_def port_out_def uptime_def calm_def Let_def)

lemma before_devices_con: "before_devices p \<Longrightarrow> console_inv c \<Longrightarrow> before_devices (on_vfs (\<lambda>v. v\<lparr>v_con := c\<rparr>) p)"
  by (simp add: before_devices_def on_defs uptime_def calm_def)

lemma before_devices_print:
  assumes "before_devices p" and "list_all printable cs"
  obtains c where "boot_print cs p = Some (on_vfs (\<lambda>v. v\<lparr>v_con := c\<rparr>) p)" "before_devices (on_vfs (\<lambda>v. v\<lparr>v_con := c\<rparr>) p)"
proof -
  obtain c where "boot_print cs p = Some (on_vfs (\<lambda>v. v\<lparr>v_con := c\<rparr>) p)" "console_inv c"
    by (rule boot_print_ok [OF assms(2), of p]) (use assms(1) in \<open>simp add: before_devices_def\<close>)
  then show thesis using that before_devices_con [OF assms(1)] by blast
qed

lemma vfs_of_con [simp]:
  "v_fs (vfs_of (on_vfs (\<lambda>v. v\<lparr>v_con := c\<rparr>) p)) = v_fs (vfs_of p)" "v_tasks (vfs_of (on_vfs (\<lambda>v. v\<lparr>v_con := c\<rparr>) p)) = v_tasks (vfs_of p)"
  "p_mouse (on_vfs (\<lambda>v. v\<lparr>v_con := c\<rparr>) p) = p_mouse p" "p_keyboard (on_vfs (\<lambda>v. v\<lparr>v_con := c\<rparr>) p) = p_keyboard p"
  "vfs_of (port_out ws p) = vfs_of p"
  "y_pmm (p_system (on_vfs f p)) = y_pmm (p_system p)" "g_idt (on_vfs f p) = g_idt p"
  by (simp_all add: on_defs port_out_def Let_def)

lemma mouse_log: "list_all printable (snd (snd (mouse_init inp st)))"
  by (simp add: mouse_init_def case_prod_beta Let_def vunsigned_def)

lemma platform_print:
  assumes "brought_up p tt" and "list_all printable cs"
  obtains c where "boot_print cs p = Some (on_vfs (\<lambda>v. v\<lparr>v_con := c\<rparr>) p)" "brought_up (on_vfs (\<lambda>v. v\<lparr>v_con := c\<rparr>) p) tt"
proof -
  have i: "system_inv (p_system p)" using assms(1) by (simp add: brought_up_def platform_inv_def)
  have "v_con (vfs_of p) = con_of (p_system p)" by (simp add: con_of_def)
  then obtain c where c: "boot_print cs p = Some (on_vfs (\<lambda>v. v\<lparr>v_con := c\<rparr>) p)" "console_inv c"
    using boot_print_ok [OF assms(2), of p] system_con [OF i] by metis
  have "p_system (on_vfs (\<lambda>v. v\<lparr>v_con := c\<rparr>) p) = set_con c (p_system p)" by (simp add: on_defs set_con_def)
  then have "brought_up (on_vfs (\<lambda>v. v\<lparr>v_con := c\<rparr>) p) tt"
    using assms(1) system_set_con [OF i c(2)] by (simp add: brought_up_def platform_inv_def) (simp add: on_defs uptime_def set_con_def)
  then show thesis using that c(1) by blast
qed

lemma brought_up_intro:
  assumes "before_devices p" and "tmpfs_inv fs" and "task_boot (v_tasks (vfs_of p))" and "net_inv n" and "w_ticks n = 0" and "mouse_inv (p_mouse p)"
  shows "brought_up (on_system (\<lambda>y. y\<lparr>y_net := n\<rparr>) (on_vfs (\<lambda>v. v\<lparr>v_fs := fs\<rparr>) p)) (v_tasks (vfs_of p))"
proof -
  have "vfs_boot ((vfs_of p)\<lparr>v_fs := fs\<rparr>)" using assms(1-3) by (simp add: vfs_boot_def before_devices_def)
  then show ?thesis using vfs_boot_inv assms
    by (simp add: brought_up_def platform_inv_def system_inv_def parts_inv_def calm_def kernel_inv_def before_devices_def on_defs uptime_def)
qed

lemma boot_devices_returns:
  assumes b: "before_devices p" and tb: "task_boot (v_tasks (vfs_of p))" and kb: "drain_ps2 (b_kbd b) 0 \<noteq> None"
  obtains q where "boot_devices b p = Some q" "brought_up q (v_tasks (vfs_of p))"
    "y_pmm (p_system q) = y_pmm (p_system p)" "g_idt q = g_idt (interrupt_init (b_stubs b) p)"
proof -
  let ?on = "\<lambda>c. on_vfs (\<lambda>v. v\<lparr>v_con := c\<rparr>)"
  let ?tt = "v_tasks (vfs_of p)"
  define p1 where "p1 = interrupt_init (b_stubs b) p"
  have p1: "before_devices p1" "v_tasks (vfs_of p1) = ?tt" using b by (simp_all add: p1_def interrupt_init_def)
  obtain k where k: "keyboard_init (b_kbd b) (p_keyboard p1) = Some (k, [Writeln ''keyboard: PS/2 input ready'' []])"
    using kb by (auto simp: keyboard_init_def)
  obtain c2 where c2: "boot_print [Writeln ''keyboard: PS/2 input ready'' []] (p1\<lparr>p_keyboard := k\<rparr>) = Some (?on c2 (p1\<lparr>p_keyboard := k\<rparr>))"
      "before_devices (?on c2 (p1\<lparr>p_keyboard := k\<rparr>))"
    by (rule before_devices_print [of "p1\<lparr>p_keyboard := k\<rparr>" "[Writeln ''keyboard: PS/2 input ready'' []]"]) (use p1 in simp_all)
  define p2 where "p2 = ?on c2 (p1\<lparr>p_keyboard := k\<rparr>)"
  obtain ms ps cs where m: "mouse_init (b_mouse b) (p_mouse p2, \<lparr>p_reads = 0, p_out = []\<rparr>) = (ms, ps, cs)"
    by (metis prod_cases3)
  have l4: "length (g_packet (p_mouse p2)) = 4" using c2(2) by (simp add: p2_def before_devices_def)
  have mi: "mouse_inv ms" using mouse_init_inv [OF l4, of "b_mouse b" "\<lparr>p_reads = 0, p_out = []\<rparr>"] m by simp
  have mc: "list_all printable cs" using mouse_log [of "b_mouse b" "(p_mouse p2, \<lparr>p_reads = 0, p_out = []\<rparr>)"] m by simp
  define p3 where "p3 = port_out (p_out ps) (p2\<lparr>p_mouse := ms\<rparr>)"
  have "before_devices (p2\<lparr>p_mouse := ms\<rparr>)" using c2(2) mi by (simp add: p2_def before_devices_def mouse_inv_def)
  then have p3: "before_devices p3" "p_mouse p3 = ms" by (simp_all add: p3_def)
  obtain c3 where c3: "boot_print cs p3 = Some (?on c3 p3)" "before_devices (?on c3 p3)"
    by (rule before_devices_print [OF p3(1) mc])
  obtain c4 where c4: "boot_print (snd (syscall_init (b_entry b))) (?on c3 p3) = Some (?on c4 (?on c3 p3))" "before_devices (?on c4 (?on c3 p3))"
    by (rule before_devices_print [OF c3(2), of "snd (syscall_init (b_entry b))"]) (simp add: syscall_init_def vunsigned_def)
  define p4 where "p4 = ?on c4 (?on c3 p3)"
  obtain fs where fs: "fs_init (v_fs (vfs_of p4)) = Some (fs, [Writeln ''fs: tmpfs root mounted'' []])" "tmpfs_inv fs"
    using fs_init_boots [of "v_fs (vfs_of p4)"] c4(2) by (auto simp: p4_def before_devices_def)
  have p4: "before_devices p4" "v_tasks (vfs_of p4) = ?tt" "p_mouse p4 = ms"
    using c4(2) p1(2) p3(2) by (simp_all add: p4_def p3_def p2_def) 
  define n where "n = net_init (x_world (b_env b)) (static_net\<lparr>w_log := []\<rparr>)"
  have n: "net_inv n \<and> w_ticks n = w_ticks (static_net\<lparr>w_log := []\<rparr>) \<and> list_all printable (w_log n)"
    unfolding n_def by (rule net_init_boots) (simp_all add: static_net_def)
  then have wt: "w_ticks n = 0" by (simp add: static_net_def)
  let ?p5 = "on_vfs (\<lambda>v. v\<lparr>v_fs := fs\<rparr>) p4"
  obtain c5 where c5: "boot_print [Writeln ''fs: tmpfs root mounted'' []] ?p5 = Some (?on c5 ?p5)" "console_inv c5"
    by (rule boot_print_ok [of "[Writeln ''fs: tmpfs root mounted'' []]" ?p5]) (use p4(1) in \<open>simp_all add: before_devices_def on_defs\<close>)
  have nt: "y_net (p_system (?on c5 ?p5)) = static_net" using p4(1) by (simp add: before_devices_def on_defs)
  let ?p6 = "on_system (\<lambda>y. y\<lparr>y_net := n\<rparr>) (?on c5 ?p5)"
  have "?p6 = on_system (\<lambda>y. y\<lparr>y_net := n\<rparr>) (on_vfs (\<lambda>v. v\<lparr>v_fs := fs\<rparr>) (?on c5 p4))" by (simp add: on_defs)
  then have "brought_up ?p6 ?tt"
    using brought_up_intro [OF before_devices_con [OF p4(1) c5(2)] fs(2), of n] tb n wt mi p4 by simp
  then obtain c6 where c6: "boot_print (w_log n) ?p6 = Some (?on c6 ?p6)" "brought_up (?on c6 ?p6) ?tt"
    using platform_print n by blast
  have "boot_devices b p = Some (?on c6 ?p6)"
    unfolding boot_devices_def Let_def p1_def [symmetric] k Option.bind.simps prod.case c2(1) p2_def [symmetric] m
      p3_def [symmetric] c3(1) c4(1) p4_def [symmetric] fs(1) c5(1) nt n_def [symmetric] c6(1) ..
  moreover have "y_pmm (p_system (?on c6 ?p6)) = y_pmm (p_system p)" "g_idt (?on c6 ?p6) = g_idt p1"
    by (simp_all add: on_defs p4_def p3_def p2_def p1_def interrupt_init_def port_out_def Let_def)
  ultimately show thesis using that c6(2) by (simp add: p1_def)
qed

subsection \<open>The archive, the first tasks and the monitor\<close>

lemma find_module_returns: "boot_tags mem t es \<Longrightarrow> \<exists>m. find_module mem t = Some m"
proof (induction rule: boot_tags.induct)
  case (stop t)
  then show ?case by (simp add: find_module.simps [of mem t])
next
  case (mmap t es fs)
  then show ?case by (simp add: find_module.simps [of mem t])
next
  case (other t fs)
  then show ?case by (simp add: find_module.simps [of mem t])
qed

text \<open>The boot information is well formed, and the module, if there is one, is an archive as the build writes it.\<close>

definition boot_info :: "boot \<Rightarrow> bool" where
  "boot_info b \<longleftrightarrow> (\<exists>es. boot_tags (b_mem b) (multiboot2_first_tag (b_info b)) es \<and> disjoint_entries es) \<and>
     (\<forall>t. find_initramfs_module (b_mem b) (b_info b) = Some (Some t) \<longrightarrow>
        (\<exists>es. module_bytes (b_mem b) t = emit_tree es \<and> (\<forall>e \<in> set es. tree_entry e)))"

lemma brought_up_fs:
  assumes "brought_up p tt" and "vfs_inv ((vfs_of p)\<lparr>v_fs := fs\<rparr>)"
  shows "brought_up (on_vfs (\<lambda>_. (vfs_of p)\<lparr>v_fs := fs\<rparr>) p) tt"
  using assms by (simp add: brought_up_def platform_inv_def system_inv_def parts_inv_def kernel_inv_def calm_def on_defs uptime_def)

lemma mount_emit:
  assumes "vfs_inv v" and "t_cwd (task_current (v_tasks v)) = ''/''" and "\<forall>e \<in> set es. tree_entry e"
  shows "\<exists>fs. fs_mount_initramfs (emit_tree es) v = Some (0, v\<lparr>v_fs := fs\<rparr>) \<and> vfs_inv (v\<lparr>v_fs := fs\<rparr>)"
proof -
  have inv: "tmpfs_inv (v_fs v)" using assms(1) by (simp add: vfs_inv_def)
  obtain fs where m: "mount_all es (v_fs v) = Some fs" "tmpfs_inv fs" by (rule mount_all_returns [OF inv assms(3)])
  then show ?thesis using mount_loop_emit [OF assms(2,3), of "v_fs v"] vfs_inv_fs [OF assms(1) m(2)] by (auto simp: fs_mount_initramfs_def)
qed

lemma boot_initramfs_returns:
  assumes b: "boot_info b" and p: "brought_up p tt" and tt: "task_boot tt"
  obtains q where "boot_initramfs b p = Some q" "brought_up q tt" "y_pmm (p_system q) = y_pmm (p_system p)" "g_idt q = g_idt p"
proof -
  obtain m where m: "find_initramfs_module (b_mem b) (b_info b) = Some m"
    using b find_module_returns unfolding boot_info_def find_initramfs_module_def by blast
  show thesis
  proof (cases m)
    case None
    have "list_all printable [Writeln ''initramfs: no module present'' []]" by simp
    then obtain c where c: "boot_print [Writeln ''initramfs: no module present'' []] p = Some (on_vfs (\<lambda>v. v\<lparr>v_con := c\<rparr>) p)"
        "brought_up (on_vfs (\<lambda>v. v\<lparr>v_con := c\<rparr>) p) tt"
      by (rule platform_print [OF p])
    show thesis by (rule that [OF _ c(2)]) (use None m c(1) in \<open>simp_all add: boot_initramfs_def\<close>)
  next
    case (Some t)
    then obtain es where es: "module_bytes (b_mem b) t = emit_tree es" "\<forall>e \<in> set es. tree_entry e"
      using b m by (auto simp: boot_info_def)
    have v: "vfs_inv (vfs_of p)" using p by (simp add: brought_up_def platform_inv_def system_inv_def parts_inv_def kernel_inv_def)
    have w: "t_cwd (task_current (v_tasks (vfs_of p))) = ''/''"
      using p tt by (auto simp: brought_up_def task_boot_def task_init_sel task_current_def)
    obtain fs where fs: "fs_mount_initramfs (emit_tree es) (vfs_of p) = Some (0, (vfs_of p)\<lparr>v_fs := fs\<rparr>)" "vfs_inv ((vfs_of p)\<lparr>v_fs := fs\<rparr>)"
      using mount_emit [OF v w es(2)] by blast
    let ?cs = "[Printf (''initramfs: module %p-%p mount=%d'' @ [CHR 0x0A])
        [VInt (ucast (mod_start (b_mem b) t)), VInt (ucast (mod_end (b_mem b) t)), vpid 0]]"
    have "list_all printable ?cs" by (simp add: vpid_def vunsigned_def)
    let ?p = "on_vfs (\<lambda>_. (vfs_of p)\<lparr>v_fs := fs\<rparr>) p"
    obtain c where c: "boot_print ?cs ?p = Some (on_vfs (\<lambda>v. v\<lparr>v_con := c\<rparr>) ?p)" "brought_up (on_vfs (\<lambda>v. v\<lparr>v_con := c\<rparr>) ?p) tt"
      by (rule platform_print [OF brought_up_fs [OF p fs(2)] \<open>list_all printable ?cs\<close>])
    show thesis
    proof (rule that [OF _ c(2)])
      show "boot_initramfs b p = Some (on_vfs (\<lambda>v. v\<lparr>v_con := c\<rparr>) ?p)"
        unfolding boot_initramfs_def m Some es(1) option.case Option.bind.simps fs(1) prod.case c(1) ..
    qed simp_all
  qed
qed

lemma boot_tasks_inv: "brought_up p tt \<Longrightarrow> platform_inv (boot_tasks p) \<and> uptime (p_system (boot_tasks p)) = 0"
proof -
  assume p: "brought_up p tt"
  let ?k = "y_kernel (p_system p)"
  let ?q = "with_kernel p (set_tasks (fold run_event [Create ''kidle'', Spawn ''init''] (tasks ?k)) ?k)"
  have e: "boot_tasks p = ?q" by (simp add: boot_tasks_def with_kernel_def on_defs Let_def)
  have i: "platform_inv p" "uptime (p_system p) = 0" using p by (simp_all add: brought_up_def)
  then have "kernel_inv ?k" by (simp add: platform_inv_def system_inv_def parts_inv_def)
  then have "platform_inv ?q" by (intro with_kernel_inv [OF i(1)] kernel_events_inv) (simp_all add: sched_upd)
  moreover have "uptime (p_system ?q) = 0" using i(2) by (simp add: with_kernel_def uptime_def)
  ultimately show ?thesis unfolding e ..
qed

lemma net_cmd_returns:
  assumes inv: "system_inv y" and f: "f (x_world x) ((y_net y)\<lparr>w_log := []\<rparr>) = Some (r, s)" "net_inv s" "list_all printable (w_log s)"
  shows "\<exists>y'. net_cmd x f y = Some (Inr (r, y'))"
proof -
  have "parts_inv (y\<lparr>y_net := s\<rparr>)" using inv f(2) by (simp add: system_inv_def parts_inv_def calm_def)
  then obtain y1 where y1: "reply r (w_log s) (y\<lparr>y_net := s\<rparr>) = Some (Inr (r, y1))" "parts_inv y1" using reply_ok f(3) by blast
  obtain y2 where "pass_ticks (x_hw x) (unat (w_ticks s - w_ticks (y_net y))) y1 = Some (Inr (0, y2))"
    by (rule pass_ticks_returns [OF y1(2)])
  then show ?thesis by (simp add: net_cmd_def f(1) y1(1) then_cmd_def finish_cmd_def)
qed

lemma net_cmd_pmm:
  assumes "net_cmd x f y = Some (Inr (r, y'))"
  shows "y_pmm y' = y_pmm y"
proof -
  have rp: "y_pmm y2 = y_pmm y1" if "reply r cs y1 = Some (Inr (r', y2))" for r cs y1 r' y2
    using reply_frame(1) [OF that] by auto
  then have "y_pmm y2 = y_pmm y1" if "pass_ticks hw n y1 = Some (Inr (r', y2))" for hw n y1 r' y2
    using that by (fastforce simp: pass_ticks_def split: sum.splits prod.splits)
  then show ?thesis using assms rp
    by (fastforce simp: net_cmd_def then_cmd_def finish_cmd_def split: option.splits sum.splits prod.splits)
qed

lemma startup_connects:
  assumes inv: "system_inv y" and t: "timer_runs (x_world x)"
  shows "\<exists>y'. net_cmd x (\<lambda>w s. map_option (Pair 0) (net_startup_connect w s)) y = Some (Inr (0, y')) \<and> system_inv y'"
proof -
  let ?f = "\<lambda>w s. map_option (Pair 0) (net_startup_connect w s)" and ?n = "(y_net y)\<lparr>w_log := []\<rparr>"
  have "net_inv ?n" using inv by (simp add: system_inv_def parts_inv_def net_inv_def)
  then obtain s where s: "net_startup_connect (x_world x) ?n = Some s" "net_inv s" "list_all printable (w_log s)"
    using startup_prints [OF t, of ?n] by auto
  then obtain y' where y': "net_cmd x ?f y = Some (Inr (0, y'))" using net_cmd_returns [OF inv, of ?f x] by auto
  have "sound (net_cmd x ?f y)" by (rule sound_net_cmd [OF inv]) (use startup_prints [OF t] startup_returns [OF t] in fastforce)
  then show ?thesis using y' by (simp add: sound_def)
qed

text \<open>A result of the banner: there is a console, and it is in order.\<close>

definition shown :: "console option \<Rightarrow> bool" where
  "shown r \<longleftrightarrow> (\<exists>c. r = Some c \<and> console_inv c)"

lemma shown_steps:
  "console_inv c \<Longrightarrow> shown (Some c)"
  "CHR ''{'' \<notin> set t \<Longrightarrow> shown r \<Longrightarrow> shown (Option.bind r (console_writeln t []))"
  "shown r \<Longrightarrow> shown (map_option (console_set_color_hex h b) r)"
  "shown r \<Longrightarrow> shown (map_option (console_putc ch) r)"
  "shown r \<Longrightarrow> shown (map_option console_reset_color r)"
  using set_color_hex_inv console_putc_inv printable_runs [of "Writeln t []"] run_call_inv [of _ "Writeln t []"]
  by (fastforce simp: shown_def console_reset_color_def)+

lemma shown_title: "shown r \<Longrightarrow> shown (Option.bind r (console_write ''{} {}'' [VStr a, VStr b]))"
proof -
  have "\<exists>d. console_write ''{} {}'' [VStr a, VStr b] c = Some d" for c
    by (simp add: console_write_def console_write_braces_v_def kvformat_braces_def case_prod_beta)
  then show "shown r \<Longrightarrow> ?thesis" using write_inv by (fastforce simp: shown_def)
qed

lemma cli_init_shown: "console_inv c \<Longrightarrow> shown (cli_init c)"
  unfolding cli_init_def Let_def fold_simps comp_def id_def
  by (intro shown_steps shown_title) simp_all

lemma boot_monitor_returns:
  assumes p: "platform_inv p" and t: "timer_runs (x_world (b_env b))"
  obtains q where "boot_monitor b p = Some (Inr (q, static_cli, fst (syscall_init (b_entry b))))" "platform_inv q"
    "y_pmm (p_system q) = y_pmm (p_system p)" "g_idt q = g_idt p"
proof -
  have i: "system_inv (p_system p)" using p by (simp add: platform_inv_def)
  obtain y where y: "net_cmd (b_env b) (\<lambda>w s. map_option (Pair 0) (net_startup_connect w s)) (p_system p) = Some (Inr (0, y))" "system_inv y"
    using startup_connects [OF i t] by blast
  obtain c where c: "cli_init (con_of y) = Some c" "console_inv c" using cli_init_shown [OF system_con [OF y(2)]] by (auto simp: shown_def)
  obtain d where d: "print_prompt c = Some d" using print_prompt_ok by blast
  have "console_inv d" by (rule print_prompt_inv [OF d c(2)])
  then have "platform_inv (monitor_turn p (set_con d y))" using monitor_turn_inv [OF p] system_set_con [OF y(2)] by blast
  then show thesis using that net_cmd_pmm [OF y(1)] by (simp add: boot_monitor_def y(1) c(1) d) (simp add: monitor_turn_def)
qed

subsection \<open>The boot sequence\<close>

lemma console_init_inv: "console_inv (console_init (static_console vga))"
proof (rule con.inv_init)
  have "length (g_input_buffer (static_console vga)) = CONSOLE_INPUT_CAPACITY" by (simp add: static_console_def)
  then show "console_boot (console_init (static_console vga))" unfolding console_boot_def by blast
qed

lemma static_cli_inv: "cli_inv static_cli"
  by (simp add: cli_inv_def static_cli_def CLI_MAX_LINE_def cstr_def)

text \<open>The state with which the devices are started: what memory set-up leaves of the static data.\<close>

lemma memory_to_devices:
  assumes "console_inv c" and "pmm_inv q"
    and "p = on_vfs (\<lambda>v. v\<lparr>v_con := c, v_tasks := task_init (v_tasks v)\<rparr>) (on_kernel (\<lambda>k. k\<lparr>k_sched := fst (scheduler_init q)\<rparr>)
        (on_system (\<lambda>y. y\<lparr>y_pmm := q, y_swap := fst (swap_init (pmm_total_pages q))\<rparr>) (on_vfs (\<lambda>v. v\<lparr>v_con := d\<rparr>) (static_data vga user))))"
  shows "before_devices p" and "task_boot (v_tasks (vfs_of p))" and "y_pmm (p_system p) = q" and "g_idt p = replicate 256 zero_gate"
proof -
  have "swap_inv (fst (swap_init n))" for n by (simp add: swap_init_def swap_inv_def Let_def)
  then show "before_devices p" using assms
    by (simp add: before_devices_def static_data_def static_kernel_def on_defs uptime_def calm_def scheduler_init_def heap_inv_def)
  show "task_boot (v_tasks (vfs_of p))" using assms(3) unfolding task_boot_def
    by (intro exI [of _ "v_tasks (vfs_of (static_data vga user))"]) (simp add: static_data_def static_kernel_def on_defs)
  show "y_pmm (p_system p) = q" "g_idt p = replicate 256 zero_gate" using assms(3) by (simp_all add: static_data_def on_defs)
qed

lemma greeting:
  obtains d where "boot_print [Writeln ''MGCORE x86_64 bootstrap'' []] (on_vfs (\<lambda>v. v\<lparr>v_con := console_init (v_con v)\<rparr>) (static_data vga user)) =
      Some (on_vfs (\<lambda>v. v\<lparr>v_con := d\<rparr>) (static_data vga user))" "console_inv d"
proof -
  let ?p = "on_vfs (\<lambda>v. v\<lparr>v_con := console_init (v_con v)\<rparr>) (static_data vga user)"
  have "v_con (vfs_of ?p) = console_init (static_console vga)" by (simp add: static_data_def static_kernel_def on_defs)
  then have "console_inv (v_con (vfs_of ?p))" using console_init_inv by simp
  then obtain d where d: "boot_print [Writeln ''MGCORE x86_64 bootstrap'' []] ?p = Some (on_vfs (\<lambda>v. v\<lparr>v_con := d\<rparr>) ?p)" "console_inv d"
    using boot_print_ok [of "[Writeln ''MGCORE x86_64 bootstrap'' []]" ?p] by auto
  have "on_vfs (\<lambda>v. v\<lparr>v_con := d\<rparr>) ?p = on_vfs (\<lambda>v. v\<lparr>v_con := d\<rparr>) (static_data vga user)" by (simp add: on_defs)
  then show thesis using that d by simp
qed

lemma enable_inv: "platform_inv p \<Longrightarrow> platform_inv (on_kernel (\<lambda>k. of_machine (interrupt_enable (machine_of k)) k) p)"
  by (simp add: platform_inv_def system_inv_def parts_inv_def calm_def kernel_inv_def uptime_def on_defs of_machine_def machine_of_def
      interrupt_enable_def set_tasks_def tasks_def)

text \<open>The hypotheses on what the boot loader and the hardware hand over.\<close>

definition good_boot :: "boot \<Rightarrow> bool" where
  "good_boot b \<longleftrightarrow> boot_info b \<and> drain_ps2 (b_kbd b) 0 \<noteq> None \<and> timer_runs (x_world (b_env b))"

lemma kernel_main_returns:
  assumes good: "good_boot b" and magic: "b_magic b = MULTIBOOT2_BOOTLOADER_MAGIC"
  obtains p where "kernel_main b = Some (Inr (p, static_cli, fst (syscall_init (b_entry b))))" "platform_inv p"
    "map_option fst (pmm_init (b_mem b) (b_info b) (kernel_image_start b) (kernel_image_end b)) = Some (y_pmm (p_system p))"
    "\<And>i. i < 45 \<Longrightarrow> gate_address (g_idt p ! i) = b_stubs b i"
proof -
  obtain es where tags: "boot_tags (b_mem b) (multiboot2_first_tag (b_info b)) es" "disjoint_entries es"
    using good by (auto simp: good_boot_def boot_info_def)
  obtain d where d: "boot_print [Writeln ''MGCORE x86_64 bootstrap'' []] (on_vfs (\<lambda>v. v\<lparr>v_con := console_init (v_con v)\<rparr>) (static_data (b_vga b) (b_user b))) =
      Some (on_vfs (\<lambda>v. v\<lparr>v_con := d\<rparr>) (static_data (b_vga b) (b_user b)))" "console_inv d"
    by (rule greeting)
  have "console_inv (v_con (vfs_of (on_vfs (\<lambda>v. v\<lparr>v_con := d\<rparr>) (static_data (b_vga b) (b_user b)))))" using d(2) by (simp add: on_defs)
  then obtain c q p1 where q: "console_inv c" "pmm_inv q"
    "pmm_init (b_mem b) (b_info b) (kernel_image_start b) (kernel_image_end b) = Some (q, pmm_log q)" and m: "boot_memory b (on_vfs (\<lambda>v. v\<lparr>v_con := d\<rparr>) (static_data (b_vga b) (b_user b))) = Some p1"
    and p1: "p1 = on_vfs (\<lambda>v. v\<lparr>v_con := c, v_tasks := task_init (v_tasks v)\<rparr>) (on_kernel (\<lambda>k. k\<lparr>k_sched := fst (scheduler_init q)\<rparr>)
        (on_system (\<lambda>y. y\<lparr>y_pmm := q, y_swap := fst (swap_init (pmm_total_pages q))\<rparr>) (on_vfs (\<lambda>v. v\<lparr>v_con := d\<rparr>) (static_data (b_vga b) (b_user b)))))"
    by (rule boot_memory_returns [OF _ tags]) blast
  note e1 = memory_to_devices [OF q(1,2) p1]
  obtain p2 where p2: "boot_devices b p1 = Some p2" "brought_up p2 (v_tasks (vfs_of p1))"
    "y_pmm (p_system p2) = y_pmm (p_system p1)" "g_idt p2 = g_idt (interrupt_init (b_stubs b) p1)"
    by (rule boot_devices_returns [OF e1(1,2)]) (use good in \<open>auto simp: good_boot_def\<close>)
  obtain p3 where p3: "boot_initramfs b p2 = Some p3" "brought_up p3 (v_tasks (vfs_of p1))"
    "y_pmm (p_system p3) = y_pmm (p_system p2)" "g_idt p3 = g_idt p2"
    by (rule boot_initramfs_returns [OF _ p2(2) e1(2)]) (use good in \<open>auto simp: good_boot_def\<close>)
  have "brought_up (boot_tasks p3) (v_tasks (vfs_of (boot_tasks p3)))" using boot_tasks_inv [OF p3(2)] by (simp add: brought_up_def)
  then obtain c4 where c4: "boot_print [Writeln ''interrupts: enabling timer + serial monitor'' []] (boot_tasks p3) =
      Some (on_vfs (\<lambda>v. v\<lparr>v_con := c4\<rparr>) (boot_tasks p3))" "platform_inv (on_vfs (\<lambda>v. v\<lparr>v_con := c4\<rparr>) (boot_tasks p3))"
    by (rule platform_print [of _ _ "[Writeln ''interrupts: enabling timer + serial monitor'' []]"]) (simp_all add: brought_up_def)
  let ?p5 = "on_kernel (\<lambda>k. of_machine (interrupt_enable (machine_of k)) k) (on_vfs (\<lambda>v. v\<lparr>v_con := c4\<rparr>) (boot_tasks p3))"
  obtain p where p: "boot_monitor b ?p5 = Some (Inr (p, static_cli, fst (syscall_init (b_entry b))))" "platform_inv p"
    "y_pmm (p_system p) = y_pmm (p_system ?p5)" "g_idt p = g_idt ?p5"
    by (rule boot_monitor_returns [OF enable_inv [OF c4(2)]]) (use good in \<open>auto simp: good_boot_def\<close>)
  have k: "y_pmm (p_system p) = q" "g_idt p = g_idt (interrupt_init (b_stubs b) p1)"
    using p(3,4) p2(3,4) p3(3,4) e1(3) by (simp_all add: boot_tasks_def on_defs Let_def)
  show thesis
  proof (rule that [OF _ p(2)])
    show "kernel_main b = Some (Inr (p, static_cli, fst (syscall_init (b_entry b))))"
      by (simp add: kernel_main_def d(1) magic m p2(1) p3(1) c4(1) p(1))
    show "gate_address (g_idt p ! i) = b_stubs b i" if "i < 45" for i
      using interrupt_init_gates [of p1 i "b_stubs b"] that e1(4) k(2) by (simp add: Let_def)
  qed (simp add: q(3) k(1))
qed


definition sample_start :: boot where
  "sample_start = \<lparr>b_magic = 0x36d76289, b_info = 0, b_mem = sample_boot, kernel_image_start = 0x100000, kernel_image_end = 0x201000,
     b_stubs = (\<lambda>i. 0x100000 + of_nat i * 16), b_entry = 0x101000, b_kbd = (\<lambda>_. 0), b_mouse = (\<lambda>_. 0), b_vga = (\<lambda>_. 0), b_user = (\<lambda>_. 0),
     b_env = \<lparr>x_hw = \<lparr>h_rx = (\<lambda>_. None), h_status = (\<lambda>_. 0)\<rparr>, x_world = idle_world\<rparr>\<rparr>"

lemma sample_start_good: "good_boot sample_start"
proof -
  have l: "tag_type sample_boot 8 = 6" "tag_size sample_boot 8 = 40" "tag_type sample_boot 48 = 0"
    by (simp_all add: tag_size_def tag_type_def load32_def sample_boot_def)
  have n: "multiboot2_next_tag sample_boot 8 = 48" by (simp add: multiboot2_next_tag_def l)
  have "find_initramfs_module sample_boot 0 = Some None"
    by (simp add: find_initramfs_module_def multiboot2_first_tag_def find_module.simps [of sample_boot 8] find_module.simps [of sample_boot 48] l n)
  moreover have "drain_ps2 (\<lambda>_. 0) 0 = Some 1" by (simp add: drain_ps2.simps)
  moreover have "timer_runs idle_world" by (auto simp: timer_runs_def idle_world_def)
  ultimately show ?thesis using sample_boot_tags by (auto simp: good_boot_def boot_info_def sample_start_def intro!: exI [of _ "[(0x200000, 0x3000, 1)]"])
qed


subsection \<open>The running machine\<close>

definition booted :: "platform \<Rightarrow> bool" where
  "booted p \<longleftrightarrow> (\<exists>b s ms. good_boot b \<and> kernel_main b = Some (Inr (p, s, ms)))"

lemma booted_inv:
  assumes "booted p"
  shows "platform_inv p"
proof -
  obtain b s ms where g: "good_boot b" and k: "kernel_main b = Some (Inr (p, s, ms))" using assms by (auto simp: booted_def)
  have "b_magic b = MULTIBOOT2_BOOTLOADER_MAGIC" using k by (auto simp: kernel_main_def bind_eq_Some_conv split: if_splits)
  from kernel_main_returns [OF g this] show ?thesis using k by fastforce
qed

interpretation machine: state_machine booted platform_step platform_inv
  by unfold_locales (auto intro: booted_inv platform_step_inv)


lemma booted_sample: "\<exists>p. booted p"
proof (rule kernel_main_returns [OF sample_start_good])
  show "b_magic sample_start = MULTIBOOT2_BOOTLOADER_MAGIC" by (simp add: sample_start_def MULTIBOOT2_BOOTLOADER_MAGIC_def)
  fix p assume "kernel_main sample_start = Some (Inr (p, static_cli, fst (syscall_init (b_entry sample_start))))"
  then show ?thesis using sample_start_good unfolding booted_def by blast
qed




end
