(* ===== verification/Libc.thy ===== *)
theory Libc
  imports Syscall
begin

text \<open>
  The C library of user programs: \<^verbatim>\<open>lib/libc/syscall.c\<close>, \<^verbatim>\<open>lib/libc/unistd.c\<close> and \<^verbatim>\<open>lib/libc/string.c\<close>.
  A wrapper loads the registers of the \<^verbatim>\<open>syscall\<close> instruction; the registers it does not load keep
  whatever they hold, which is an argument here. The instruction enters the kernel, where
  \<^verbatim>\<open>syscall_entry\<close> hands the registers to \<^verbatim>\<open>syscall_dispatch\<close>. The property follows a file through the
  whole stack: library, system calls, descriptors, file system and arena.
\<close>

record regs =
  rdi :: u64
  rsi :: u64
  rdx :: u64
  r10 :: u64
  r8 :: u64
  r9 :: u64

record libc =
  errno :: int
  lc_kernel :: kernel

type_synonym 'a libc_ret = "((power \<times> machine) + ('a \<times> libc)) option"

definition normalize_result :: "int \<Rightarrow> libc \<Rightarrow> int \<times> libc" where
  "normalize_result result st =
     (if result < 0 \<and> result > - 4096 then (-1, st\<lparr>errno := - result\<rparr>) else (result, st))"

definition trap :: "hardware \<Rightarrow> u64 \<Rightarrow> regs \<Rightarrow> libc \<Rightarrow> int libc_ret" where
  "trap hw nr rg st =
     (case syscall_dispatch hw nr (rdi rg) (rsi rg) (rdx rg) (r10 rg) (r8 rg) (r9 rg) (lc_kernel st) of
        None \<Rightarrow> None
      | Some (Inl stop) \<Rightarrow> Some (Inl stop)
      | Some (Inr (r, k)) \<Rightarrow> Some (Inr (normalize_result r (st\<lparr>lc_kernel := k\<rparr>))))"

definition syscall0 :: "hardware \<Rightarrow> regs \<Rightarrow> u64 \<Rightarrow> libc \<Rightarrow> int libc_ret" where
  "syscall0 hw rg nr st = trap hw nr rg st"

definition syscall1 :: "hardware \<Rightarrow> regs \<Rightarrow> u64 \<Rightarrow> u64 \<Rightarrow> libc \<Rightarrow> int libc_ret" where
  "syscall1 hw rg nr a0 st = trap hw nr (rg\<lparr>rdi := a0\<rparr>) st"

definition syscall2 :: "hardware \<Rightarrow> regs \<Rightarrow> u64 \<Rightarrow> u64 \<Rightarrow> u64 \<Rightarrow> libc \<Rightarrow> int libc_ret" where
  "syscall2 hw rg nr a0 a1 st = trap hw nr (rg\<lparr>rdi := a0, rsi := a1\<rparr>) st"

definition syscall3 :: "hardware \<Rightarrow> regs \<Rightarrow> u64 \<Rightarrow> u64 \<Rightarrow> u64 \<Rightarrow> u64 \<Rightarrow> libc \<Rightarrow> int libc_ret" where
  "syscall3 hw rg nr a0 a1 a2 st = trap hw nr (rg\<lparr>rdi := a0, rsi := a1, rdx := a2\<rparr>) st"

definition syscall6 ::
  "hardware \<Rightarrow> u64 \<Rightarrow> u64 \<Rightarrow> u64 \<Rightarrow> u64 \<Rightarrow> u64 \<Rightarrow> u64 \<Rightarrow> u64 \<Rightarrow> libc \<Rightarrow> int libc_ret" where
  "syscall6 hw nr a0 a1 a2 a3 a4 a5 st =
     trap hw nr \<lparr>rdi = a0, rsi = a1, rdx = a2, r10 = a3, r8 = a4, r9 = a5\<rparr> st"

subsection \<open>Wrappers\<close>

definition to_int :: "int libc_ret \<Rightarrow> int libc_ret" where
  "to_int res = map_option (map_sum (\<lambda>x. x) (\<lambda>(r, st). (sint (word_of_int r :: u32), st))) res"

definition libc_read :: "hardware \<Rightarrow> regs \<Rightarrow> int \<Rightarrow> u64 \<Rightarrow> u64 \<Rightarrow> libc \<Rightarrow> int libc_ret" where
  "libc_read hw rg fd buffer count st = syscall3 hw rg 0 (word_of_int fd) buffer count st"

definition libc_write :: "hardware \<Rightarrow> regs \<Rightarrow> int \<Rightarrow> u64 \<Rightarrow> u64 \<Rightarrow> libc \<Rightarrow> int libc_ret" where
  "libc_write hw rg fd buffer count st = syscall3 hw rg 1 (word_of_int fd) buffer count st"

definition libc_open :: "hardware \<Rightarrow> regs \<Rightarrow> u64 \<Rightarrow> int \<Rightarrow> int \<Rightarrow> libc \<Rightarrow> int libc_ret" where
  "libc_open hw rg path flags mode st = to_int (syscall3 hw rg 2 path (word_of_int flags) (word_of_int mode) st)"

definition libc_close :: "hardware \<Rightarrow> regs \<Rightarrow> int \<Rightarrow> libc \<Rightarrow> int libc_ret" where
  "libc_close hw rg fd st = to_int (syscall1 hw rg 3 (word_of_int fd) st)"

definition libc_lseek :: "hardware \<Rightarrow> regs \<Rightarrow> int \<Rightarrow> int \<Rightarrow> int \<Rightarrow> libc \<Rightarrow> int libc_ret" where
  "libc_lseek hw rg fd offset whence st = syscall3 hw rg 8 (word_of_int fd) (word_of_int offset) (word_of_int whence) st"

definition libc_chdir :: "hardware \<Rightarrow> regs \<Rightarrow> u64 \<Rightarrow> libc \<Rightarrow> int libc_ret" where
  "libc_chdir hw rg path st = to_int (syscall1 hw rg 80 path st)"

definition libc_getcwd :: "hardware \<Rightarrow> regs \<Rightarrow> u64 \<Rightarrow> u64 \<Rightarrow> libc \<Rightarrow> int libc_ret" where
  "libc_getcwd hw rg buffer sz st = syscall2 hw rg 79 buffer sz st"

definition libc_mkdir :: "hardware \<Rightarrow> regs \<Rightarrow> u64 \<Rightarrow> u32 \<Rightarrow> libc \<Rightarrow> int libc_ret" where
  "libc_mkdir hw rg path mode st = to_int (syscall2 hw rg 83 path (ucast mode) st)"

definition libc_rmdir :: "hardware \<Rightarrow> regs \<Rightarrow> u64 \<Rightarrow> libc \<Rightarrow> int libc_ret" where
  "libc_rmdir hw rg path st = to_int (syscall1 hw rg 84 path st)"

definition libc_unlink :: "hardware \<Rightarrow> regs \<Rightarrow> u64 \<Rightarrow> libc \<Rightarrow> int libc_ret" where
  "libc_unlink hw rg path st = to_int (syscall1 hw rg 87 path st)"

definition libc_getpid :: "hardware \<Rightarrow> regs \<Rightarrow> libc \<Rightarrow> int libc_ret" where
  "libc_getpid hw rg st = to_int (syscall0 hw rg 39 st)"

definition libc_stat :: "hardware \<Rightarrow> regs \<Rightarrow> u64 \<Rightarrow> u64 \<Rightarrow> libc \<Rightarrow> int libc_ret" where
  "libc_stat hw rg path st_ptr st = to_int (syscall2 hw rg 4 path st_ptr st)"

definition libc_fstat :: "hardware \<Rightarrow> regs \<Rightarrow> int \<Rightarrow> u64 \<Rightarrow> libc \<Rightarrow> int libc_ret" where
  "libc_fstat hw rg fd st_ptr st = to_int (syscall2 hw rg 5 (word_of_int fd) st_ptr st)"

definition libc_gettimeofday :: "hardware \<Rightarrow> regs \<Rightarrow> u64 \<Rightarrow> u64 \<Rightarrow> libc \<Rightarrow> int libc_ret" where
  "libc_gettimeofday hw rg tv tz st = to_int (syscall2 hw rg 96 tv tz st)"

definition libc_kill :: "hardware \<Rightarrow> regs \<Rightarrow> int \<Rightarrow> int \<Rightarrow> libc \<Rightarrow> int libc_ret" where
  "libc_kill hw rg pid signum st = to_int (syscall2 hw rg 62 (word_of_int pid) (word_of_int signum) st)"

text \<open>After the call the task spins; the result is the state it spins in.\<close>

definition libc_exit :: "hardware \<Rightarrow> regs \<Rightarrow> int \<Rightarrow> libc \<Rightarrow> ((power \<times> machine) + libc) option" where
  "libc_exit hw rg status st = map_option (map_sum (\<lambda>x. x) snd) (syscall1 hw rg 60 (word_of_int status) st)"

definition libc_memcpy :: "nat \<Rightarrow> nat \<Rightarrow> nat \<Rightarrow> memory \<Rightarrow> memory" where
  "libc_memcpy dst src n m = copy_up dst src 0 n m"

definition libc_memset :: "nat \<Rightarrow> int \<Rightarrow> nat \<Rightarrow> memory \<Rightarrow> memory" where
  "libc_memset dst c n m = set_up dst (word_of_int c) 0 n m"

fun libc_strlen :: "string \<Rightarrow> nat" where
  "libc_strlen [] = 0"
| "libc_strlen (c # s) = (if c = NUL then 0 else Suc (libc_strlen s))"

subsection \<open>Lemmas\<close>

lemma int32_fd: "0 \<le> fd \<Longrightarrow> fd < 32 \<Longrightarrow> int32 (word_of_int fd) = fd"
proof -
  assume "0 \<le> fd" "fd < 32"
  then have "take_bit 64 fd = fd" "take_bit 32 fd = fd" by (simp_all add: take_bit_int_eq_self)
  then have "uint (ucast (word_of_int fd :: u64) :: u32) = fd"
    by (simp only: unsigned_ucast_eq uint_word_of_int_eq) simp
  then show ?thesis using \<open>0 \<le> fd\<close> \<open>fd < 32\<close> by (simp add: int32_def sint_uint signed_take_bit_int_eq_self)
qed

lemma read_overwritten: "take (length b) (drop off (overwrite c off b)) = b"
proof (rule nth_equalityI)
  fix i assume "i < length (take (length b) (drop off (overwrite c off b)))"
  then have "i < length b" by simp
  then show "take (length b) (drop off (overwrite c off b)) ! i = b ! i" by (simp add: nth_overwrite length_overwrite)
qed (simp add: length_overwrite)

lemma load_put: "load_bytes (put_bytes a bs m) a (length bs) = bs"
  by (rule nth_equalityI) (simp_all add: load_bytes_def put_bytes_apply)

lemma length_load_bytes [simp]: "length (load_bytes m a n) = n"
  by (simp add: load_bytes_def)

lemma trap_ret:
  "syscall_dispatch hw nr (rdi rg) (rsi rg) (rdx rg) (r10 rg) (r8 rg) (r9 rg) (lc_kernel st) = ret r k \<Longrightarrow>
   trap hw nr rg st = Some (Inr (normalize_result r (st\<lparr>lc_kernel := k\<rparr>)))"
  by (simp add: trap_def ret_def)

lemma dispatch_file_calls:
  "syscall_dispatch hw 0 = sys_read hw" "syscall_dispatch hw 1 = sys_write" "syscall_dispatch hw 8 = sys_lseek"
  by (intro ext, simp add: syscall_dispatch_def g_syscall_table_def MGCORE_SYSCALL_MAX_def word_le_nat_alt)+

lemma fs_write_file:
  assumes inv: "vfs_inv v" and rf: "reads_file fd n i v" and sane: "unat (f_offset (v_files v ! n)) + length b + 510 < 2 ^ 32"
  obtains "fs_write_fd fd b v = Some (- ENOSPC, v)"
  | v' where "fs_write_fd fd b v = Some (int (length b), v')" "vfs_inv v'" "reads_file fd n i v'" "v_files v' = v_files v"
      "content (v_fs v') i = overwrite (content (v_fs v) i) (unat (f_offset (v_files v ! n))) b"
proof -
  have l: "lookup_file fd v = Some n" "f_node_id (v_files v ! n) = int i" "is_file (v_fs v) i" using rf by (auto simp: reads_file_def)
  have st: "storage (v_fs v)" and tr: "\<exists>ch. tree (v_fs v) ch" using inv by (auto simp: vfs_inv_def tmpfs_inv_def)
  then have len: "length (g_nodes (v_fs v)) = MGCORE_MAX_NODES" using treeD(1) by blast
  have ty: "n_type (g_nodes (v_fs v) ! i) = VFS_NODE_FILE" using l(3) by (simp add: is_file_def)
  have wr: "fs_write_fd fd b v = map_option (\<lambda>(r, fs). (r, v\<lparr>v_fs := fs\<rparr>)) (tmpfs_write_node (int i) b (f_offset (v_files v ! n)) (v_fs v))"
    using l ty get_node_file [OF l(3)] by (simp add: fs_write_fd_def)
  from write_node_content [OF st l(3) len sane] show thesis
  proof
    assume "tmpfs_write_node (int i) b (f_offset (v_files v ! n)) (v_fs v) = Some (- ENOSPC, v_fs v)"
    then show thesis using that(1) wr by simp
  next
    assume "\<exists>fs'. tmpfs_write_node (int i) b (f_offset (v_files v ! n)) (v_fs v) = Some (int (length b), fs') \<and> storage fs' \<and>
      rewritten (v_fs v) fs' i \<and> content fs' i = overwrite (content (v_fs v) i) (unat (f_offset (v_files v ! n))) b \<and>
      (\<forall>j. live (v_fs v) j \<longrightarrow> j \<noteq> i \<longrightarrow> content fs' j = content (v_fs v) j)"
    then obtain fs' where w: "fs_write_fd fd b v = Some (int (length b), v\<lparr>v_fs := fs'\<rparr>)" "rewritten (v_fs v) fs' i"
      "content fs' i = overwrite (content (v_fs v) i) (unat (f_offset (v_files v ! n))) b" using wr by auto
    have "is_file fs' i" using w(2) l(3) by (auto simp: rewritten_def is_file_def)
    moreover have "vfs_inv (v\<lparr>v_fs := fs'\<rparr>)" by (rule fs_write_fd_inv [OF inv _ w(1)]) (use sane l(1) in \<open>simp add: sane_write_def\<close>)
    moreover have "lookup_file fd (v\<lparr>v_fs := fs'\<rparr>) = Some n" using l(1) by (simp add: lookup_file_def split: if_splits)
    ultimately show thesis using that(2) [OF w(1)] w(3) l(2) by (simp add: reads_file_def)
  qed
qed

lemma fs_lseek_file:
  assumes inv: "vfs_inv v" and rf: "reads_file fd n i v" and off: "off < 2 ^ 63"
  obtains v' where "fs_lseek_fd fd (word_of_int (int off)) SEEK_SET v = (int off, v')" "vfs_inv v'" "reads_file fd n i v'"
    "v_fs v' = v_fs v" "f_offset (v_files v' ! n) = word_of_int (int off)"
proof -
  have l: "lookup_file fd v = Some n" "f_node_id (v_files v ! n) = int i" "is_file (v_fs v) i" using rf by (auto simp: reads_file_def)
  note nl = lookup_file_SomeD(5) [OF inv l(1)]
  let ?v = "upd_file n (\<lambda>f. f\<lparr>f_offset := word_of_int (int off)\<rparr>) v"
  have sk: "fs_lseek_fd fd (word_of_int (int off)) SEEK_SET v = (int off, ?v)"
    using l get_node_file [OF l(3)] sint_small [OF off] by (simp add: fs_lseek_fd_def Let_def)
  moreover have "vfs_inv ?v" by (rule fs_lseek_fd_inv [OF inv sk])
  moreover have "reads_file fd n i ?v" using l nl by (auto simp: reads_file_def lookup_file_def split: if_splits)
  ultimately show thesis using that nl by simp
qed


definition quiet :: hardware where
  "quiet = \<lparr>h_rx = (\<lambda>_. None), h_status = (\<lambda>_. 0)\<rparr>"

definition zero_regs :: regs where
  "zero_regs = \<lparr>rdi = 0, rsi = 0, rdx = 0, r10 = 0, r8 = 0, r9 = 0\<rparr>"


end
