(* ===== verification/Errors.thy ===== *)
theory Errors
  imports Libc
begin

text \<open>
  Failing system calls. For every call that does not return an address or an offset, and does not
  consist of several steps, an error leaves the whole kernel as it was, and the C library reports it
  by \<^verbatim>\<open>-1\<close> and \<^verbatim>\<open>errno\<close>.
\<close>

definition fails_clean :: "kernel \<Rightarrow> sysret \<Rightarrow> bool" where
  "fails_clean k res \<longleftrightarrow> (\<forall>r k'. res = Some (Inr (r, k')) \<longrightarrow> r < 0 \<longrightarrow> k' = k)"

named_theorems clean

lemma clean_basic [clean]:
  "fails_clean k None" "fails_clean k (Some (Inl stop))" "fails_clean k (ret r k)" "0 \<le> r \<Longrightarrow> fails_clean k (ret r k')"
  by (simp_all add: fails_clean_def ret_def)

lemma clean_vfs [clean]: "(\<And>r v. res = Some (r, v) \<Longrightarrow> r < 0 \<Longrightarrow> v = k_vfs k) \<Longrightarrow> fails_clean k (ret_vfs res k)"
  by (auto simp: fails_clean_def ret_vfs_def ret_def split: option.splits)

lemma clean_with_path [clean]: "(\<And>q. fails_clean k (f q)) \<Longrightarrow> fails_clean k (with_path a k f)"
  by (simp add: with_path_def clean_basic split: option.split)

lemma clean_on_fs: "(\<And>r fs. res = Some (r, fs) \<Longrightarrow> r < 0 \<Longrightarrow> fs = v_fs v) \<Longrightarrow> on_fs res v = Some (r, v') \<Longrightarrow> r < 0 \<Longrightarrow> v' = v"
  by (auto simp: on_fs_def)

lemma create_clean: "tmpfs_create_path path ty mode fs = Some (r, fs') \<Longrightarrow> r < 0 \<Longrightarrow> fs' = fs"
  by (auto simp: tmpfs_create_path_def create_child_def alloc_node_def Let_def split: if_splits option.splits prod.splits)

lemma remove_clean: "tmpfs_remove_path path d fs = Some (r, fs') \<Longrightarrow> r < 0 \<Longrightarrow> fs' = fs"
  by (auto simp: tmpfs_remove_path_def split: if_splits option.splits)

lemma sint_nonneg: "unat n < 2 ^ 63 \<Longrightarrow> 0 \<le> sint n" for n :: u64
  using sint_small [of "unat n"] by simp

lemma write_node_clean:
  assumes "tmpfs_write_node i bs off fs = Some (r, fs')" and "r < 0" and "length bs < 2 ^ 63"
  shows "fs' = fs"
proof -
  have "0 \<le> sint (of_nat (length bs) :: u64)" by (rule sint_nonneg) (use assms(3) in \<open>simp add: unat_of_nat\<close>)
  then have "False" if "store_node i bs off f = Some (r, f')" for f f'
    using that assms(2) by (auto simp: store_node_def Let_def split: option.splits)
  then show ?thesis using assms(1)
    by (auto simp: tmpfs_write_node_def grow_node_def Let_def split: option.splits if_splits prod.splits)
qed

lemma write_clean [clean]:
  assumes "unat count < 2 ^ 63"
  shows "fails_clean k (sys_write fd buf count a3 a4 a5 k)"
proof -
  let ?bs = "load_bytes (k_mem k) (unat buf) (unat count)"
  have l: "length ?bs < 2 ^ 63" using assms by (simp add: load_bytes_def)
  then have n: "0 \<le> sint (of_nat (length ?bs) :: u64)" by (intro sint_nonneg) (simp add: unat_of_nat)
  have "v = k_vfs k" if "fs_write_fd (int32 fd) ?bs (k_vfs k) = Some (r, v)" "r < 0" for r v
    using that n write_node_clean [OF _ _ l]
    by (fastforce simp: fs_write_fd_def write_console_def Let_def split: option.splits if_splits)
  then show ?thesis unfolding sys_write_def by (rule clean_vfs)
qed

lemma read_clean [clean]:
  assumes "unat count < 2 ^ 63"
  shows "fails_clean k (sys_read hw fd buf count a3 a4 a5 k)"
proof -
  have n: "0 \<le> sint c" if "c \<le> count" for c using that assms by (intro sint_nonneg) (simp add: word_le_nat_alt)
  have rd: "out = []" if "tmpfs_read_node i count off fs = Some (r, out)" "r < 0" for i off fs r out
    using that n [of count] n [OF less_imp_le]
    by (fastforce simp: tmpfs_read_node_def Let_def not_less split: option.splits if_splits)
  have "out = [] \<and> v = k_vfs k" if "fs_read_fd (h_rx hw) (int32 fd) count (k_vfs k) = Some (r, out, v)" "r < 0" for r out v
    using that n [of count] rd by (fastforce simp: fs_read_fd_def read_console_def Let_def split: option.splits if_splits prod.splits)
  then show ?thesis unfolding sys_read_def fails_clean_def
    by (fastforce simp: ret_def put_user_def split: option.splits)
qed

lemma stat_clean [clean]: "fails_clean k (put_stat q (fill_stat_from_node n) k)"
  by (auto simp: put_stat_def fill_stat_from_node_def intro: clean split: option.split)

lemma fork_clean [clean]:
  assumes "kernel_inv k"
  shows "fails_clean k (sys_fork a0 a1 a2 a3 a4 a5 k)"
proof -
  have ti: "task_inv (tasks k)" using assms by (simp add: kernel_inv_def vfs_inv_def tasks_def)
  have "0 \<le> t_pid (g_tasks tt ! c)" if sp: "task_spawn_user nm (tasks k) = Some (c, tt)" for nm c tt
  proof -
    obtain t1 where al: "task_alloc (nm, TASK_RUNNABLE) (tasks k) = Some (c, t1)" and tt: "tt = upd_task c (\<lambda>e. e\<lparr>t_ppid := t_pid (task_current t1)\<rparr>) t1"
      using sp by (auto simp: task_spawn_user_def split: option.splits)
    note d = task_alloc_SomeD [OF ti al]
    have "0 < g_next_pid (tasks k)" using ti by (simp add: task_inv_def)
    then show ?thesis using d by (simp add: tt upd_task_def)
  qed
  then show ?thesis unfolding sys_fork_def by (auto intro!: clean split: option.split)
qed

lemma wait_clean [clean]:
  assumes "kernel_inv k"
  shows "fails_clean k (sys_wait4 a0 a1 a2 a3 a4 a5 k)"
proof -
  have ti: "task_inv (tasks k)" using assms by (simp add: kernel_inv_def vfs_inv_def tasks_def)
  have "0 \<le> t_pid (g_tasks (tasks k) ! the (task_find (int i) (tasks k)))" if "scan_from (zombie_child (tasks k)) 1 MGCORE_MAX_TASKS = Some i" for i
  proof -
    have "zombie_child (tasks k) i" using scan_from_SomeD [OF that] by blast
    then show ?thesis by (auto simp: zombie_child_def split: option.splits dest: task_find_SomeD)
  qed
  then show ?thesis unfolding sys_wait4_def Let_def by (auto intro!: clean split: option.split)
qed

text \<open>The calls without the two exceptions: results that are addresses or offsets, and calls of several steps.\<close>

definition single_step :: "u64 \<Rightarrow> bool" where
  "single_step nr \<longleftrightarrow> unat nr \<notin> {2, 8, 9, 12, 59, 79, 257}"

lemma path_clean [clean]:
  "fails_clean k (sys_mkdir a0 a1 a2 a3 a4 a5 k)" "fails_clean k (sys_rmdir a0 a1 a2 a3 a4 a5 k)" "fails_clean k (sys_unlink a0 a1 a2 a3 a4 a5 k)"
  "fails_clean k (sys_chdir a0 a1 a2 a3 a4 a5 k)" "fails_clean k (sys_stat a0 a1 a2 a3 a4 a5 k)"
  unfolding sys_mkdir_def sys_rmdir_def sys_unlink_def fs_mkdir_path_def fs_rmdir_path_def fs_unlink_path_def
      apply (intro clean_with_path clean_vfs; elim clean_on_fs [rotated]; blast intro: create_clean remove_clean)+
  unfolding sys_chdir_def sys_stat_def fs_stat_path_def
   apply (intro clean_with_path clean_vfs; auto simp: fs_chdir_path_def Let_def split: option.splits if_splits)
  apply (rule clean_with_path; auto intro: clean split: option.splits)
  done

lemma descriptor_clean [clean]:
  "fails_clean k (sys_close a0 a1 a2 a3 a4 a5 k)" "fails_clean k (sys_fstat a0 a1 a2 a3 a4 a5 k)"
proof -
  show "fails_clean k (sys_close a0 a1 a2 a3 a4 a5 k)" unfolding sys_close_def
    by (rule clean_vfs) (auto simp: fs_close_fd_def Let_def split: option.splits if_splits)
  show "fails_clean k (sys_fstat a0 a1 a2 a3 a4 a5 k)" unfolding sys_fstat_def fs_fstat_fd_def
    by (cases "lookup_file (int32 a0) (k_vfs k)") (simp_all add: clean, simp add: put_stat_def clean)
qed

lemma simple_clean [clean]:
  "fails_clean k (sys_mprotect a0 a1 a2 a3 a4 a5 k)" "fails_clean k (sys_munmap a0 a1 a2 a3 a4 a5 k)"
  "fails_clean k (sys_rt_sigaction a0 a1 a2 a3 a4 a5 k)" "fails_clean k (sys_ioctl a0 a1 a2 a3 a4 a5 k)"
  "fails_clean k (sys_sched_yield a0 a1 a2 a3 a4 a5 k)" "fails_clean k (sys_nanosleep a0 a1 a2 a3 a4 a5 k)"
  "fails_clean k (sys_getpid a0 a1 a2 a3 a4 a5 k)" "fails_clean k (sys_signal a0 a1 a2 a3 a4 a5 k)"
  "fails_clean k (sys_exit a0 a1 a2 a3 a4 a5 k)" "fails_clean k (sys_kill a0 a1 a2 a3 a4 a5 k)"
  "fails_clean k (sys_uname a0 a1 a2 a3 a4 a5 k)" "fails_clean k (sys_gettimeofday a0 a1 a2 a3 a4 a5 k)"
  "fails_clean k (sys_reboot hw a0 a1 a2 a3 a4 a5 k)"
  by (auto simp: sys_mprotect_def sys_munmap_def sys_rt_sigaction_def sys_ioctl_def sys_sched_yield_def sys_nanosleep_def sys_getpid_def
      sys_signal_def sys_exit_def sys_kill_def sys_uname_def copy_uname_def sys_gettimeofday_def sys_reboot_def vmm_unmap_def Let_def intro!: clean)

lemma dispatch_clean:
  assumes "kernel_inv k" and "single_step nr" and "nr \<in> {0, 1} \<longrightarrow> unat a2 < 2 ^ 63"
  shows "fails_clean k (syscall_dispatch hw nr a0 a1 a2 a3 a4 a5 k)"
proof (cases "map_of (g_syscall_table hw) (unat nr)")
  case None
  then show ?thesis by (simp add: syscall_dispatch_def clean)
next
  case (Some h)
  then have "(unat nr, h) \<in> set (g_syscall_table hw)" by (rule map_of_SomeD)
  moreover have "unat nr = 0 \<or> unat nr = 1 \<Longrightarrow> unat a2 < 2 ^ 63" using assms(3) by (auto simp: unat_eq_zero word_unat_eq_iff [of nr 1])
  ultimately have "fails_clean k (h a0 a1 a2 a3 a4 a5 k)"
    using assms(1,2) by (auto simp: g_syscall_table_def single_step_def intro: clean)
  then show ?thesis using Some by (simp add: syscall_dispatch_def clean)
qed



end
