(* ===== verification/Userspace.thy ===== *)
theory Userspace
  imports Libc
begin

text \<open>
  The programs under \<^verbatim>\<open>userspace\<close> and the numbers the two sides of the system call interface agree on.
  The programs are placeholders that print: what is shown is that the text of their string literals,
  wherever the loader put them, arrives on the console unchanged, through the C library, the trap,
  the table and the descriptor layer.
\<close>

subsection \<open>System call numbers\<close>

definition kernel_numbers :: "(string \<times> nat) list" where
  "kernel_numbers = [
    (''read'', 0), (''write'', 1), (''open'', 2), (''close'', 3), (''stat'', 4), (''fstat'', 5), (''lstat'', 6), (''poll'', 7),
    (''lseek'', 8), (''mmap'', 9), (''mprotect'', 10), (''munmap'', 11), (''brk'', 12), (''rt_sigaction'', 13),
    (''rt_sigprocmask'', 14), (''ioctl'', 16), (''pread64'', 17), (''pwrite64'', 18), (''readv'', 19), (''writev'', 20),
    (''access'', 21), (''pipe'', 22), (''sched_yield'', 24), (''mremap'', 25), (''msync'', 26), (''mincore'', 27),
    (''madvise'', 28), (''dup'', 32), (''dup2'', 33), (''nanosleep'', 35), (''getpid'', 39), (''socket'', 41), (''connect'', 42),
    (''signal'', 48), (''clone'', 56), (''fork'', 57), (''vfork'', 58), (''execve'', 59), (''exit'', 60), (''wait4'', 61),
    (''kill'', 62), (''uname'', 63), (''fcntl'', 72), (''getcwd'', 79), (''chdir'', 80), (''mkdir'', 83), (''rmdir'', 84),
    (''creat'', 85), (''link'', 86), (''unlink'', 87), (''readlink'', 89), (''gettimeofday'', 96), (''reboot'', 169),
    (''openat'', 257)]"

definition libc_numbers :: "(string \<times> nat) list" where
  "libc_numbers = [
    (''read'', 0), (''write'', 1), (''open'', 2), (''close'', 3), (''stat'', 4), (''fstat'', 5), (''lseek'', 8), (''mmap'', 9),
    (''mprotect'', 10), (''munmap'', 11), (''brk'', 12), (''rt_sigaction'', 13), (''ioctl'', 16), (''sched_yield'', 24),
    (''nanosleep'', 35), (''getpid'', 39), (''signal'', 48), (''execve'', 59), (''exit'', 60), (''wait4'', 61), (''kill'', 62),
    (''uname'', 63), (''getcwd'', 79), (''chdir'', 80), (''mkdir'', 83), (''rmdir'', 84), (''unlink'', 87),
    (''gettimeofday'', 96), (''reboot'', 169), (''openat'', 257)]"

text \<open>
  Every number of the library's header is the kernel's number of the same name and has a handler;
  fork is the only handler that the library has no number for.
\<close>

lemma numbers_agree:
  "set libc_numbers \<subseteq> set kernel_numbers \<and> distinct (map snd kernel_numbers) \<and> list_all (\<lambda>(_, n). n < MGCORE_SYSCALL_MAX) kernel_numbers \<and>
   sorted (map snd kernel_numbers) \<and> fst ` set (g_syscall_table hw) = insert 57 (snd ` set libc_numbers)"
  by (intro conjI) (simp_all add: libc_numbers_def kernel_numbers_def g_syscall_table_def MGCORE_SYSCALL_MAX_def, auto)

subsection \<open>Programs\<close>

type_synonym program = "hardware \<Rightarrow> regs \<Rightarrow> libc \<Rightarrow> int libc_ret"

text \<open>The literals of a program are at addresses that the loader chooses; \<open>rg\<close> are the registers before each call.\<close>

definition puts_fd :: "hardware \<Rightarrow> regs \<Rightarrow> int \<Rightarrow> u64 \<Rightarrow> libc \<Rightarrow> int libc_ret" where
  "puts_fd hw rg fd s st =
     (case user_str (k_mem (lc_kernel st)) (unat s) of
        None \<Rightarrow> None
      | Some t \<Rightarrow> libc_write hw rg fd s (of_nat (length t)) st)"

definition main_of :: "(hardware \<Rightarrow> libc \<Rightarrow> int libc_ret) list \<Rightarrow> hardware \<Rightarrow> libc \<Rightarrow> int libc_ret" where
  "main_of calls hw st =
     fold (\<lambda>f res. case res of Some (Inr (_, s)) \<Rightarrow> map_option (map_sum (\<lambda>x. x) (\<lambda>(_, s1). (0, s1))) (f hw s) | _ \<Rightarrow> res)
       calls (Some (Inr (0, st)))"

definition init_main :: "regs \<Rightarrow> regs \<Rightarrow> u64 \<Rightarrow> u64 \<Rightarrow> hardware \<Rightarrow> libc \<Rightarrow> int libc_ret" where
  "init_main rg1 rg2 s1 s2 = main_of [\<lambda>hw. puts_fd hw rg1 1 s1, \<lambda>hw. puts_fd hw rg2 1 s2]"

definition init_texts :: "string list" where
  "init_texts = [''MGCORE init: bootstrapped userspace placeholder'' @ [CHR 0x0A],
     ''MGCORE init: intended next step is exec /bin/shell'' @ [CHR 0x0A]]"

definition shell_main :: "regs \<Rightarrow> regs \<Rightarrow> u64 \<Rightarrow> u64 \<Rightarrow> hardware \<Rightarrow> libc \<Rightarrow> int libc_ret" where
  "shell_main rg1 rg2 s1 s2 = main_of [\<lambda>hw. puts_fd hw rg1 1 s1, \<lambda>hw. puts_fd hw rg2 1 s2]"

definition shell_texts :: "string list" where
  "shell_texts = [''MGCORE shell: static userspace ELF placeholder'' @ [CHR 0x0A],
     ''MGCORE shell: command parsing to be wired after full exec/user-mode bring-up'' @ [CHR 0x0A]]"

definition hello_message :: string where
  "hello_message = ''Hello from MGCORE userspace C program'' @ [CHR 0x0A]"

definition hello_main :: "regs \<Rightarrow> u64 \<Rightarrow> hardware \<Rightarrow> libc \<Rightarrow> int libc_ret" where
  "hello_main rg message = main_of [\<lambda>hw. libc_write hw rg 1 message (of_nat (length hello_message))]"

subsection \<open>What they print\<close>

lemma user_str_bytes: "user_str m a = Some t \<Longrightarrow> chars (load_bytes m a (length t)) = t"
proof (induction t arbitrary: a)
  case (Cons c t)
  then have c: "m a \<noteq> 0" "c = char_of (unat (m a))" "user_str m (Suc a) = Some t"
    by (auto simp: user_str.simps [of m a] bind_eq_Some_conv split: if_splits)
  have "load_bytes m a (Suc (length t)) = m a # load_bytes m (Suc a) (length t)"
    by (simp add: load_bytes_def upt_conv_Cons map_Suc_upt [symmetric] del: upt_Suc)
  then show ?case using Cons.IH [OF c(3)] c(2) by (simp add: chars_def)
qed (simp add: load_bytes_def chars_def)

text \<open>The effect of printing \<open>t\<close>: the console, and nothing else of the machine.\<close>

definition printed :: "string \<Rightarrow> libc \<Rightarrow> libc" where
  "printed t st = st\<lparr>lc_kernel := (lc_kernel st)\<lparr>k_vfs := (k_vfs (lc_kernel st))\<lparr>v_con := console_write_n t (v_con (k_vfs (lc_kernel st)))\<rparr>\<rparr>\<rparr>"

lemma write_prints:
  assumes "lookup_file 1 (k_vfs (lc_kernel st)) = None" and "user_str (k_mem (lc_kernel st)) (unat s) = Some t" and "length t < 2 ^ 63"
  shows "libc_write hw rg 1 s (of_nat (length t)) st = Some (Inr (int (length t), printed t st))"
proof -
  let ?k = "lc_kernel st"
  have u: "unat (of_nat (length t) :: u64) = length t" using assms(3) by (simp add: unat_of_nat)
  have "fs_write_fd 1 (load_bytes (k_mem ?k) (unat s) (length t)) (k_vfs ?k) =
      Some (int (length t), (k_vfs ?k)\<lparr>v_con := console_write_n t (v_con (k_vfs ?k))\<rparr>)"
    using assms(1) user_str_bytes [OF assms(2)] sint_small [OF assms(3)] by (simp add: fs_write_fd_def write_console_def)
  then have "sys_write (word_of_int 1) s (of_nat (length t)) a3 a4 a5 ?k = ret (int (length t)) (lc_kernel (printed t st))" for a3 a4 a5
    using int32_fd [of 1] u by (simp add: sys_write_def ret_vfs_def printed_def)
  then show ?thesis unfolding libc_write_def syscall3_def
    by (subst trap_ret [where r = "int (length t)" and k = "lc_kernel (printed t st)"])
      (simp_all add: dispatch_file_calls normalize_result_def printed_def)
qed

lemma printed_keeps:
  "lookup_file fd (k_vfs (lc_kernel (printed t st))) = lookup_file fd (k_vfs (lc_kernel st))" "k_mem (lc_kernel (printed t st)) = k_mem (lc_kernel st)"
  by (simp_all add: printed_def lookup_file_def)

lemma programs_print:
  assumes "lookup_file 1 (k_vfs (lc_kernel st)) = None"
    and "user_str (k_mem (lc_kernel st)) (unat s1) = Some t1" "length t1 < 2 ^ 63"
    and "user_str (k_mem (lc_kernel st)) (unat s2) = Some t2" "length t2 < 2 ^ 63"
  shows "init_main rg1 rg2 s1 s2 hw st = Some (Inr (0, printed t2 (printed t1 st)))"
    and "shell_main rg1 rg2 s1 s2 hw st = Some (Inr (0, printed t2 (printed t1 st)))"
  unfolding init_main_def shell_main_def main_of_def puts_fd_def
  using assms by (simp_all add: write_prints printed_keeps)

lemma hello_prints:
  assumes "lookup_file 1 (k_vfs (lc_kernel st)) = None" and "user_str (k_mem (lc_kernel st)) (unat s) = Some hello_message"
  shows "hello_main rg s hw st = Some (Inr (0, printed hello_message st))"
  unfolding hello_main_def main_of_def using write_prints [OF assms] by (simp add: hello_message_def)

end
